(* ===== verification/Prelude.thy ===== *)
theory Prelude
  imports Main "HOL-Library.Word" "HOL-Library.Sublist"
begin

text \<open>
  Shared vocabulary of the development: machine words, the C++ vector and string
  operations the sources use, and the generic lemmas on lists, words and cardinalities
  that the component theories rely on.

  \<^item> \<open>u64\<close> is \<open>std::size_t\<close> and \<open>uint64_t\<close> of the 64-bit targets.
  \<^item> \<open>vec_get\<close> and \<open>vec_set\<close> are \<open>vector::operator[]\<close>: an index out of range is
    undefined behaviour in C++ and the value \<open>None\<close> here.
  \<^item> \<open>vector_resize\<close> is \<open>vector::resize\<close>; the allocator's verdict is an argument.
  \<^item> \<open>decimal\<close> is \<open>std::to_string\<close> on unsigned values, \<open>decimal_int\<close> on signed ones.
\<close>

unbundle bit_operations_syntax

type_synonym u64 = "64 word"

named_theorems op_defs \<open>definitions of the operations, unfolded to execute them symbolically\<close>

subsection \<open>Vectors\<close>

definition vec_get :: "'a list \<Rightarrow> nat \<Rightarrow> 'a option" where
  "vec_get xs i = (if i < length xs then Some (xs ! i) else None)"

definition vec_set :: "'a list \<Rightarrow> nat \<Rightarrow> 'a \<Rightarrow> 'a list option" where
  "vec_set xs i x = (if i < length xs then Some (xs[i := x]) else None)"

definition vector_resize :: "(nat \<Rightarrow> bool) \<Rightarrow> 'a \<Rightarrow> nat \<Rightarrow> 'a list \<Rightarrow> 'a list option" where
  "vector_resize alloc_ok dflt n xs =
     (if length xs < n \<and> \<not> alloc_ok n then None
      else Some (take n xs @ replicate (n - length xs) dflt))"

subsection \<open>Decimal strings\<close>

fun decimal :: "nat \<Rightarrow> string" where
  "decimal n = (if n < 10 then [char_of (48 + n)]
                else decimal (n div 10) @ [char_of (48 + n mod 10)])"

definition decimal_int :: "int \<Rightarrow> string" where
  "decimal_int i = (if i < 0 then CHR ''-'' # decimal (nat (- i)) else decimal (nat i))"

definition digit_value :: "nat \<Rightarrow> char \<Rightarrow> nat" where
  "digit_value acc c = 10 * acc + (of_char c - 48)"

definition parse_decimal :: "string \<Rightarrow> nat" where
  "parse_decimal s = foldl digit_value 0 s"

subsection \<open>Weights of threads\<close>

definition total_weight :: "('b \<Rightarrow> nat) \<Rightarrow> ('a \<Rightarrow> 'b) \<Rightarrow> nat" where
  "total_weight w f = (\<Sum>u | w (f u) \<noteq> 0. w (f u))"

subsection \<open>Lemmas on vectors and decimal strings\<close>

lemma vec_get_Some [simp]: "i < length xs \<Longrightarrow> vec_get xs i = Some (xs ! i)"
  by (simp add: vec_get_def)

lemma vec_set_Some [simp]: "i < length xs \<Longrightarrow> vec_set xs i x = Some (xs[i := x])"
  by (simp add: vec_set_def)

lemma vector_resize_length: "vector_resize ok d n xs = Some ys \<Longrightarrow> length ys = n"
  by (auto simp: vector_resize_def split: if_splits)

declare decimal.simps [simp del]

lemma of_char_digit: "d < 10 \<Longrightarrow> (of_char (char_of (48 + d :: nat) :: char) :: nat) = 48 + d"
  by simp

lemma parse_decimal_inverse: "parse_decimal (decimal n) = n"
proof (induction n rule: decimal.induct)
  case (1 n)
  show ?case
  proof (cases "n < 10")
    case True
    then show ?thesis
      by (simp add: parse_decimal_def digit_value_def decimal.simps [of n] of_char_digit)
  next
    case False
    with "1.IH" have "foldl digit_value 0 (decimal (n div 10)) = n div 10"
      by (simp add: parse_decimal_def)
    with False show ?thesis
      by (simp add: parse_decimal_def digit_value_def decimal.simps [of n] of_char_digit)
  qed
qed

lemma decimal_inject [simp]: "decimal m = decimal n \<longleftrightarrow> m = n"
  by (metis parse_decimal_inverse)

lemma decimal_no_minus: "CHR ''-'' \<notin> set (decimal n)"
proof (induction n rule: decimal.induct)
  case (1 n)
  have "CHR ''-'' \<noteq> char_of (48 + d)" if "d < 10" for d :: nat
  proof
    assume "CHR ''-'' = char_of (48 + d)"
    then have "(of_char (CHR ''-'') :: nat) = 48 + d"
      using of_char_digit [OF that] by simp
    then show False by simp
  qed
  with "1.IH" show ?case by (subst decimal.simps) auto
qed

lemma decimal_int_inject [simp]: "decimal_int i = decimal_int j \<longleftrightarrow> i = j"
proof
  assume eq: "decimal_int i = decimal_int j"
  have "CHR ''-'' # s \<noteq> decimal n" for s n
    using decimal_no_minus [of n] by (metis list.set_intros(1))
  then show "i = j"
    using eq by (auto simp: decimal_int_def split: if_splits) (metis)
qed simp

subsection \<open>Words: masks of powers of two\<close>

lemma unat_and_mask_exp:
  fixes w c :: u64
  assumes "unat c = 2 ^ k"
  shows "unat (w AND (c - 1)) = unat w mod unat c"
proof -
  have k: "k < 64"
  proof (rule ccontr)
    assume "\<not> k < 64"
    then have "(2::nat) ^ 64 \<le> 2 ^ k" by (intro power_increasing) auto
    moreover have "unat c < 2 ^ 64" using unsigned_less [of c] by simp
    ultimately show False using assms by linarith
  qed
  have "c = of_nat (unat c)" by simp
  then have "c = 2 ^ k" using assms by simp
  then have "w AND (c - 1) = take_bit k w" by (simp add: mask_eq_decr_exp take_bit_eq_mask)
  then have "unat (w AND (c - 1)) = take_bit k (unat w)" by (simp add: unsigned_take_bit_eq)
  then show ?thesis using assms by (simp add: take_bit_eq_mod)
qed

lemma pow2_and_nat: "0 < (n::nat) \<Longrightarrow> n AND (n - 1) = 0 \<Longrightarrow> \<exists>k. n = 2 ^ k"
proof (induction n rule: less_induct)
  case (less n)
  show ?case
  proof (cases "even n")
    case True
    then obtain m where m: "n = 2 * m" by blast
    with less.prems have "0 < m" "m < n" by auto
    have "n - 1 = Suc (2 * (m - 1))" using m \<open>0 < m\<close> by simp
    then have "n AND (n - 1) = 2 * (m AND (m - 1))"
      using m by (simp add: and_nat_rec [of "2 * m"])
    then have "m AND (m - 1) = 0" using less.prems by simp
    with less.IH [OF \<open>m < n\<close> \<open>0 < m\<close>] obtain k where "m = 2 ^ k" by blast
    then have "n = 2 ^ Suc k" using m by simp
    then show ?thesis by blast
  next
    case False
    then obtain m where m: "n = Suc (2 * m)" by (metis oddE Suc_eq_plus1)
    then have "n AND (n - 1) = 2 * m" by (simp add: and_nat_rec [of "Suc (2 * m)"])
    then have "n = 2 ^ 0" using less.prems m by simp
    then show ?thesis by blast
  qed
qed

lemma pow2_and_exp: "(2 ^ k :: nat) AND (2 ^ k - 1) = 0"
proof -
  have "(2 ^ k :: nat) AND (2 ^ k - 1) = take_bit k (2 ^ k)"
    by (simp add: take_bit_eq_mask mask_eq_exp_minus_1)
  then show ?thesis by (simp add: take_bit_eq_mod)
qed

lemma unat_decr: "c \<noteq> 0 \<Longrightarrow> unat (c - 1 :: u64) = unat c - 1"
  by (simp add: unat_minus_one)

text \<open>The bit trick of the sources decides exactly the powers of two.\<close>

lemma word_pow2_iff:
  fixes c :: u64
  shows "c \<noteq> 0 \<and> c AND (c - 1) = 0 \<longleftrightarrow> (\<exists>k. unat c = 2 ^ k)"
proof (cases "c = 0")
  case False
  then have u: "unat (c AND (c - 1)) = unat c AND (unat c - 1)"
    by (simp add: unsigned_and_eq unat_decr)
  have "c AND (c - 1) = 0 \<longleftrightarrow> unat c AND (unat c - 1) = 0"
    using u by (metis unat_eq_zero)
  moreover have "0 < unat c" using False by (simp add: unat_gt_0)
  ultimately show ?thesis using False pow2_and_nat pow2_and_exp by metis
qed simp

lemma unat_incr_and_mask:
  fixes h c :: u64
  assumes c: "unat c = 2 ^ k" and h: "unat h < unat c"
  shows "unat ((h + 1) AND (c - 1)) = Suc (unat h) mod unat c"
proof -
  have "Suc (unat h) < 2 ^ 64 \<or> Suc (unat h) = 2 ^ 64"
  proof -
    have "unat h < 2 ^ 64" using unsigned_less [of h] by simp
    then show ?thesis by linarith
  qed
  then have "unat (h + 1) mod unat c = Suc (unat h) mod unat c"
  proof
    assume "Suc (unat h) = 2 ^ 64"
    moreover have "unat c < 2 ^ 64" using unsigned_less [of c] by simp
    ultimately show ?thesis using h by linarith
  qed (simp add: unat_word_ariths)
  then show ?thesis by (simp add: unat_and_mask_exp [OF c])
qed

subsection \<open>Residues and weights\<close>

lemma mod_eq_close:
  fixes i j n :: nat
  assumes "i mod n = j mod n" and "i \<le> j" and "j < i + n"
  shows "i = j"
proof -
  from assms(1,2) have "n dvd j - i" by (metis mod_eq_dvd_iff_nat)
  moreover have "j - i < n" using assms(2,3) by simp
  ultimately have "j - i = 0" by (metis dvd_imp_le not_gr_zero not_le)
  with assms(2) show ?thesis by simp
qed

text \<open>
  A weight summed over all threads: \<open>f\<close> maps threads to their program counters, of which
  only finitely many weigh anything.
\<close>

lemma total_support:
  assumes "finite T" and "{u. w (f u) \<noteq> 0} \<subseteq> T"
  shows "total_weight w f = (\<Sum>u \<in> T. w (f u))"
  unfolding total_weight_def using assms by (intro sum.mono_neutral_left) auto

lemma total_fun_upd:
  assumes fin: "finite {u. w (f u) \<noteq> 0}"
  shows "total_weight w (f(t := x)) + w (f t) = total_weight w f + w x"
proof -
  obtain T where T: "T = insert t {u. w (f u) \<noteq> 0}" by simp
  with fin have finT: "finite T" and t: "t \<in> T" by simp_all
  have "{u. w (f u) \<noteq> 0} \<subseteq> T" using T by auto
  then have "total_weight w f = (\<Sum>u \<in> T. w (f u))" using finT by (intro total_support)
  then have "total_weight w f = w (f t) + (\<Sum>u \<in> T - {t}. w (f u))"
    using finT t by (simp add: sum.remove)
  moreover have "total_weight w (f(t := x)) = w x + (\<Sum>u \<in> T - {t}. w (f u))"
  proof -
    have "{u. w ((f(t := x)) u) \<noteq> 0} \<subseteq> T" using T by auto
    then have "total_weight w (f(t := x)) = (\<Sum>u \<in> T. w ((f(t := x)) u))"
      using finT by (intro total_support)
    also have "\<dots> = w x + (\<Sum>u \<in> T - {t}. w ((f(t := x)) u))"
      using finT t by (simp add: sum.remove)
    also have "(\<Sum>u \<in> T - {t}. w ((f(t := x)) u)) = (\<Sum>u \<in> T - {t}. w (f u))"
      by (intro sum.cong) auto
    finally show ?thesis .
  qed
  ultimately show ?thesis by simp
qed

lemma finite_fun_upd:
  "finite {u. f u \<noteq> z} \<Longrightarrow> finite {u. (f(t := x)) u \<noteq> z}"
  by (rule finite_subset [of _ "insert t {u. f u \<noteq> z}"]) auto

lemma total_pos: "finite {u. w (f u) \<noteq> 0} \<Longrightarrow> 0 < total_weight w f \<Longrightarrow> \<exists>u. 0 < w (f u)"
  by (auto simp: total_weight_def intro: ccontr)

end
