(* ===== verification/Fifo.thy ===== *)
theory Fifo
  imports Prelude
begin

text \<open>
  The contract every queue of the repository promises, as an abstract queue and a locale.

  \<^item> \<open>aq_enq\<close> and \<open>aq_deq\<close> are the specification: a list with an optional bound. They model
    no code; the ring buffer, the message queue and the thread-safe queue refine them.
  \<^item> \<open>run_queue\<close> runs a sequence of operations against any pair of operations and collects
    the answers; \<open>accepted\<close> and \<open>delivered\<close> read the values out of the answers.
  \<^item> The locale \<open>fifo\<close> states what a provider owes (one law per operation) and derives, once,
    that every run is answered as by the abstract queue and that values come out in the order
    they were accepted, none lost and none duplicated.
\<close>

datatype 'a qop = Enq 'a | Deq

datatype 'a qanswer = Accepted 'a | Rejected 'a | Got 'a | Nothing

fun fits :: "nat option \<Rightarrow> nat \<Rightarrow> bool" where
  "fits None n = True"
| "fits (Some b) n = (n < b)"

definition aq_enq :: "nat option \<Rightarrow> 'a \<Rightarrow> 'a list \<Rightarrow> bool \<times> 'a list" where
  "aq_enq b x xs = (if fits b (length xs) then (True, xs @ [x]) else (False, xs))"

fun aq_deq :: "'a list \<Rightarrow> 'a option \<times> 'a list" where
  "aq_deq [] = (None, [])"
| "aq_deq (x # xs) = (Some x, xs)"

fun run_queue ::
  "('a \<Rightarrow> 'q \<Rightarrow> bool \<times> 'q) \<Rightarrow> ('q \<Rightarrow> 'a option \<times> 'q) \<Rightarrow> 'a qop list \<Rightarrow> 'q \<Rightarrow> 'a qanswer list \<times> 'q"
where
  "run_queue enq deq [] q = ([], q)"
| "run_queue enq deq (Enq x # ops) q =
     (let (ok, q1) = enq x q; (as, q2) = run_queue enq deq ops q1
      in ((if ok then Accepted x else Rejected x) # as, q2))"
| "run_queue enq deq (Deq # ops) q =
     (let (r, q1) = deq q; (as, q2) = run_queue enq deq ops q1
      in ((case r of None \<Rightarrow> Nothing | Some x \<Rightarrow> Got x) # as, q2))"

fun accepted :: "'a qanswer list \<Rightarrow> 'a list" where
  "accepted [] = []"
| "accepted (Accepted x # as) = x # accepted as"
| "accepted (_ # as) = accepted as"

fun delivered :: "'a qanswer list \<Rightarrow> 'a list" where
  "delivered [] = []"
| "delivered (Got x # as) = x # delivered as"
| "delivered (_ # as) = delivered as"

subsection \<open>The abstract queue\<close>

lemma aq_deq_fst: "fst (aq_deq xs) = (case xs of [] \<Rightarrow> None | x # _ \<Rightarrow> Some x)"
  by (cases xs) simp_all

lemma aq_deq_snd: "snd (aq_deq xs) = tl xs"
  by (cases xs) simp_all

lemma aq_enq_bounded:
  "length xs \<le> n \<Longrightarrow> aq_enq (Some n) x xs = (ok, ys) \<Longrightarrow> length ys \<le> n"
  by (auto simp: aq_enq_def split: if_splits)

lemma aq_deq_bounded: "length xs \<le> n \<Longrightarrow> aq_deq xs = (r, ys) \<Longrightarrow> length ys \<le> n"
  by (cases xs) auto

text \<open>A run decomposes at its first operation.\<close>

lemma run_queue_EnqE:
  assumes "run_queue enq deq (Enq x # ops) q = (as, q2)"
  obtains ok q1 as' where "enq x q = (ok, q1)" "run_queue enq deq ops q1 = (as', q2)"
    "as = (if ok then Accepted x else Rejected x) # as'"
  using assms by (auto split: prod.splits)

lemma run_queue_DeqE:
  assumes "run_queue enq deq (Deq # ops) q = (as, q2)"
  obtains r q1 as' where "deq q = (r, q1)" "run_queue enq deq ops q1 = (as', q2)"
    "as = (case r of None \<Rightarrow> Nothing | Some x \<Rightarrow> Got x) # as'"
  using assms by (auto split: prod.splits)

lemma abstract_conservation:
  "run_queue (aq_enq b) aq_deq ops xs = (as, ys) \<Longrightarrow> xs @ accepted as = delivered as @ ys"
proof (induction ops arbitrary: xs as ys)
  case (Cons op ops)
  show ?case
  proof (cases op)
    case (Enq x)
    from Cons.prems [unfolded Enq] show ?thesis
    proof (rule run_queue_EnqE)
      fix ok q1 as'
      assume enq: "aq_enq b x xs = (ok, q1)"
        and run: "run_queue (aq_enq b) aq_deq ops q1 = (as', ys)"
        and as: "as = (if ok then Accepted x else Rejected x) # as'"
      from enq have "q1 = xs @ (if ok then [x] else [])" by (auto simp: aq_enq_def split: if_splits)
      with Cons.IH [OF run] as show ?thesis by (cases ok) simp_all
    qed
  next
    case Deq
    from Cons.prems [unfolded Deq] show ?thesis
    proof (rule run_queue_DeqE)
      fix r q1 as'
      assume "aq_deq xs = (r, q1)" and run: "run_queue (aq_enq b) aq_deq ops q1 = (as', ys)"
        and "as = (case r of None \<Rightarrow> Nothing | Some x \<Rightarrow> Got x) # as'"
      then show ?thesis
        using Cons.IH [OF run] by (cases xs) auto
    qed
  qed
qed simp

lemma abstract_bounded:
  "length xs \<le> n \<Longrightarrow> run_queue (aq_enq (Some n)) aq_deq ops xs = (as, ys) \<Longrightarrow> length ys \<le> n"
proof (induction ops arbitrary: xs as)
  case (Cons op ops)
  show ?case
  proof (cases op)
    case (Enq x)
    from Cons.prems(2) [unfolded Enq] show ?thesis
    proof (rule run_queue_EnqE)
      fix ok q1 as'
      assume "aq_enq (Some n) x xs = (ok, q1)"
        and run: "run_queue (aq_enq (Some n)) aq_deq ops q1 = (as', ys)"
      from aq_enq_bounded [OF Cons.prems(1) this(1)] run show ?thesis by (rule Cons.IH)
    qed
  next
    case Deq
    from Cons.prems(2) [unfolded Deq] show ?thesis
    proof (rule run_queue_DeqE)
      fix r q1 as'
      assume "aq_deq xs = (r, q1)"
        and run: "run_queue (aq_enq (Some n)) aq_deq ops q1 = (as', ys)"
      from aq_deq_bounded [OF Cons.prems(1) this(1)] run show ?thesis by (rule Cons.IH)
    qed
  qed
qed simp

subsection \<open>The interface\<close>

locale fifo =
  fixes enq :: "'a \<Rightarrow> 'q \<Rightarrow> bool \<times> 'q"
    and deq :: "'q \<Rightarrow> 'a option \<times> 'q"
    and contents :: "'q \<Rightarrow> 'a list"
    and inv :: "'q \<Rightarrow> bool"
    and bound :: "'q \<Rightarrow> nat option"
  assumes enq_refines: "inv q \<Longrightarrow> enq x q = (ok, q') \<Longrightarrow>
      inv q' \<and> bound q' = bound q \<and> aq_enq (bound q) x (contents q) = (ok, contents q')"
    and deq_refines: "inv q \<Longrightarrow> deq q = (r, q') \<Longrightarrow>
      inv q' \<and> bound q' = bound q \<and> aq_deq (contents q) = (r, contents q')"
begin

lemma run_refines:
  "inv q \<Longrightarrow> run_queue enq deq ops q = (as, q') \<Longrightarrow>
     inv q' \<and> bound q' = bound q \<and>
     run_queue (aq_enq (bound q)) aq_deq ops (contents q) = (as, contents q')"
proof (induction ops arbitrary: q as)
  case (Cons op ops)
  show ?case
  proof (cases op)
    case (Enq x)
    from Cons.prems(2) [unfolded Enq] show ?thesis
    proof (rule run_queue_EnqE)
      fix ok q1 as'
      assume step: "enq x q = (ok, q1)" "run_queue enq deq ops q1 = (as', q')"
        and as: "as = (if ok then Accepted x else Rejected x) # as'"
      with Cons.IH [OF _ step(2)] enq_refines [OF Cons.prems(1) step(1)] show ?thesis
        by (simp add: Enq)
    qed
  next
    case Deq
    from Cons.prems(2) [unfolded Deq] show ?thesis
    proof (rule run_queue_DeqE)
      fix r q1 as'
      assume step: "deq q = (r, q1)" "run_queue enq deq ops q1 = (as', q')"
        and as: "as = (case r of None \<Rightarrow> Nothing | Some x \<Rightarrow> Got x) # as'"
      with Cons.IH [OF _ step(2)] deq_refines [OF Cons.prems(1) step(1)] show ?thesis
        by (simp add: Deq)
    qed
  qed
qed simp

lemma conservation:
  assumes "inv q" and "run_queue enq deq ops q = (as, q')"
  shows "contents q @ accepted as = delivered as @ contents q'"
  using run_refines [OF assms] by (auto intro: abstract_conservation)

lemma stays_bounded:
  assumes "inv q" and "bound q = Some n" and "length (contents q) \<le> n"
    and "run_queue enq deq ops q = (as, q')"
  shows "length (contents q') \<le> n"
  using run_refines [OF assms(1,4)] assms(2,3) by (auto dest: abstract_bounded)

lemma unbounded_accepts:
  assumes "inv q" and "bound q = None"
  shows "fst (enq x q)"
  using enq_refines [OF assms(1), of x "fst (enq x q)" "snd (enq x q)"] assms(2)
  by (auto simp: aq_enq_def)

end

end
