(* ===== verification/RingBuffer.thy ===== *)
theory RingBuffer
  imports Fifo
begin

text \<open>
  \<open>SpScRingBuffer<T>\<close> of \<open>src/include/threading/spScRingBuffer.hpp\<close>, one operation at a
  time. The record has the data members of the class (the mutex and the condition variable
  are in \<open>CondVar\<close>); each operation returns the answer of the C++ method and the new object,
  or a fault where C++ would have undefined behaviour or throw. What two threads do to the
  same buffer is in \<open>RingConcurrent\<close>.

  The abstraction \<open>rb_list\<close> reads the stored elements from the tail to the head; the
  interpretation \<open>ring\<close> of \<open>fifo\<close> shows that the buffer is a queue bounded by
  \<open>capacity - 1\<close>.
\<close>

record 'a SpScRingBuffer =
  m_buffer :: "'a list"
  m_capacity :: u64
  m_mask :: u64
  m_head :: u64
  m_tail :: u64
  m_initialized :: bool

datatype rb_fault = AllocationFailure | IndexOutOfRange

definition rb_new :: "'a SpScRingBuffer" where
  "rb_new = \<lparr>m_buffer = [], m_capacity = 0, m_mask = 0, m_head = 0, m_tail = 0,
             m_initialized = False\<rparr>"

definition rb_init ::
  "(nat \<Rightarrow> bool) \<Rightarrow> 'a \<Rightarrow> u64 \<Rightarrow> 'a SpScRingBuffer \<Rightarrow> rb_fault + (bool \<times> 'a SpScRingBuffer)"
where
  "rb_init alloc_ok dflt cap rb =
     (if cap = 0 then Inr (False, rb)
      else if cap AND (cap - 1) \<noteq> 0 then Inr (False, rb)
      else (case vector_resize alloc_ok dflt (unat cap) (m_buffer rb) of
              None \<Rightarrow> Inl AllocationFailure
            | Some buf \<Rightarrow>
                Inr (True, rb\<lparr>m_buffer := buf, m_capacity := cap, m_mask := cap - 1,
                              m_head := 0, m_tail := 0, m_initialized := True\<rparr>)))"

definition rb_push :: "'a \<Rightarrow> 'a SpScRingBuffer \<Rightarrow> rb_fault + (bool \<times> 'a SpScRingBuffer)" where
  "rb_push value rb =
     (if \<not> m_initialized rb then Inr (False, rb)
      else
        let head = m_head rb;
            next = (head + 1) AND m_mask rb
        in if next = m_tail rb then Inr (False, rb)
           else (case vec_set (m_buffer rb) (unat head) value of
                   None \<Rightarrow> Inl IndexOutOfRange
                 | Some buf \<Rightarrow> Inr (True, rb\<lparr>m_buffer := buf, m_head := next\<rparr>)))"

definition rb_pop :: "'a SpScRingBuffer \<Rightarrow> rb_fault + ('a option \<times> 'a SpScRingBuffer)" where
  "rb_pop rb =
     (if \<not> m_initialized rb then Inr (None, rb)
      else
        let tail = m_tail rb
        in if tail = m_head rb then Inr (None, rb)
           else (case vec_get (m_buffer rb) (unat tail) of
                   None \<Rightarrow> Inl IndexOutOfRange
                 | Some out \<Rightarrow>
                     let next = (tail + 1) AND m_mask rb
                     in Inr (Some out, rb\<lparr>m_tail := next\<rparr>)))"

definition rb_empty :: "'a SpScRingBuffer \<Rightarrow> bool" where
  "rb_empty rb = (if \<not> m_initialized rb then True else m_tail rb = m_head rb)"

definition rb_full :: "'a SpScRingBuffer \<Rightarrow> bool" where
  "rb_full rb =
     (if \<not> m_initialized rb then False
      else let head = m_head rb; next = (head + 1) AND m_mask rb in next = m_tail rb)"

definition rb_capacity :: "'a SpScRingBuffer \<Rightarrow> u64" where
  "rb_capacity rb = m_capacity rb"

subsection \<open>Abstraction and invariant\<close>

text \<open>
  The stored elements are a window of the vector: \<open>window buf c t n\<close> has \<open>n\<close> elements from
  index \<open>t\<close> on, wrapping at \<open>c\<close>, and \<open>distance c t h\<close> is the number of steps from \<open>t\<close> up to \<open>h\<close>.
\<close>

definition window :: "'a list \<Rightarrow> nat \<Rightarrow> nat \<Rightarrow> nat \<Rightarrow> 'a list" where
  "window buf c t n = map (\<lambda>i. buf ! ((t + i) mod c)) [0..<n]"

definition distance :: "nat \<Rightarrow> nat \<Rightarrow> nat \<Rightarrow> nat" where
  "distance c t h = (h + c - t) mod c"

definition rb_list :: "'a SpScRingBuffer \<Rightarrow> 'a list" where
  "rb_list rb =
     (if m_initialized rb
      then window (m_buffer rb) (unat (m_capacity rb)) (unat (m_tail rb))
             (distance (unat (m_capacity rb)) (unat (m_tail rb)) (unat (m_head rb)))
      else [])"

definition rb_bound :: "'a SpScRingBuffer \<Rightarrow> nat option" where
  "rb_bound rb = Some (if m_initialized rb then unat (m_capacity rb) - 1 else 0)"

definition rb_inv :: "'a SpScRingBuffer \<Rightarrow> bool" where
  "rb_inv rb \<longleftrightarrow>
     (m_initialized rb \<longrightarrow>
        m_capacity rb \<noteq> 0 \<and> m_capacity rb AND (m_capacity rb - 1) = 0 \<and>
        m_mask rb = m_capacity rb - 1 \<and>
        length (m_buffer rb) = unat (m_capacity rb) \<and>
        unat (m_head rb) < unat (m_capacity rb) \<and>
        unat (m_tail rb) < unat (m_capacity rb)) \<and>
     (\<not> m_initialized rb \<longrightarrow> m_capacity rb = 0)"

text \<open>The two operations in the shape of the interface: a fault counts as no answer.\<close>

definition rb_enq :: "'a \<Rightarrow> 'a SpScRingBuffer \<Rightarrow> bool \<times> 'a SpScRingBuffer" where
  "rb_enq x rb = (case rb_push x rb of Inl _ \<Rightarrow> (False, rb) | Inr r \<Rightarrow> r)"

definition rb_deq :: "'a SpScRingBuffer \<Rightarrow> 'a option \<times> 'a SpScRingBuffer" where
  "rb_deq rb = (case rb_pop rb of Inl _ \<Rightarrow> (None, rb) | Inr r \<Rightarrow> r)"

subsection \<open>Index arithmetic\<close>

lemma length_window [simp]: "length (window buf c t n) = n"
  by (simp add: window_def)

lemma window_0 [simp]: "window buf c t 0 = []"
  by (simp add: window_def)

lemma window_Cons:
  "window buf c t (Suc n) = buf ! (t mod c) # window buf c (Suc t mod c) n"
  by (simp add: window_def upt_conv_Cons map_Suc_upt [symmetric] mod_simps del: upt_Suc)

lemma window_snoc:
  assumes "length buf = c" and "t < c" and "n < c" and "h = (t + n) mod c"
  shows "window (buf[h := x]) c t (Suc n) = window buf c t n @ [x]"
proof -
  have c: "0 < c" using assms(2) by simp
  have "h \<noteq> (t + i) mod c" if "i < n" for i
  proof
    assume "h = (t + i) mod c"
    then have "(t + i) mod c = (t + n) mod c" using assms(4) by simp
    moreover have "t + i \<le> t + n" and "t + n < t + i + c" using assms(3) that by simp_all
    ultimately have "t + i = t + n" by (rule mod_eq_close)
    with that show False by simp
  qed
  then have "window (buf[h := x]) c t n = window buf c t n"
    by (auto simp: window_def)
  moreover have "h < length buf" using assms(1,4) c by simp
  ultimately show ?thesis using assms(4) by (simp add: window_def)
qed

lemma distance_less: "0 < c \<Longrightarrow> distance c t h < c"
  by (simp add: distance_def)

lemma distance_head: "t < c \<Longrightarrow> h < c \<Longrightarrow> (t + distance c t h) mod c = h"
  by (simp add: distance_def mod_simps)

lemma distance_unique:
  assumes "t < c" and "d < c"
  shows "distance c t ((t + d) mod c) = d"
proof -
  let ?e = "distance c t ((t + d) mod c)"
  have e: "?e < c" using assms by (simp add: distance_less)
  have eq: "(t + ?e) mod c = (t + d) mod c" using assms by (intro distance_head) simp_all
  have "t + ?e = t + d"
  proof (cases "?e \<le> d")
    case True
    then have "t + ?e \<le> t + d" and "t + d < t + ?e + c" using assms(2) by linarith+
    then show ?thesis by (rule mod_eq_close [OF eq])
  next
    case False
    then have "t + d \<le> t + ?e" and "t + ?e < t + d + c" using e by linarith+
    then show ?thesis by (rule mod_eq_close [OF eq [symmetric], symmetric])
  qed
  then show ?thesis by simp
qed

lemma distance_0_iff: "t < c \<Longrightarrow> h < c \<Longrightarrow> distance c t h = 0 \<longleftrightarrow> t = h"
  by (metis add.right_neutral add_diff_cancel_left' distance_def distance_head mod_less mod_self)

lemma distance_Suc_head:
  assumes "t < c" and "h < c" and "Suc h mod c \<noteq> t"
  shows "distance c t (Suc h mod c) = Suc (distance c t h)"
proof (cases "Suc h < c")
  case True
  with assms show ?thesis by (auto simp: distance_def mod_if)
next
  case False
  with assms have "Suc h = c" by simp
  with assms show ?thesis by (auto simp: distance_def mod_if)
qed

lemma distance_full_iff:
  assumes "t < c" and "h < c"
  shows "Suc h mod c = t \<longleftrightarrow> distance c t h = c - 1"
  using assms by (auto simp: distance_def mod_if split: if_splits)

lemma distance_Suc_tail:
  assumes "t < c" and "h < c" and "t \<noteq> h"
  shows "Suc (distance c (Suc t mod c) h) = distance c t h"
  using assms by (auto simp: distance_def mod_if split: if_splits)

subsection \<open>Each operation refines the abstract queue\<close>

lemma rb_inv_initializedE:
  assumes "rb_inv rb" and "m_initialized rb"
  obtains k where "unat (m_capacity rb) = 2 ^ k" "m_mask rb = m_capacity rb - 1"
    "length (m_buffer rb) = unat (m_capacity rb)"
    "unat (m_head rb) < unat (m_capacity rb)" "unat (m_tail rb) < unat (m_capacity rb)"
  using assms word_pow2_iff [of "m_capacity rb"] unfolding rb_inv_def by blast

lemma rb_inv_new: "rb_inv rb_new"
  by (simp add: rb_inv_def rb_new_def)

lemma rb_next_index:
  assumes "rb_inv rb" and "m_initialized rb" and "unat i < unat (m_capacity rb)"
  shows "unat ((i + 1) AND m_mask rb) = Suc (unat i) mod unat (m_capacity rb)"
  using assms(1,2) by (rule rb_inv_initializedE) (metis unat_incr_and_mask assms(3))

lemma rb_full_iff:
  assumes "rb_inv rb" and "m_initialized rb"
  shows "(m_head rb + 1) AND m_mask rb = m_tail rb \<longleftrightarrow>
    length (rb_list rb) = unat (m_capacity rb) - 1"
  using assms(1,2)
proof (rule rb_inv_initializedE)
  assume h: "unat (m_head rb) < unat (m_capacity rb)" and t: "unat (m_tail rb) < unat (m_capacity rb)"
  have "(m_head rb + 1) AND m_mask rb = m_tail rb \<longleftrightarrow>
    Suc (unat (m_head rb)) mod unat (m_capacity rb) = unat (m_tail rb)"
    using rb_next_index [OF assms h] by (metis unsigned_word_eqI)
  with distance_full_iff [OF t h] assms(2) show ?thesis by (simp add: rb_list_def)
qed

lemma rb_empty_iff:
  assumes "rb_inv rb"
  shows "rb_empty rb \<longleftrightarrow> rb_list rb = []"
proof (cases "m_initialized rb")
  case True
  from assms True show ?thesis
  proof (rule rb_inv_initializedE)
    assume h: "unat (m_head rb) < unat (m_capacity rb)" and t: "unat (m_tail rb) < unat (m_capacity rb)"
    have "rb_list rb = [] \<longleftrightarrow> length (rb_list rb) = 0" by simp
    also have "\<dots> \<longleftrightarrow> unat (m_tail rb) = unat (m_head rb)"
      using True distance_0_iff [OF t h] by (simp add: rb_list_def)
    finally show ?thesis using True by (simp add: rb_empty_def word_unat_eq_iff)
  qed
qed (simp add: rb_empty_def rb_list_def)

lemma rb_list_bounded:
  assumes "rb_inv rb" and "rb_bound rb = Some n"
  shows "length (rb_list rb) \<le> n"
proof (cases "m_initialized rb")
  case True
  with assms(1) have "0 < unat (m_capacity rb)" by (simp add: rb_inv_def unat_gt_0)
  from distance_less [OF this, of "unat (m_tail rb)" "unat (m_head rb)"] True assms(2)
  show ?thesis by (auto simp: rb_bound_def rb_list_def)
qed (simp add: rb_list_def)

lemma rb_push_correct:
  assumes inv: "rb_inv rb"
  obtains ok rb' where "rb_push x rb = Inr (ok, rb')" and "rb_inv rb'"
    and "rb_bound rb' = rb_bound rb"
    and "aq_enq (rb_bound rb) x (rb_list rb) = (ok, rb_list rb')"
proof (cases "m_initialized rb")
  case False
  then show ?thesis
    using that [of False rb] inv by (simp add: rb_push_def rb_bound_def aq_enq_def)
next
  case init: True
  from inv init obtain k where cap: "unat (m_capacity rb) = 2 ^ k"
    and len: "length (m_buffer rb) = unat (m_capacity rb)"
    and h: "unat (m_head rb) < unat (m_capacity rb)" and t: "unat (m_tail rb) < unat (m_capacity rb)"
    by (rule rb_inv_initializedE)
  let ?c = "unat (m_capacity rb)" and ?h = "unat (m_head rb)" and ?t = "unat (m_tail rb)"
  let ?next = "(m_head rb + 1) AND m_mask rb"
  have nxt: "unat ?next = Suc ?h mod ?c" using rb_next_index [OF inv init h] .
  show ?thesis
  proof (cases "?next = m_tail rb")
    case True
    with init show ?thesis
      using that [of False rb] inv rb_full_iff [OF inv init]
      by (simp add: rb_push_def Let_def rb_bound_def aq_enq_def)
  next
    case False
    let ?rb = "rb\<lparr>m_buffer := (m_buffer rb)[?h := x], m_head := ?next\<rparr>"
    have push: "rb_push x rb = Inr (True, ?rb)"
      using init False len h by (simp add: rb_push_def Let_def)
    have "Suc ?h mod ?c < ?c" using h by (simp add: mod_less_divisor)
    then have inv': "rb_inv ?rb"
      using inv init nxt by (simp add: rb_inv_def)
    have ne: "Suc ?h mod ?c \<noteq> ?t" using False nxt by (metis unsigned_word_eqI)
    have "distance ?c ?t ?h < ?c" using h by (simp add: distance_less)
    from window_snoc [OF len t this distance_head [OF t h, symmetric]]
    have list': "rb_list ?rb = rb_list rb @ [x]"
      using init nxt distance_Suc_head [OF t h ne] by (simp add: rb_list_def)
    have "length (rb_list rb) \<noteq> ?c - 1" using rb_full_iff [OF inv init] False by simp
    moreover have "length (rb_list rb) \<le> ?c - 1"
      using rb_list_bounded [OF inv] init by (simp add: rb_bound_def)
    ultimately have "length (rb_list rb) < ?c - 1" by simp
    with list' init have "aq_enq (rb_bound rb) x (rb_list rb) = (True, rb_list ?rb)"
      by (simp add: aq_enq_def rb_bound_def)
    then show ?thesis using push inv' by (intro that) (simp_all add: rb_bound_def)
  qed
qed

lemma rb_pop_correct:
  assumes inv: "rb_inv rb"
  obtains r rb' where "rb_pop rb = Inr (r, rb')" and "rb_inv rb'"
    and "rb_bound rb' = rb_bound rb" and "aq_deq (rb_list rb) = (r, rb_list rb')"
proof (cases "m_initialized rb")
  case False
  then show ?thesis using that [of None rb] inv by (simp add: rb_pop_def rb_list_def)
next
  case init: True
  from inv init obtain k where cap: "unat (m_capacity rb) = 2 ^ k"
    and len: "length (m_buffer rb) = unat (m_capacity rb)"
    and h: "unat (m_head rb) < unat (m_capacity rb)" and t: "unat (m_tail rb) < unat (m_capacity rb)"
    by (rule rb_inv_initializedE)
  let ?c = "unat (m_capacity rb)" and ?h = "unat (m_head rb)" and ?t = "unat (m_tail rb)"
  let ?next = "(m_tail rb + 1) AND m_mask rb"
  have nxt: "unat ?next = Suc ?t mod ?c" using rb_next_index [OF inv init t] .
  show ?thesis
  proof (cases "m_tail rb = m_head rb")
    case True
    with init have "rb_list rb = []" using rb_empty_iff [OF inv] by (simp add: rb_empty_def)
    with init True show ?thesis using that [of None rb] inv by (simp add: rb_pop_def Let_def)
  next
    case False
    let ?rb = "rb\<lparr>m_tail := ?next\<rparr>"
    have pop: "rb_pop rb = Inr (Some (m_buffer rb ! ?t), ?rb)"
      using init False len t by (simp add: rb_pop_def Let_def)
    have "Suc ?t mod ?c < ?c" using t by (simp add: mod_less_divisor)
    then have inv': "rb_inv ?rb" using inv init nxt by (simp add: rb_inv_def)
    have ne: "?t \<noteq> ?h" using False by (metis unsigned_word_eqI)
    from distance_Suc_tail [OF t h ne]
    have "rb_list rb = m_buffer rb ! ?t # rb_list ?rb"
      using init nxt t by (simp add: rb_list_def window_Cons flip: distance_Suc_tail [OF t h ne])
    then show ?thesis using pop inv' by (intro that) (simp_all add: rb_bound_def)
  qed
qed

text \<open>The ring buffer provides the queue interface, with bound \<open>capacity - 1\<close>.\<close>

lemma rb_push_enq: "rb_inv rb \<Longrightarrow> rb_push x rb = Inr (rb_enq x rb)"
  by (erule rb_push_correct [of _ x]) (simp add: rb_enq_def)

lemma rb_pop_deq: "rb_inv rb \<Longrightarrow> rb_pop rb = Inr (rb_deq rb)"
  by (erule rb_pop_correct) (simp add: rb_deq_def)

interpretation ring: fifo rb_enq rb_deq rb_list rb_inv rb_bound
proof unfold_locales
  show "rb_inv q' \<and> rb_bound q' = rb_bound q \<and> aq_enq (rb_bound q) x (rb_list q) = (ok, rb_list q')"
    if "rb_inv q" and "rb_enq x q = (ok, q')" for q x ok and q' :: "'b SpScRingBuffer"
    using that(1) by (rule rb_push_correct [of _ x]) (use that(2) in \<open>auto simp: rb_enq_def\<close>)
  show "rb_inv q' \<and> rb_bound q' = rb_bound q \<and> aq_deq (rb_list q) = (r, rb_list q')"
    if "rb_inv q" and "rb_deq q = (r, q')" for q r and q' :: "'b SpScRingBuffer"
    using that(1) by (rule rb_pop_correct) (use that(2) in \<open>auto simp: rb_deq_def\<close>)
qed

lemma rb_init_True:
  assumes "rb_init alloc_ok dflt cap rb = Inr (True, rb')"
  shows "rb_inv rb' \<and> m_initialized rb' \<and> m_capacity rb' = cap \<and> rb_list rb' = []"
  using assms vector_resize_length [of alloc_ok dflt "unat cap" "m_buffer rb"]
  by (auto simp: rb_init_def rb_inv_def rb_list_def distance_def unat_gt_0
      split: if_splits option.splits)

text \<open>A concrete buffer for the examples: two slots, so room for one element.\<close>

definition rb_two :: "nat SpScRingBuffer" where
  "rb_two = \<lparr>m_buffer = [0, 0], m_capacity = 2, m_mask = 1, m_head = 0, m_tail = 0,
     m_initialized = True\<rparr>"

lemma rb_init_two: "rb_init (\<lambda>_. True) 0 2 rb_new = Inr (True, rb_two)"
proof -
  have "replicate 2 (0 :: nat) = [0, 0]" by (simp add: numeral_2_eq_2)
  then show ?thesis by (simp add: rb_init_def vector_resize_def rb_new_def rb_two_def)
qed

subsection \<open>Properties\<close>

text \<open>
  Further property (bounds, initialisation): \<open>init\<close> returns true exactly for the powers of two;
  it then leaves an empty, well-formed buffer of that capacity whatever the object was
  before, and it leaves the object unchanged when it returns false.
\<close>

theorem rb_init_powers_of_two:
  assumes "rb_init alloc_ok dflt cap rb = Inr (b, rb')"
  shows "(b \<longleftrightarrow> (\<exists>k. unat cap = 2 ^ k)) \<and>
    (b \<longrightarrow> rb_inv rb' \<and> m_initialized rb' \<and> rb_capacity rb' = cap \<and> rb_list rb' = []) \<and>
    (\<not> b \<longrightarrow> rb' = rb)"
proof (intro conjI)
  show "b \<longleftrightarrow> (\<exists>k. unat cap = 2 ^ k)"
    using assms word_pow2_iff [of cap] by (auto simp: rb_init_def split: if_splits option.splits)
  show "b \<longrightarrow> rb_inv rb' \<and> m_initialized rb' \<and> rb_capacity rb' = cap \<and> rb_list rb' = []"
    using assms rb_init_True [of alloc_ok dflt cap rb rb'] by (cases b) (simp_all add: rb_capacity_def)
  show "\<not> b \<longrightarrow> rb' = rb"
    using assms by (auto simp: rb_init_def split: if_splits option.splits)
qed

theorem rb_init_powers_of_two_witness:
  "\<exists>rb'. rb_init (\<lambda>_. True) (0::nat) 8 rb_new = Inr (True, rb') \<and> rb_inv rb' \<and> rb_capacity rb' = 8"
proof -
  obtain rb' where "rb_init (\<lambda>_. True) (0::nat) 8 rb_new = Inr (True, rb')"
    by (simp add: rb_init_def vector_resize_def)
  with rb_init_powers_of_two [OF this] show ?thesis by simp
qed

text \<open>
  Further property (functional, bounds): on every well-formed buffer \<open>push\<close> touches no slot out of
  range, appends at the end exactly when fewer than \<open>capacity - 1\<close> elements are stored, and
  otherwise (buffer full or not initialised) returns false and changes nothing.
\<close>

theorem rb_push_functional:
  assumes "rb_inv rb"
  shows "\<exists>rb'. rb_inv rb' \<and>
    (if m_initialized rb \<and> length (rb_list rb) < unat (m_capacity rb) - 1
     then rb_push x rb = Inr (True, rb') \<and> rb_list rb' = rb_list rb @ [x]
     else rb_push x rb = Inr (False, rb') \<and> rb' = rb)"
proof -
  obtain ok rb' where push: "rb_push x rb = Inr (ok, rb')" and inv: "rb_inv rb'"
    and enq: "aq_enq (rb_bound rb) x (rb_list rb) = (ok, rb_list rb')"
    using assms by (rule rb_push_correct)
  from push have same: "\<not> ok \<Longrightarrow> rb' = rb"
    by (auto simp: rb_push_def Let_def split: if_splits option.splits)
  show ?thesis
  proof (cases "m_initialized rb \<and> length (rb_list rb) < unat (m_capacity rb) - 1")
    case True
    with enq have "ok" and "rb_list rb' = rb_list rb @ [x]" by (auto simp: aq_enq_def rb_bound_def)
    with True push inv show ?thesis by auto
  next
    case False
    with enq have "\<not> ok" by (auto simp: aq_enq_def rb_bound_def split: if_splits)
    with False push inv same show ?thesis by auto
  qed
qed

theorem rb_push_functional_witness:
  "\<exists>rb'. rb_push (7::nat) \<lparr>m_buffer = [0, 0], m_capacity = 2, m_mask = 1, m_head = 1, m_tail = 1,
     m_initialized = True\<rparr> = Inr (True, rb') \<and> rb_list rb' = [7]"
proof -
  let ?rb = "\<lparr>m_buffer = [0, 0 :: nat], m_capacity = 2, m_mask = 1, m_head = 1, m_tail = 1,
     m_initialized = True\<rparr>"
  have "rb_inv ?rb" by (simp add: rb_inv_def)
  moreover have "rb_list ?rb = []" by (simp add: rb_list_def distance_def)
  ultimately have "\<exists>rb'. rb_inv rb' \<and> rb_push 7 ?rb = Inr (True, rb') \<and> rb_list rb' = [7]"
    using rb_push_functional [of ?rb 7] by simp
  then show ?thesis by blast
qed

text \<open>
  Further property (functional, bounds): on every well-formed buffer \<open>pop\<close> touches no slot out of
  range and removes and returns the oldest element; on an empty or uninitialised buffer it
  returns false and changes nothing.
\<close>

theorem rb_pop_functional:
  assumes "rb_inv rb"
  shows "\<exists>rb'. rb_inv rb' \<and>
    (case rb_list rb of
       [] \<Rightarrow> rb_pop rb = Inr (None, rb') \<and> rb' = rb
     | x # xs \<Rightarrow> rb_pop rb = Inr (Some x, rb') \<and> rb_list rb' = xs)"
proof -
  obtain r rb' where pop: "rb_pop rb = Inr (r, rb')" and inv: "rb_inv rb'"
    and deq: "aq_deq (rb_list rb) = (r, rb_list rb')"
    using assms by (rule rb_pop_correct)
  from pop have "r = None \<Longrightarrow> rb' = rb"
    by (auto simp: rb_pop_def Let_def split: if_splits option.splits)
  with pop inv deq show ?thesis
    by (intro exI [of _ rb']) (cases "rb_list rb"; auto)
qed

theorem rb_pop_functional_witness:
  "\<exists>rb'. rb_pop \<lparr>m_buffer = [4, 5 :: nat], m_capacity = 2, m_mask = 1, m_head = 0, m_tail = 1,
     m_initialized = True\<rparr> = Inr (Some 5, rb') \<and> rb_list rb' = []"
proof -
  let ?rb = "\<lparr>m_buffer = [4, 5 :: nat], m_capacity = 2, m_mask = 1, m_head = 0, m_tail = 1,
     m_initialized = True\<rparr>"
  have "rb_inv ?rb" by (simp add: rb_inv_def)
  moreover have "rb_list ?rb = [5]" by (simp add: rb_list_def distance_def window_def)
  ultimately have "\<exists>rb'. rb_inv rb' \<and> rb_pop ?rb = Inr (Some 5, rb') \<and> rb_list rb' = []"
    using rb_pop_functional [of ?rb] by simp
  then show ?thesis by blast
qed

text \<open>
  Property C27 (refinement): after a successful \<open>init(cap)\<close>, any sequence of pushes and pops
  is answered exactly as by a queue bounded by \<open>cap - 1\<close>, and the elements come out in the
  order they were accepted, none lost and none duplicated.
\<close>

theorem rb_run_refines_bounded_queue:
  assumes "rb_init alloc_ok dflt cap rb0 = Inr (True, rb)"
    and "run_queue rb_enq rb_deq ops rb = (as, rb')"
  shows "run_queue (aq_enq (Some (unat cap - 1))) aq_deq ops [] = (as, rb_list rb') \<and>
    accepted as = delivered as @ rb_list rb'"
proof -
  from rb_init_True [OF assms(1)] have inv: "rb_inv rb" and "rb_bound rb = Some (unat cap - 1)"
    and "rb_list rb = []" by (simp_all add: rb_bound_def)
  with ring.run_refines [OF inv assms(2)] ring.conservation [OF inv assms(2)] show ?thesis by simp
qed

theorem rb_run_refines_bounded_queue_witness:
  "\<exists>rb as. run_queue rb_enq rb_deq [Enq 1, Enq 2, Deq, Enq 3] rb_two = (as, rb) \<and>
     as = [Accepted 1, Rejected 2, Got 1, Accepted 3] \<and> accepted as = delivered as @ rb_list rb"
proof -
  obtain as rb where run: "run_queue rb_enq rb_deq [Enq 1, Enq 2, Deq, Enq 3] rb_two = (as, rb)"
    by (cases "run_queue rb_enq rb_deq [Enq 1, Enq 2, Deq, Enq 3] rb_two") simp
  from rb_run_refines_bounded_queue [OF rb_init_two run] run show ?thesis
    by (auto simp: aq_enq_def)
qed

text \<open>
  Further property (bounds): a buffer never holds \<open>capacity()\<close> elements: \<open>full()\<close> answers true, and
  \<open>push\<close> is refused, as soon as \<open>capacity() - 1\<close> are stored; a buffer of capacity one stores
  nothing at all.
\<close>

theorem rb_capacity_is_never_reached:
  assumes "rb_inv rb" and "m_initialized rb"
  shows "length (rb_list rb) < unat (rb_capacity rb) \<and>
    (rb_full rb \<longleftrightarrow> Suc (length (rb_list rb)) = unat (rb_capacity rb)) \<and>
    (rb_full rb \<longrightarrow> rb_push x rb = Inr (False, rb))"
proof -
  from assms have "0 < unat (m_capacity rb)" by (simp add: rb_inv_def unat_gt_0)
  moreover have "length (rb_list rb) \<le> unat (m_capacity rb) - 1"
    using rb_list_bounded [OF assms(1)] assms(2) by (simp add: rb_bound_def)
  moreover have "rb_full rb \<longleftrightarrow> length (rb_list rb) = unat (m_capacity rb) - 1"
    using rb_full_iff [OF assms] assms(2) by (simp add: rb_full_def Let_def)
  moreover have "rb_full rb \<longrightarrow> rb_push x rb = Inr (False, rb)"
    using assms(2) by (simp add: rb_full_def rb_push_def Let_def)
  ultimately show ?thesis by (auto simp: rb_capacity_def)
qed

theorem rb_capacity_is_never_reached_witness:
  "rb_push (9 :: nat) \<lparr>m_buffer = [0], m_capacity = 1, m_mask = 0, m_head = 0, m_tail = 0,
     m_initialized = True\<rparr> =
   Inr (False, \<lparr>m_buffer = [0], m_capacity = 1, m_mask = 0, m_head = 0, m_tail = 0,
     m_initialized = True\<rparr>)"
proof -
  let ?rb = "\<lparr>m_buffer = [0 :: nat], m_capacity = 1, m_mask = 0, m_head = 0, m_tail = 0,
     m_initialized = True\<rparr>"
  have "rb_inv ?rb" and "m_initialized ?rb" by (simp_all add: rb_inv_def)
  from rb_capacity_is_never_reached [OF this, of 9] show ?thesis by (simp add: rb_full_def)
qed

end
