(* ===== verification/RingConcurrent.thy ===== *)
theory RingConcurrent
  imports RingBuffer
begin

text \<open>
  \<open>push\<close> and \<open>pop\<close> of \<open>SpScRingBuffer\<close> run by two threads at the same time. Each method is cut
  at its shared accesses, in program order: the relaxed load of the thread's own index, the
  acquire load of the other thread's index with the full or empty test, the plain access to
  the slot, the release store of the new index. A schedule is a list of actions of the
  producer and of the consumer in any order.

  Memory is the C++11 release/acquire model restricted to what this code uses:

  \<^item> each index has its modification order (\<open>head_hist\<close>, \<open>tail_hist\<close>, oldest store first);
  \<^item> a thread reads its own index at its newest store (coherence), and an acquire load of the
    other index may return any store that is not older than the one it read before
    (\<open>p_view\<close>, \<open>c_view\<close>): loads may be stale, as on real hardware;
  \<^item> reading from a store synchronises with the thread that made it, so a slot access is
    ordered before everything that follows an acquire of a later store. \<open>wr_epoch\<close> and
    \<open>rd_epoch\<close> record, per slot, how many release stores the thread had made at its last plain
    access; an access that is not ordered after the other thread's last access to the same slot
    is a data race. A race, like a slot index out of range, is undefined behaviour: it sets \<open>ub\<close>.

  \<open>pushed\<close> and \<open>popped\<close> are auxiliary: the values whose \<open>push\<close> or \<open>pop\<close> has taken effect.
\<close>

datatype 'a producer_pc =
    PIdle
  | PTest 'a u64 u64    \<comment> \<open>value, head, next: before the acquire load of the tail\<close>
  | PWrite 'a u64 u64   \<comment> \<open>before the write to the slot\<close>
  | PPublish 'a u64     \<comment> \<open>before the release store of the head\<close>

datatype 'a consumer_pc =
    CIdle
  | CTest u64           \<comment> \<open>tail: before the acquire load of the head\<close>
  | CRead u64           \<comment> \<open>before the read of the slot\<close>
  | CPublish 'a u64     \<comment> \<open>out, next: before the release store of the tail\<close>

record 'a ring_threads =
  slots :: "'a list"
  mask :: u64
  head_hist :: "u64 list"
  tail_hist :: "u64 list"
  p_view :: nat
  c_view :: nat
  p_pc :: "'a producer_pc"
  c_pc :: "'a consumer_pc"
  wr_epoch :: "nat option list"
  rd_epoch :: "nat option list"
  ub :: bool
  pushed :: "'a list"
  popped :: "'a list"

datatype 'a ring_action =
    ProducerCall 'a       \<comment> \<open>enter \<open>push(value)\<close>: load the own head\<close>
  | ProducerLoadTail nat  \<comment> \<open>acquire load of the tail at a position of its history\<close>
  | ProducerWrite
  | ProducerPublish
  | ConsumerCall          \<comment> \<open>enter \<open>pop(out)\<close>: load the own tail\<close>
  | ConsumerLoadHead nat  \<comment> \<open>acquire load of the head at a position of its history\<close>
  | ConsumerRead
  | ConsumerPublish
  | ConsumerPeek nat      \<comment> \<open>\<open>empty()\<close> called by the consumer\<close>

definition ring_start :: "'a SpScRingBuffer \<Rightarrow> 'a ring_threads" where
  "ring_start rb = \<lparr>slots = m_buffer rb, mask = m_mask rb,
     head_hist = [m_head rb], tail_hist = [m_tail rb], p_view = 0, c_view = 0,
     p_pc = PIdle, c_pc = CIdle,
     wr_epoch = replicate (length (m_buffer rb)) None,
     rd_epoch = replicate (length (m_buffer rb)) None,
     ub = False, pushed = [], popped = []\<rparr>"

text \<open>An epoch is ordered before the reader's view when a later release store was acquired.\<close>

definition ordered :: "nat option \<Rightarrow> nat \<Rightarrow> bool" where
  "ordered e view = (case e of None \<Rightarrow> True | Some n \<Rightarrow> n < view)"

definition push_step :: "'a ring_action \<Rightarrow> 'a ring_threads \<Rightarrow> 'a ring_threads option" where
  "push_step act s = (case (act, p_pc s) of
     (ProducerCall value, PIdle) \<Rightarrow>
       let head = last (head_hist s); next = (head + 1) AND mask s
       in Some (s\<lparr>p_pc := PTest value head next\<rparr>)
   | (ProducerLoadTail j, PTest value head next) \<Rightarrow>
       if p_view s \<le> j \<and> j < length (tail_hist s)
       then Some (s\<lparr>p_view := j,
                    p_pc := (if next = tail_hist s ! j then PIdle else PWrite value head next)\<rparr>)
       else None
   | (ProducerWrite, PWrite value head next) \<Rightarrow>
       (case vec_set (slots s) (unat head) value of
          None \<Rightarrow> Some (s\<lparr>ub := True, p_pc := PPublish value next\<rparr>)
        | Some buf \<Rightarrow>
            Some (s\<lparr>slots := buf,
                    ub := (ub s \<or> \<not> ordered (rd_epoch s ! unat head) (p_view s)),
                    wr_epoch := (wr_epoch s)[unat head := Some (length (head_hist s) - 1)],
                    p_pc := PPublish value next\<rparr>))
   | (ProducerPublish, PPublish value next) \<Rightarrow>
       Some (s\<lparr>head_hist := head_hist s @ [next], pushed := pushed s @ [value], p_pc := PIdle\<rparr>)
   | _ \<Rightarrow> None)"

definition pop_step :: "'a ring_action \<Rightarrow> 'a ring_threads \<Rightarrow> 'a ring_threads option" where
  "pop_step act s = (case (act, c_pc s) of
     (ConsumerCall, CIdle) \<Rightarrow> Some (s\<lparr>c_pc := CTest (last (tail_hist s))\<rparr>)
   | (ConsumerLoadHead j, CTest tail) \<Rightarrow>
       if c_view s \<le> j \<and> j < length (head_hist s)
       then Some (s\<lparr>c_view := j,
                    c_pc := (if tail = head_hist s ! j then CIdle else CRead tail)\<rparr>)
       else None
   | (ConsumerRead, CRead tail) \<Rightarrow>
       (case vec_get (slots s) (unat tail) of
          None \<Rightarrow> Some (s\<lparr>ub := True, c_pc := CIdle\<rparr>)
        | Some out \<Rightarrow>
            Some (s\<lparr>ub := (ub s \<or> \<not> ordered (wr_epoch s ! unat tail) (c_view s)),
                    rd_epoch := (rd_epoch s)[unat tail := Some (length (tail_hist s) - 1)],
                    c_pc := CPublish out ((tail + 1) AND mask s)\<rparr>))
   | (ConsumerPublish, CPublish out next) \<Rightarrow>
       Some (s\<lparr>tail_hist := tail_hist s @ [next], popped := popped s @ [out], c_pc := CIdle\<rparr>)
   | (ConsumerPeek j, CIdle) \<Rightarrow>
       if c_view s \<le> j \<and> j < length (head_hist s) then Some (s\<lparr>c_view := j\<rparr>) else None
   | _ \<Rightarrow> None)"

text \<open>An action belongs to one of the two threads; a schedule stops where an action cannot run.\<close>

fun is_producer :: "'a ring_action \<Rightarrow> bool" where
  "is_producer (ProducerCall _) = True"
| "is_producer (ProducerLoadTail _) = True"
| "is_producer ProducerWrite = True"
| "is_producer ProducerPublish = True"
| "is_producer _ = False"

definition ring_step :: "'a ring_action \<Rightarrow> 'a ring_threads \<Rightarrow> 'a ring_threads option" where
  "ring_step act s = (if is_producer act then push_step act s else pop_step act s)"

fun ring_exec :: "'a ring_action list \<Rightarrow> 'a ring_threads \<Rightarrow> 'a ring_threads option" where
  "ring_exec [] s = Some s"
| "ring_exec (act # acts) s =
     (case ring_step act s of None \<Rightarrow> None | Some s' \<Rightarrow> ring_exec acts s')"

subsection \<open>The invariant\<close>

text \<open>
  \<open>n_pushed\<close> and \<open>n_popped\<close> count the release stores of the two indices since the start.
  The invariant has one clause per concern; its core is \<open>inv_views\<close>: what a thread knows
  of the other one lags behind, and the lag never exceeds the free or the filled slots.
\<close>

definition n_pushed :: "'a ring_threads \<Rightarrow> nat" where
  "n_pushed s = length (head_hist s) - 1"

definition n_popped :: "'a ring_threads \<Rightarrow> nat" where
  "n_popped s = length (tail_hist s) - 1"

definition n_slots :: "'a ring_threads \<Rightarrow> nat" where
  "n_slots s = length (slots s)"

definition indices :: "nat \<Rightarrow> u64 list \<Rightarrow> bool" where
  "indices n hist \<longleftrightarrow> hist \<noteq> [] \<and> (\<forall>i < length hist. unat (hist ! i) = i mod n)"

definition inv_shape :: "'a ring_threads \<Rightarrow> bool" where
  "inv_shape s \<longleftrightarrow> mask s + 1 \<noteq> 0 \<and> (mask s + 1) AND mask s = 0 \<and>
     n_slots s = unat (mask s + 1) \<and>
     length (wr_epoch s) = n_slots s \<and> length (rd_epoch s) = n_slots s"

definition inv_hist :: "'a ring_threads \<Rightarrow> bool" where
  "inv_hist s \<longleftrightarrow> indices (n_slots s) (head_hist s) \<and> indices (n_slots s) (tail_hist s)"

definition inv_views :: "'a ring_threads \<Rightarrow> bool" where
  "inv_views s \<longleftrightarrow> p_view s \<le> n_popped s \<and> n_popped s \<le> c_view s \<and> c_view s \<le> n_pushed s \<and>
     n_pushed s < p_view s + n_slots s"

definition inv_data :: "'a ring_threads \<Rightarrow> bool" where
  "inv_data s \<longleftrightarrow> length (pushed s) = n_pushed s \<and> popped s = take (n_popped s) (pushed s) \<and>
     (\<forall>i. n_popped s \<le> i \<and> i < n_pushed s \<longrightarrow> slots s ! (i mod n_slots s) = pushed s ! i)"

definition inv_epochs :: "'a ring_threads \<Rightarrow> bool" where
  "inv_epochs s \<longleftrightarrow> (\<forall>i < n_slots s.
     (\<forall>e. rd_epoch s ! i = Some e \<longrightarrow> e mod n_slots s = i \<and> e < n_pushed s) \<and>
     (\<forall>e. wr_epoch s ! i = Some e \<longrightarrow> e mod n_slots s = i \<and> e \<le> n_pushed s))"

definition inv_producer :: "'a ring_threads \<Rightarrow> bool" where
  "inv_producer s \<longleftrightarrow> (case p_pc s of
     PIdle \<Rightarrow> True
   | PTest value head next \<Rightarrow> head = last (head_hist s) \<and> next = (head + 1) AND mask s
   | PWrite value head next \<Rightarrow> head = last (head_hist s) \<and> next = (head + 1) AND mask s \<and>
       Suc (n_pushed s) < p_view s + n_slots s
   | PPublish value next \<Rightarrow> next = (last (head_hist s) + 1) AND mask s \<and>
       Suc (n_pushed s) < p_view s + n_slots s \<and> slots s ! (n_pushed s mod n_slots s) = value)"

definition inv_consumer :: "'a ring_threads \<Rightarrow> bool" where
  "inv_consumer s \<longleftrightarrow> (case c_pc s of
     CIdle \<Rightarrow> True
   | CTest tail \<Rightarrow> tail = last (tail_hist s)
   | CRead tail \<Rightarrow> tail = last (tail_hist s) \<and> n_popped s < c_view s
   | CPublish out next \<Rightarrow> next = (last (tail_hist s) + 1) AND mask s \<and> n_popped s < c_view s \<and>
       out = pushed s ! n_popped s)"

definition threads_inv :: "'a ring_threads \<Rightarrow> bool" where
  "threads_inv s \<longleftrightarrow> \<not> ub s \<and> inv_shape s \<and> inv_hist s \<and> inv_views s \<and> inv_data s \<and>
     inv_epochs s \<and> inv_producer s \<and> inv_consumer s"

lemmas inv_clauses = threads_inv_def inv_shape_def inv_hist_def inv_views_def inv_data_def
  inv_epochs_def inv_producer_def inv_consumer_def n_pushed_def n_popped_def n_slots_def

subsection \<open>What a step does not touch\<close>

text \<open>Each counter and each clause ignores the fields it is not about.\<close>

lemma n_pushed_frame [simp]:
  "n_pushed (s\<lparr>p_pc := x_p_pc\<rparr>) = n_pushed s"
  "n_pushed (s\<lparr>c_pc := x_c_pc\<rparr>) = n_pushed s"
  "n_pushed (s\<lparr>p_view := x_p_view\<rparr>) = n_pushed s"
  "n_pushed (s\<lparr>c_view := x_c_view\<rparr>) = n_pushed s"
  "n_pushed (s\<lparr>ub := x_ub\<rparr>) = n_pushed s"
  "n_pushed (s\<lparr>wr_epoch := x_wr_epoch\<rparr>) = n_pushed s"
  "n_pushed (s\<lparr>rd_epoch := x_rd_epoch\<rparr>) = n_pushed s"
  "n_pushed (s\<lparr>pushed := x_pushed\<rparr>) = n_pushed s"
  "n_pushed (s\<lparr>popped := x_popped\<rparr>) = n_pushed s"
  "n_pushed (s\<lparr>tail_hist := x_tail_hist\<rparr>) = n_pushed s"
  "n_pushed (s\<lparr>slots := x_slots\<rparr>) = n_pushed s"
  by (simp_all add: n_pushed_def)

lemma n_popped_frame [simp]:
  "n_popped (s\<lparr>p_pc := x_p_pc\<rparr>) = n_popped s"
  "n_popped (s\<lparr>c_pc := x_c_pc\<rparr>) = n_popped s"
  "n_popped (s\<lparr>p_view := x_p_view\<rparr>) = n_popped s"
  "n_popped (s\<lparr>c_view := x_c_view\<rparr>) = n_popped s"
  "n_popped (s\<lparr>ub := x_ub\<rparr>) = n_popped s"
  "n_popped (s\<lparr>wr_epoch := x_wr_epoch\<rparr>) = n_popped s"
  "n_popped (s\<lparr>rd_epoch := x_rd_epoch\<rparr>) = n_popped s"
  "n_popped (s\<lparr>pushed := x_pushed\<rparr>) = n_popped s"
  "n_popped (s\<lparr>popped := x_popped\<rparr>) = n_popped s"
  "n_popped (s\<lparr>head_hist := x_head_hist\<rparr>) = n_popped s"
  "n_popped (s\<lparr>slots := x_slots\<rparr>) = n_popped s"
  by (simp_all add: n_popped_def)

lemma n_slots_frame [simp]:
  "n_slots (s\<lparr>p_pc := x_p_pc\<rparr>) = n_slots s"
  "n_slots (s\<lparr>c_pc := x_c_pc\<rparr>) = n_slots s"
  "n_slots (s\<lparr>p_view := x_p_view\<rparr>) = n_slots s"
  "n_slots (s\<lparr>c_view := x_c_view\<rparr>) = n_slots s"
  "n_slots (s\<lparr>ub := x_ub\<rparr>) = n_slots s"
  "n_slots (s\<lparr>wr_epoch := x_wr_epoch\<rparr>) = n_slots s"
  "n_slots (s\<lparr>rd_epoch := x_rd_epoch\<rparr>) = n_slots s"
  "n_slots (s\<lparr>pushed := x_pushed\<rparr>) = n_slots s"
  "n_slots (s\<lparr>popped := x_popped\<rparr>) = n_slots s"
  "n_slots (s\<lparr>head_hist := x_head_hist\<rparr>) = n_slots s"
  "n_slots (s\<lparr>tail_hist := x_tail_hist\<rparr>) = n_slots s"
  by (simp_all add: n_slots_def)

lemma inv_shape_frame [simp]:
  "inv_shape (s\<lparr>p_pc := x_p_pc\<rparr>) = inv_shape s"
  "inv_shape (s\<lparr>c_pc := x_c_pc\<rparr>) = inv_shape s"
  "inv_shape (s\<lparr>p_view := x_p_view\<rparr>) = inv_shape s"
  "inv_shape (s\<lparr>c_view := x_c_view\<rparr>) = inv_shape s"
  "inv_shape (s\<lparr>ub := x_ub\<rparr>) = inv_shape s"
  "inv_shape (s\<lparr>pushed := x_pushed\<rparr>) = inv_shape s"
  "inv_shape (s\<lparr>popped := x_popped\<rparr>) = inv_shape s"
  "inv_shape (s\<lparr>head_hist := x_head_hist\<rparr>) = inv_shape s"
  "inv_shape (s\<lparr>tail_hist := x_tail_hist\<rparr>) = inv_shape s"
  by (simp_all only: inv_shape_def) simp_all

lemma inv_hist_frame [simp]:
  "inv_hist (s\<lparr>p_pc := x_p_pc\<rparr>) = inv_hist s"
  "inv_hist (s\<lparr>c_pc := x_c_pc\<rparr>) = inv_hist s"
  "inv_hist (s\<lparr>p_view := x_p_view\<rparr>) = inv_hist s"
  "inv_hist (s\<lparr>c_view := x_c_view\<rparr>) = inv_hist s"
  "inv_hist (s\<lparr>ub := x_ub\<rparr>) = inv_hist s"
  "inv_hist (s\<lparr>pushed := x_pushed\<rparr>) = inv_hist s"
  "inv_hist (s\<lparr>popped := x_popped\<rparr>) = inv_hist s"
  "inv_hist (s\<lparr>wr_epoch := x_wr_epoch\<rparr>) = inv_hist s"
  "inv_hist (s\<lparr>rd_epoch := x_rd_epoch\<rparr>) = inv_hist s"
  by (simp_all only: inv_hist_def) simp_all

lemma inv_views_frame [simp]:
  "inv_views (s\<lparr>p_pc := x_p_pc\<rparr>) = inv_views s"
  "inv_views (s\<lparr>c_pc := x_c_pc\<rparr>) = inv_views s"
  "inv_views (s\<lparr>ub := x_ub\<rparr>) = inv_views s"
  "inv_views (s\<lparr>pushed := x_pushed\<rparr>) = inv_views s"
  "inv_views (s\<lparr>popped := x_popped\<rparr>) = inv_views s"
  "inv_views (s\<lparr>wr_epoch := x_wr_epoch\<rparr>) = inv_views s"
  "inv_views (s\<lparr>rd_epoch := x_rd_epoch\<rparr>) = inv_views s"
  by (simp_all only: inv_views_def) simp_all

lemma inv_data_frame [simp]:
  "inv_data (s\<lparr>p_pc := x_p_pc\<rparr>) = inv_data s"
  "inv_data (s\<lparr>c_pc := x_c_pc\<rparr>) = inv_data s"
  "inv_data (s\<lparr>p_view := x_p_view\<rparr>) = inv_data s"
  "inv_data (s\<lparr>c_view := x_c_view\<rparr>) = inv_data s"
  "inv_data (s\<lparr>ub := x_ub\<rparr>) = inv_data s"
  "inv_data (s\<lparr>wr_epoch := x_wr_epoch\<rparr>) = inv_data s"
  "inv_data (s\<lparr>rd_epoch := x_rd_epoch\<rparr>) = inv_data s"
  by (simp_all only: inv_data_def) simp_all

lemma inv_epochs_frame [simp]:
  "inv_epochs (s\<lparr>p_pc := x_p_pc\<rparr>) = inv_epochs s"
  "inv_epochs (s\<lparr>c_pc := x_c_pc\<rparr>) = inv_epochs s"
  "inv_epochs (s\<lparr>p_view := x_p_view\<rparr>) = inv_epochs s"
  "inv_epochs (s\<lparr>c_view := x_c_view\<rparr>) = inv_epochs s"
  "inv_epochs (s\<lparr>ub := x_ub\<rparr>) = inv_epochs s"
  "inv_epochs (s\<lparr>pushed := x_pushed\<rparr>) = inv_epochs s"
  "inv_epochs (s\<lparr>popped := x_popped\<rparr>) = inv_epochs s"
  "inv_epochs (s\<lparr>tail_hist := x_tail_hist\<rparr>) = inv_epochs s"
  by (simp_all only: inv_epochs_def) simp_all

lemma inv_producer_frame [simp]:
  "inv_producer (s\<lparr>c_pc := x_c_pc\<rparr>) = inv_producer s"
  "inv_producer (s\<lparr>c_view := x_c_view\<rparr>) = inv_producer s"
  "inv_producer (s\<lparr>ub := x_ub\<rparr>) = inv_producer s"
  "inv_producer (s\<lparr>pushed := x_pushed\<rparr>) = inv_producer s"
  "inv_producer (s\<lparr>popped := x_popped\<rparr>) = inv_producer s"
  "inv_producer (s\<lparr>wr_epoch := x_wr_epoch\<rparr>) = inv_producer s"
  "inv_producer (s\<lparr>rd_epoch := x_rd_epoch\<rparr>) = inv_producer s"
  "inv_producer (s\<lparr>tail_hist := x_tail_hist\<rparr>) = inv_producer s"
  by (simp_all only: inv_producer_def) (simp_all split: producer_pc.splits)

lemma inv_consumer_frame [simp]:
  "inv_consumer (s\<lparr>p_pc := x_p_pc\<rparr>) = inv_consumer s"
  "inv_consumer (s\<lparr>p_view := x_p_view\<rparr>) = inv_consumer s"
  "inv_consumer (s\<lparr>ub := x_ub\<rparr>) = inv_consumer s"
  "inv_consumer (s\<lparr>popped := x_popped\<rparr>) = inv_consumer s"
  "inv_consumer (s\<lparr>wr_epoch := x_wr_epoch\<rparr>) = inv_consumer s"
  "inv_consumer (s\<lparr>rd_epoch := x_rd_epoch\<rparr>) = inv_consumer s"
  "inv_consumer (s\<lparr>head_hist := x_head_hist\<rparr>) = inv_consumer s"
  "inv_consumer (s\<lparr>slots := x_slots\<rparr>) = inv_consumer s"
  by (simp_all only: inv_consumer_def) (simp_all split: consumer_pc.splits)

subsection \<open>Index histories\<close>

lemma indices_last: "indices n hist \<Longrightarrow> unat (last hist) = (length hist - 1) mod n"
  by (simp add: indices_def last_conv_nth)

lemma indices_nth: "indices n hist \<Longrightarrow> i < length hist \<Longrightarrow> unat (hist ! i) = i mod n"
  by (simp add: indices_def)

lemma indices_snoc: "indices n hist \<Longrightarrow> unat x = length hist mod n \<Longrightarrow> indices n (hist @ [x])"
  by (auto simp: indices_def nth_append less_Suc_eq)

lemma n_slots_pos: "inv_shape s \<Longrightarrow> 0 < n_slots s"
  by (simp add: inv_shape_def unat_gt_0)

lemma shape_next:
  assumes "inv_shape s" and "unat i < n_slots s"
  shows "unat ((i + 1) AND mask s) = Suc (unat i) mod n_slots s"
proof -
  from assms(1) obtain k where k: "unat (mask s + 1) = 2 ^ k"
    using word_pow2_iff [of "mask s + 1"] by (auto simp: inv_shape_def)
  with unat_incr_and_mask [OF k, of i] assms show ?thesis by (simp add: inv_shape_def)
qed

lemma next_of_last:
  assumes "inv_shape s" and "indices (n_slots s) hist"
  shows "unat ((last hist + 1) AND mask s) = length hist mod n_slots s"
proof -
  have last: "unat (last hist) = (length hist - 1) mod n_slots s"
    using assms(2) by (rule indices_last)
  then have "unat (last hist) < n_slots s" using n_slots_pos [OF assms(1)] by simp
  from shape_next [OF assms(1) this] last assms(2) show ?thesis
    by (simp add: mod_Suc_eq indices_def)
qed

lemma head_last: "inv_hist s \<Longrightarrow> unat (last (head_hist s)) = n_pushed s mod n_slots s"
  by (auto simp: inv_hist_def n_pushed_def dest: indices_last)

lemma tail_last: "inv_hist s \<Longrightarrow> unat (last (tail_hist s)) = n_popped s mod n_slots s"
  by (auto simp: inv_hist_def n_popped_def dest: indices_last)

lemma head_at: "inv_hist s \<Longrightarrow> j < length (head_hist s) \<Longrightarrow> unat (head_hist s ! j) = j mod n_slots s"
  by (simp add: inv_hist_def indices_nth)

lemma tail_at: "inv_hist s \<Longrightarrow> j < length (tail_hist s) \<Longrightarrow> unat (tail_hist s ! j) = j mod n_slots s"
  by (simp add: inv_hist_def indices_nth)

lemma hist_lengths:
  "inv_hist s \<Longrightarrow> length (head_hist s) = Suc (n_pushed s) \<and> length (tail_hist s) = Suc (n_popped s)"
  by (simp add: inv_hist_def indices_def n_pushed_def n_popped_def)

lemma head_next:
  "inv_shape s \<Longrightarrow> inv_hist s \<Longrightarrow>
     unat ((last (head_hist s) + 1) AND mask s) = Suc (n_pushed s) mod n_slots s"
  using hist_lengths [of s] by (simp add: inv_hist_def next_of_last)

lemma tail_next:
  "inv_shape s \<Longrightarrow> inv_hist s \<Longrightarrow>
     unat ((last (tail_hist s) + 1) AND mask s) = Suc (n_popped s) mod n_slots s"
  using hist_lengths [of s] by (simp add: inv_hist_def next_of_last)

lemma wr_epochD:
  "inv_epochs s \<Longrightarrow> i < n_slots s \<Longrightarrow> wr_epoch s ! i = Some e \<Longrightarrow>
     e mod n_slots s = i \<and> e \<le> n_pushed s"
  unfolding inv_epochs_def by blast

lemma rd_epochD:
  "inv_epochs s \<Longrightarrow> i < n_slots s \<Longrightarrow> rd_epoch s ! i = Some e \<Longrightarrow>
     e mod n_slots s = i \<and> e < n_pushed s"
  unfolding inv_epochs_def by blast

lemma inv_epochsI:
  assumes "\<And>i e. i < n_slots s \<Longrightarrow> rd_epoch s ! i = Some e \<Longrightarrow> e mod n_slots s = i \<and> e < n_pushed s"
    and "\<And>i e. i < n_slots s \<Longrightarrow> wr_epoch s ! i = Some e \<Longrightarrow> e mod n_slots s = i \<and> e \<le> n_pushed s"
  shows "inv_epochs s"
  using assms unfolding inv_epochs_def by blast

subsection \<open>Every step keeps the invariant\<close>

lemma threads_inv_start:
  assumes "rb_init alloc_ok dflt cap rb0 = Inr (True, rb)"
  shows "threads_inv (ring_start rb)"
proof -
  from assms have zero: "m_head rb = 0" "m_tail rb = 0"
    by (auto simp: rb_init_def split: if_splits option.splits)
  from rb_init_True [OF assms] have "rb_inv rb" and "m_initialized rb" by simp_all
  with zero show ?thesis
    by (simp add: inv_clauses indices_def ring_start_def rb_inv_def unat_gt_0)
qed

lemma inv_ProducerCall:
  "threads_inv s \<Longrightarrow> push_step (ProducerCall v) s = Some s' \<Longrightarrow> threads_inv s'"
  by (auto simp: push_step_def threads_inv_def inv_producer_def Let_def split: producer_pc.splits)

lemma inv_ConsumerCall:
  "threads_inv s \<Longrightarrow> pop_step ConsumerCall s = Some s' \<Longrightarrow> threads_inv s'"
  by (auto simp: pop_step_def threads_inv_def inv_consumer_def split: consumer_pc.splits)

lemma inv_views_c_view:
  assumes "inv_views s" and "indices n (head_hist s)" and "c_view s \<le> j" and "j < length (head_hist s)"
  shows "inv_views (s\<lparr>c_view := j\<rparr>)"
  using assms by (auto simp: inv_views_def n_pushed_def n_popped_def n_slots_def)

lemma inv_ConsumerPeek:
  "threads_inv s \<Longrightarrow> pop_step (ConsumerPeek j) s = Some s' \<Longrightarrow> threads_inv s'"
  by (auto simp: pop_step_def threads_inv_def inv_consumer_def inv_hist_def
      intro: inv_views_c_view split: consumer_pc.splits if_splits)

lemma inv_ProducerLoadTail:
  assumes inv: "threads_inv s" and step: "push_step (ProducerLoadTail j) s = Some s'"
  shows "threads_inv s'"
proof -
  from step obtain v head nxt where pc: "p_pc s = PTest v head nxt"
    and j: "p_view s \<le> j" "j < length (tail_hist s)"
    and s': "s' = s\<lparr>p_view := j,
      p_pc := (if nxt = tail_hist s ! j then PIdle else PWrite v head nxt)\<rparr>"
    by (auto simp: push_step_def split: producer_pc.splits if_splits)
  from inv have shape: "inv_shape s" and hist: "inv_hist s" and views: "inv_views s"
    and ppc: "inv_producer s" by (simp_all add: threads_inv_def)
  from ppc pc have h: "head = last (head_hist s)" and n: "nxt = (head + 1) AND mask s"
    by (simp_all add: inv_producer_def)
  have j_le: "j \<le> n_popped s" using j(2) by (simp add: n_popped_def)
  have views': "inv_views (s\<lparr>p_view := j\<rparr>)"
    using views j(1) j_le by (simp add: inv_views_def)
  have room: "Suc (n_pushed s) < j + n_slots s" if ne: "nxt \<noteq> tail_hist s ! j"
  proof (rule ccontr)
    assume "\<not> ?thesis"
    with views j(1) have eq: "Suc (n_pushed s) = j + n_slots s" by (simp add: inv_views_def)
    have "unat nxt = Suc (n_pushed s) mod n_slots s" using head_next [OF shape hist] n h by simp
    also have "\<dots> = unat (tail_hist s ! j)" using tail_at [OF hist j(2)] eq by simp
    finally have "nxt = tail_hist s ! j" by (rule unsigned_word_eqI)
    with ne show False ..
  qed
  show ?thesis
    using inv views' room h n unfolding s' by (simp add: threads_inv_def inv_producer_def inv_views_def)
qed

lemma inv_ConsumerLoadHead:
  assumes inv: "threads_inv s" and step: "pop_step (ConsumerLoadHead j) s = Some s'"
  shows "threads_inv s'"
proof -
  from step obtain tail where pc: "c_pc s = CTest tail"
    and j: "c_view s \<le> j" "j < length (head_hist s)"
    and s': "s' = s\<lparr>c_view := j, c_pc := (if tail = head_hist s ! j then CIdle else CRead tail)\<rparr>"
    by (auto simp: pop_step_def split: consumer_pc.splits if_splits)
  from inv have hist: "inv_hist s" and views: "inv_views s" and "inv_consumer s"
    by (simp_all add: threads_inv_def)
  with pc have t: "tail = last (tail_hist s)" by (simp add: inv_consumer_def)
  have views': "inv_views (s\<lparr>c_view := j\<rparr>)"
    using views j hist by (auto simp: inv_hist_def intro: inv_views_c_view)
  have filled: "n_popped s < j" if ne: "tail \<noteq> head_hist s ! j"
  proof (rule ccontr)
    assume "\<not> ?thesis"
    with views j(1) have "j = n_popped s" by (simp add: inv_views_def)
    then have "unat tail = unat (head_hist s ! j)"
      using head_at [OF hist j(2)] tail_last [OF hist] t by simp
    then have "tail = head_hist s ! j" by (rule unsigned_word_eqI)
    with ne show False ..
  qed
  show ?thesis
    using inv views' filled t unfolding s' by (simp add: threads_inv_def inv_consumer_def inv_views_def)
qed

lemma inv_ConsumerRead:
  assumes inv: "threads_inv s" and step: "pop_step ConsumerRead s = Some s'"
  shows "threads_inv s'"
proof -
  from inv have shape: "inv_shape s" and hist: "inv_hist s" and views: "inv_views s"
    and data: "inv_data s" and ep: "inv_epochs s" and cpc: "inv_consumer s"
    by (simp_all add: threads_inv_def)
  from step obtain tail where pc: "c_pc s = CRead tail"
    by (auto simp: pop_step_def split: consumer_pc.splits)
  with cpc have t: "tail = last (tail_hist s)" and seen: "n_popped s < c_view s"
    by (simp_all add: inv_consumer_def)
  let ?i = "n_popped s mod n_slots s"
  have ti: "unat tail = ?i"
    using tail_last [OF hist] t by simp
  have i: "?i < n_slots s" using n_slots_pos [OF shape] by simp
  have ord: "ordered (wr_epoch s ! ?i) (c_view s)"
  proof (cases "wr_epoch s ! ?i")
    case (Some e)
    from wr_epochD [OF ep i Some] have e: "e mod n_slots s = ?i" "e \<le> n_pushed s" by blast+
    have "e \<le> n_popped s"
    proof (rule ccontr)
      assume "\<not> ?thesis"
      then have le: "n_popped s \<le> e" and gt: "n_popped s \<noteq> e" by simp_all
      have lt: "e < n_popped s + n_slots s" using e(2) views by (simp add: inv_views_def)
      from mod_eq_close [OF e(1) [symmetric] le lt] gt show False by simp
    qed
    with Some seen show ?thesis by (simp add: ordered_def)
  qed (simp add: ordered_def)
  have val: "slots s ! ?i = pushed s ! n_popped s"
    using data seen views by (simp add: inv_data_def inv_views_def)
  have s': "s' = s\<lparr>ub := False, rd_epoch := (rd_epoch s)[?i := Some (n_popped s)],
      c_pc := CPublish (pushed s ! n_popped s) ((tail + 1) AND mask s)\<rparr>"
    using step pc ti i ord val inv
    by (simp add: pop_step_def vec_get_def n_slots_def n_popped_def threads_inv_def)
  have "inv_epochs (s\<lparr>ub := False, rd_epoch := (rd_epoch s)[?i := Some (n_popped s)]\<rparr>)"
    using shape seen views rd_epochD [OF ep] wr_epochD [OF ep]
    by (intro inv_epochsI)
      (auto simp: inv_shape_def inv_views_def nth_list_update split: if_splits)
  moreover have "inv_shape (s\<lparr>ub := False, rd_epoch := (rd_epoch s)[?i := Some (n_popped s)]\<rparr>)"
    using shape by (simp add: inv_shape_def)
  ultimately show ?thesis
    using inv t seen unfolding s' by (simp add: threads_inv_def inv_consumer_def)
qed

lemma inv_ConsumerPublish:
  assumes inv: "threads_inv s" and step: "pop_step ConsumerPublish s = Some s'"
  shows "threads_inv s'"
proof -
  from inv have shape: "inv_shape s" and hist: "inv_hist s" and views: "inv_views s"
    and data: "inv_data s" and cpc: "inv_consumer s"
    by (simp_all add: threads_inv_def)
  from step obtain out nxt where pc: "c_pc s = CPublish out nxt"
    and s': "s' = s\<lparr>tail_hist := tail_hist s @ [nxt], popped := popped s @ [out], c_pc := CIdle\<rparr>"
    by (auto simp: pop_step_def split: consumer_pc.splits)
  with cpc have n: "nxt = (last (tail_hist s) + 1) AND mask s"
    and seen: "n_popped s < c_view s" and out: "out = pushed s ! n_popped s"
    by (simp_all add: inv_consumer_def)
  have count: "n_popped s' = Suc (n_popped s)"
    using hist_lengths [OF hist] by (simp add: s' n_popped_def)
  have hist': "inv_hist s'"
    using hist hist_lengths [OF hist] tail_next [OF shape hist] n
    by (simp add: s' inv_hist_def indices_snoc)
  have views': "inv_views s'"
    using views seen count by (simp add: s' inv_views_def)
  have "n_popped s < length (pushed s)" using data seen views by (simp add: inv_data_def inv_views_def)
  then have data': "inv_data s'"
    using data out count by (simp add: s' inv_data_def take_Suc_conv_app_nth)
  from inv hist' views' data' show ?thesis
    unfolding s' by (simp add: threads_inv_def inv_consumer_def)
qed

lemma inv_ProducerWrite:
  assumes inv: "threads_inv s" and step: "push_step ProducerWrite s = Some s'"
  shows "threads_inv s'"
proof -
  from inv have shape: "inv_shape s" and hist: "inv_hist s" and views: "inv_views s"
    and data: "inv_data s" and ep: "inv_epochs s" and ppc: "inv_producer s"
    by (simp_all add: threads_inv_def)
  from step obtain v head nxt where pc: "p_pc s = PWrite v head nxt"
    by (auto simp: push_step_def split: producer_pc.splits)
  with ppc have h: "head = last (head_hist s)" and n: "nxt = (head + 1) AND mask s"
    and lag: "Suc (n_pushed s) < p_view s + n_slots s" by (simp_all add: inv_producer_def)
  let ?i = "n_pushed s mod n_slots s"
  have hi: "unat head = ?i" using head_last [OF hist] h by simp
  have i: "?i < n_slots s" using n_slots_pos [OF shape] by simp
  have ord: "ordered (rd_epoch s ! ?i) (p_view s)"
  proof (cases "rd_epoch s ! ?i")
    case (Some e)
    from rd_epochD [OF ep i Some] have e: "e mod n_slots s = ?i" "e < n_pushed s" by blast+
    have "e < p_view s"
    proof (rule ccontr)
      assume "\<not> ?thesis"
      with lag have "n_pushed s < e + n_slots s" by simp
      from mod_eq_close [OF e(1) _ this] e(2) show False by simp
    qed
    with Some show ?thesis by (simp add: ordered_def)
  qed (simp add: ordered_def)
  let ?s = "s\<lparr>slots := (slots s)[?i := v], ub := False,
    wr_epoch := (wr_epoch s)[?i := Some (n_pushed s)]\<rparr>"
  have s': "s' = ?s\<lparr>p_pc := PPublish v nxt\<rparr>"
    using step pc hi i ord inv
    by (simp add: push_step_def vec_set_def n_slots_def n_pushed_def threads_inv_def)
  have slots': "n_slots ?s = n_slots s" by (simp add: n_slots_def)
  have other: "(slots s)[?i := v] ! (j mod n_slots s) = slots s ! (j mod n_slots s)"
    if "n_popped s \<le> j" and "j < n_pushed s" for j
  proof (rule nth_list_update_neq)
    show "?i \<noteq> j mod n_slots s"
    proof
      assume "?i = j mod n_slots s"
      then have eq: "j mod n_slots s = ?i" by (rule sym)
      have lt: "n_pushed s < j + n_slots s"
        using lag views that(1) by (simp add: inv_views_def)
      from mod_eq_close [OF eq less_imp_le [OF that(2)] lt] that(2) show False by simp
    qed
  qed
  have "inv_shape ?s" using shape slots' by (simp add: inv_shape_def)
  moreover have "inv_hist ?s" using hist slots' by (simp add: inv_hist_def)
  moreover have "inv_views ?s" using views slots' by (simp add: inv_views_def)
  moreover have "inv_data ?s" using data slots' other by (simp add: inv_data_def)
  moreover have "inv_epochs ?s"
    using shape slots' rd_epochD [OF ep] wr_epochD [OF ep]
    by (intro inv_epochsI) (auto simp: inv_shape_def nth_list_update split: if_splits)
  moreover have "inv_consumer ?s" using inv by (simp add: threads_inv_def)
  moreover have "slots ?s ! ?i = v" using i by (simp add: n_slots_def)
  ultimately show ?thesis
    using h n lag slots' unfolding s' by (simp add: threads_inv_def inv_producer_def)
qed

lemma inv_ProducerPublish:
  assumes inv: "threads_inv s" and step: "push_step ProducerPublish s = Some s'"
  shows "threads_inv s'"
proof -
  from inv have shape: "inv_shape s" and hist: "inv_hist s" and views: "inv_views s"
    and data: "inv_data s" and ep: "inv_epochs s" and ppc: "inv_producer s"
    and cpc: "inv_consumer s"
    by (simp_all add: threads_inv_def)
  from step obtain v nxt where pc: "p_pc s = PPublish v nxt"
    and s': "s' = s\<lparr>head_hist := head_hist s @ [nxt], pushed := pushed s @ [v], p_pc := PIdle\<rparr>"
    by (auto simp: push_step_def split: producer_pc.splits)
  with ppc have n: "nxt = (last (head_hist s) + 1) AND mask s"
    and lag: "Suc (n_pushed s) < p_view s + n_slots s"
    and v: "slots s ! (n_pushed s mod n_slots s) = v"
    by (simp_all add: inv_producer_def)
  have count: "n_pushed s' = Suc (n_pushed s)"
    using hist_lengths [OF hist] by (simp add: s' n_pushed_def)
  have len: "length (pushed s) = n_pushed s" using data by (simp add: inv_data_def)
  have hist': "inv_hist s'"
    using hist hist_lengths [OF hist] head_next [OF shape hist] n
    by (simp add: s' inv_hist_def indices_snoc)
  have views': "inv_views s'"
    using views lag count by (simp add: s' inv_views_def)
  have data': "inv_data s'"
    using data v count len views
    by (auto simp: s' inv_data_def inv_views_def nth_append less_Suc_eq)
  have ep': "inv_epochs s'"
    using rd_epochD [OF ep] wr_epochD [OF ep] count
    by (intro inv_epochsI) (auto simp: s' less_Suc_eq le_Suc_eq)
  have cpc': "inv_consumer s'"
    using cpc views len
    by (simp add: s' inv_consumer_def inv_views_def nth_append split: consumer_pc.splits)
  from inv hist' views' data' ep' cpc' show ?thesis
    unfolding s' by (simp add: threads_inv_def inv_producer_def)
qed

lemma push_step_inv:
  assumes inv: "threads_inv s" and step: "push_step act s = Some s'"
  shows "threads_inv s'"
proof (cases act)
  case (ProducerCall v)
  with assms show ?thesis by (blast intro: inv_ProducerCall)
next
  case (ProducerLoadTail j)
  with assms show ?thesis by (blast intro: inv_ProducerLoadTail)
next
  case ProducerWrite
  with assms show ?thesis by (blast intro: inv_ProducerWrite)
next
  case ProducerPublish
  with assms show ?thesis by (blast intro: inv_ProducerPublish)
qed (use step in \<open>simp_all add: push_step_def\<close>)

lemma pop_step_inv:
  assumes inv: "threads_inv s" and step: "pop_step act s = Some s'"
  shows "threads_inv s'"
proof (cases act)
  case ConsumerCall
  with assms show ?thesis by (blast intro: inv_ConsumerCall)
next
  case (ConsumerLoadHead j)
  with assms show ?thesis by (blast intro: inv_ConsumerLoadHead)
next
  case ConsumerRead
  with assms show ?thesis by (blast intro: inv_ConsumerRead)
next
  case ConsumerPublish
  with assms show ?thesis by (blast intro: inv_ConsumerPublish)
next
  case (ConsumerPeek j)
  with assms show ?thesis by (blast intro: inv_ConsumerPeek)
qed (use step in \<open>simp_all add: pop_step_def\<close>)

lemma ring_step_inv: "threads_inv s \<Longrightarrow> ring_step act s = Some s' \<Longrightarrow> threads_inv s'"
  by (auto simp: ring_step_def intro: push_step_inv pop_step_inv split: if_splits)

lemma ring_exec_inv: "threads_inv s \<Longrightarrow> ring_exec acts s = Some s' \<Longrightarrow> threads_inv s'"
  by (induction acts arbitrary: s) (auto split: option.splits dest: ring_step_inv)

text \<open>No step resizes the storage.\<close>

lemma ring_step_slots: "ring_step act s = Some s' \<Longrightarrow> length (slots s') = length (slots s)"
  by (cases act)
    (auto simp: ring_step_def push_step_def pop_step_def Let_def vec_set_def
      split: producer_pc.splits consumer_pc.splits if_splits option.splits)

lemma ring_exec_slots: "ring_exec acts s = Some s' \<Longrightarrow> length (slots s') = length (slots s)"
  by (induction acts arbitrary: s) (auto split: option.splits dest: ring_step_slots)

subsection \<open>The buffer the threads see as a sequential object\<close>

text \<open>
  \<open>ring_object\<close> reads the shared memory as a \<open>SpScRingBuffer\<close>. At every moment of every
  schedule it is well formed and holds the values pushed and not yet popped; a thread that
  runs a whole method with fresh loads does exactly what the sequential method does.
\<close>

definition ring_object :: "'a ring_threads \<Rightarrow> 'a SpScRingBuffer" where
  "ring_object s = \<lparr>m_buffer = slots s, m_capacity = mask s + 1, m_mask = mask s,
     m_head = last (head_hist s), m_tail = last (tail_hist s), m_initialized = True\<rparr>"

lemma ring_object_inv:
  assumes "threads_inv s"
  shows "rb_inv (ring_object s)"
proof -
  from assms have shape: "inv_shape s" and hist: "inv_hist s" by (simp_all add: threads_inv_def)
  have "unat (last (head_hist s)) < n_slots s" and "unat (last (tail_hist s)) < n_slots s"
    using head_last [OF hist] tail_last [OF hist] n_slots_pos [OF shape] by simp_all
  with shape show ?thesis
    by (simp add: rb_inv_def ring_object_def inv_shape_def n_slots_def)
qed

lemma ring_object_list:
  assumes "threads_inv s"
  shows "rb_list (ring_object s) = drop (n_popped s) (pushed s)"
proof -
  let ?n = "n_slots s"
  from assms have shape: "inv_shape s" and hist: "inv_hist s" and views: "inv_views s"
    and data: "inv_data s" by (simp_all add: threads_inv_def)
  have pos: "0 < ?n" using shape by (rule n_slots_pos)
  have t: "unat (last (tail_hist s)) = n_popped s mod ?n"
    and h: "unat (last (head_hist s)) = n_pushed s mod ?n"
    using hist by (rule tail_last, rule head_last)
  let ?t = "n_popped s mod ?n" and ?h = "n_pushed s mod ?n"
  have le: "n_popped s \<le> n_pushed s" and lt: "n_pushed s < n_popped s + ?n"
    using views by (simp_all add: inv_views_def)
  have "distance ?n ?t ((?t + (n_pushed s - n_popped s)) mod ?n) = n_pushed s - n_popped s"
    using pos lt le by (intro distance_unique) simp_all
  moreover have "(?t + (n_pushed s - n_popped s)) mod ?n = ?h"
    using le by (metis le_add_diff_inverse mod_add_left_eq)
  ultimately have "distance ?n ?t ?h = n_pushed s - n_popped s" by simp
  moreover have "unat (mask s + 1) = ?n" using shape by (simp add: inv_shape_def)
  ultimately have "rb_list (ring_object s) = window (slots s) ?n ?t (n_pushed s - n_popped s)"
    by (simp add: rb_list_def ring_object_def t h)
  also have "\<dots> = drop (n_popped s) (pushed s)"
    using data le by (intro nth_equalityI) (auto simp: window_def mod_simps inv_data_def)
  finally show ?thesis .
qed

subsection \<open>Whole method calls\<close>

text \<open>The schedules of one uninterrupted call with fresh loads.\<close>

definition solo_push :: "'a \<Rightarrow> 'a ring_threads \<Rightarrow> 'a ring_action list" where
  "solo_push v s =
     (if rb_full (ring_object s) then [ProducerCall v, ProducerLoadTail (n_popped s)]
      else [ProducerCall v, ProducerLoadTail (n_popped s), ProducerWrite, ProducerPublish])"

definition solo_pop :: "'a ring_threads \<Rightarrow> 'a ring_action list" where
  "solo_pop s =
     (if rb_empty (ring_object s) then [ConsumerCall, ConsumerLoadHead (n_pushed s)]
      else [ConsumerCall, ConsumerLoadHead (n_pushed s), ConsumerRead, ConsumerPublish])"

lemma hist_nth_last:
  "inv_hist s \<Longrightarrow> tail_hist s ! n_popped s = last (tail_hist s) \<and>
     head_hist s ! n_pushed s = last (head_hist s)"
  by (simp add: inv_hist_def indices_def n_popped_def n_pushed_def last_conv_nth)

lemma solo_push_step:
  assumes inv: "threads_inv s" and idle: "p_pc s = PIdle"
  shows "\<exists>s' ok. ring_exec (solo_push v s) s = Some s' \<and> p_pc s' = PIdle \<and> c_pc s' = c_pc s \<and>
    rb_push v (ring_object s) = Inr (ok, ring_object s') \<and>
    pushed s' = pushed s @ (if ok then [v] else [])"
proof -
  from inv have shape: "inv_shape s" and hist: "inv_hist s" and views: "inv_views s"
    by (simp_all add: threads_inv_def)
  have len: "n_popped s < length (tail_hist s)" using hist_lengths [OF hist] by simp
  have le: "p_view s \<le> n_popped s" using views by (simp add: inv_views_def)
  have tl: "tail_hist s ! n_popped s = last (tail_hist s)" using hist_nth_last [OF hist] by simp
  have lt: "unat (last (head_hist s)) < length (slots s)"
    using head_last [OF hist] n_slots_pos [OF shape] by (simp add: n_slots_def)
  show ?thesis
    using idle len le tl lt
    by (simp add: solo_push_def ring_step_def push_step_def Let_def ring_object_def rb_full_def
        rb_push_def) blast
qed

lemma solo_pop_step:
  assumes inv: "threads_inv s" and idle: "c_pc s = CIdle"
  shows "\<exists>s' r. ring_exec (solo_pop s) s = Some s' \<and> c_pc s' = CIdle \<and> p_pc s' = p_pc s \<and>
    rb_pop (ring_object s) = Inr (r, ring_object s') \<and>
    popped s' = popped s @ (case r of None \<Rightarrow> [] | Some x \<Rightarrow> [x])"
proof -
  from inv have shape: "inv_shape s" and hist: "inv_hist s" and views: "inv_views s"
    by (simp_all add: threads_inv_def)
  have len: "n_pushed s < length (head_hist s)" using hist_lengths [OF hist] by simp
  have le: "c_view s \<le> n_pushed s" using views by (simp add: inv_views_def)
  have hd: "head_hist s ! n_pushed s = last (head_hist s)" using hist_nth_last [OF hist] by simp
  have lt: "unat (last (tail_hist s)) < length (slots s)"
    using tail_last [OF hist] n_slots_pos [OF shape] by (simp add: n_slots_def)
  show ?thesis
    using idle len le hd lt
    by (simp add: solo_pop_def ring_step_def pop_step_def Let_def ring_object_def rb_empty_def
        rb_pop_def)
qed

lemma producer_refusal:
  assumes inv: "threads_inv s" and pc: "p_pc s = PTest v h n"
    and step: "push_step (ProducerLoadTail j) s = Some s'"
  shows "p_pc s' = PIdle \<longleftrightarrow> Suc (n_pushed s) = j + n_slots s"
proof -
  from inv have shape: "inv_shape s" and hist: "inv_hist s" and views: "inv_views s"
    and "inv_producer s" by (simp_all add: threads_inv_def)
  with pc have n: "n = (last (head_hist s) + 1) AND mask s" by (simp add: inv_producer_def)
  from step pc have j: "p_view s \<le> j" "j < length (tail_hist s)"
    and s': "p_pc s' = (if n = tail_hist s ! j then PIdle else PWrite v h n)"
    by (auto simp: push_step_def split: if_splits)
  have le: "j \<le> n_popped s" using j(2) hist_lengths [OF hist] by simp
  have "n = tail_hist s ! j \<longleftrightarrow> Suc (n_pushed s) mod n_slots s = j mod n_slots s"
    using head_next [OF shape hist] tail_at [OF hist j(2)] n by (metis unsigned_word_eqI)
  also have "\<dots> \<longleftrightarrow> Suc (n_pushed s) = j + n_slots s"
  proof
    assume "Suc (n_pushed s) mod n_slots s = j mod n_slots s"
    then have "Suc (n_pushed s) mod n_slots s = (j + n_slots s) mod n_slots s" by simp
    then show "Suc (n_pushed s) = j + n_slots s"
      by (rule mod_eq_close) (use views j(1) le in \<open>simp_all add: inv_views_def\<close>)
  qed simp
  finally show ?thesis by (simp add: s')
qed

lemma consumer_refusal:
  assumes inv: "threads_inv s" and pc: "c_pc s = CTest t"
    and step: "pop_step (ConsumerLoadHead j) s = Some s'"
  shows "c_pc s' = CIdle \<longleftrightarrow> n_popped s = j"
proof -
  from inv have hist: "inv_hist s" and views: "inv_views s" and "inv_consumer s"
    by (simp_all add: threads_inv_def)
  with pc have t: "t = last (tail_hist s)" by (simp add: inv_consumer_def)
  from step pc have j: "c_view s \<le> j" "j < length (head_hist s)"
    and s': "c_pc s' = (if t = head_hist s ! j then CIdle else CRead t)"
    by (auto simp: pop_step_def split: if_splits)
  have le: "j \<le> n_pushed s" using j(2) hist_lengths [OF hist] by simp
  have "t = head_hist s ! j \<longleftrightarrow> n_popped s mod n_slots s = j mod n_slots s"
    using tail_last [OF hist] head_at [OF hist j(2)] t by (metis unsigned_word_eqI)
  also have "\<dots> \<longleftrightarrow> n_popped s = j"
  proof
    assume "n_popped s mod n_slots s = j mod n_slots s"
    then show "n_popped s = j"
      by (rule mod_eq_close) (use views j(1) le in \<open>simp_all add: inv_views_def\<close>)
  qed simp
  finally show ?thesis by (simp add: s')
qed

subsection \<open>Properties\<close>

text \<open>
  Property C1 (safety): under every interleaving of one producer and one consumer, with
  acquire loads as stale as the memory model allows, no slot is accessed out of range and
  every access to a slot is ordered after the other thread's last access to it: the buffer
  has no data race.
\<close>

theorem ring_no_data_race:
  assumes "rb_init alloc_ok dflt cap rb0 = Inr (True, rb)"
    and "ring_exec acts (ring_start rb) = Some s"
  shows "\<not> ub s"
  using ring_exec_inv [OF threads_inv_start [OF assms(1)] assms(2)] by (simp add: threads_inv_def)

theorem ring_no_data_race_witness:
  "\<exists>s. ring_exec [ProducerCall 5, ProducerLoadTail 0, ProducerWrite, ConsumerCall, ConsumerLoadHead 0,
       ProducerPublish, ConsumerCall, ConsumerLoadHead 1, ProducerCall 6, ConsumerRead,
       ConsumerPublish, ProducerLoadTail 0] (ring_start rb_two) = Some s \<and>
     \<not> ub s \<and> pushed s = [5] \<and> popped s = [5]"
proof -
  let ?acts = "[ProducerCall 5, ProducerLoadTail 0, ProducerWrite, ConsumerCall, ConsumerLoadHead 0,
       ProducerPublish, ConsumerCall, ConsumerLoadHead 1, ProducerCall 6, ConsumerRead,
       ConsumerPublish, ProducerLoadTail 0] :: nat ring_action list"
  have "map_option (\<lambda>s. (pushed s, popped s)) (ring_exec ?acts (ring_start rb_two)) = Some ([5], [5])"
    by code_simp
  then obtain s where run: "ring_exec ?acts (ring_start rb_two) = Some s"
    and hist: "pushed s = [5]" "popped s = [5]" by auto
  have "\<not> ub s" by (rule ring_no_data_race [OF rb_init_two run])
  with hist run show ?thesis by blast
qed

text \<open>
  Property C2 (functional, bounds): under every interleaving the values popped are a prefix of
  the values pushed, in the same order: nothing is lost, duplicated, reordered or read before it
  was written. At most \<open>capacity - 1\<close> values are in flight, and they are what the shared memory
  holds when it is read as a buffer.
\<close>

theorem ring_concurrent_fifo:
  assumes "rb_init alloc_ok dflt cap rb0 = Inr (True, rb)"
    and "ring_exec acts (ring_start rb) = Some s"
  shows "pushed s = popped s @ rb_list (ring_object s) \<and>
    length (pushed s) \<le> length (popped s) + (unat cap - 1)"
proof -
  from ring_exec_inv [OF threads_inv_start [OF assms(1)] assms(2)]
  have inv: "threads_inv s" .
  then have data: "inv_data s" and views: "inv_views s" by (simp_all add: threads_inv_def)
  have slots: "n_slots s = unat cap"
    using ring_exec_slots [OF assms(2)] rb_init_True [OF assms(1)]
    by (auto simp: n_slots_def ring_start_def rb_inv_def)
  have len: "length (popped s) = n_popped s"
    using data views by (auto simp: inv_data_def inv_views_def)
  have "popped s @ drop (n_popped s) (pushed s) = pushed s"
    using data by (metis append_take_drop_id inv_data_def)
  then have "pushed s = popped s @ rb_list (ring_object s)"
    using data ring_object_list [OF inv] by (simp add: inv_data_def)
  moreover have "n_pushed s < n_popped s + unat cap" using views slots by (simp add: inv_views_def)
  ultimately show ?thesis using data len by (auto simp: inv_data_def)
qed

theorem ring_concurrent_fifo_witness:
  "\<exists>s. ring_exec [ProducerCall 5, ProducerLoadTail 0, ProducerWrite, ProducerPublish,
       ConsumerCall, ConsumerLoadHead 1, ConsumerRead, ConsumerPublish,
       ProducerCall 6, ProducerLoadTail 1, ProducerWrite, ProducerPublish] (ring_start rb_two) = Some s \<and>
     pushed s = [5, 6] \<and> popped s = [5] \<and> pushed s = popped s @ rb_list (ring_object s)"
proof -
  let ?acts = "[ProducerCall 5, ProducerLoadTail 0, ProducerWrite, ProducerPublish,
       ConsumerCall, ConsumerLoadHead 1, ConsumerRead, ConsumerPublish,
       ProducerCall 6, ProducerLoadTail 1, ProducerWrite, ProducerPublish] :: nat ring_action list"
  have "map_option (\<lambda>s. (pushed s, popped s)) (ring_exec ?acts (ring_start rb_two)) = Some ([5, 6], [5])"
    by code_simp
  then obtain s where run: "ring_exec ?acts (ring_start rb_two) = Some s"
    and hist: "pushed s = [5, 6]" "popped s = [5]" by auto
  have "pushed s = popped s @ rb_list (ring_object s)"
    using ring_concurrent_fifo [OF rb_init_two run] by blast
  with hist run show ?thesis by blast
qed

text \<open>
  Further property (safety): a \<open>push\<close> is refused in a concurrent schedule only when, by the tail it
  read, all \<open>capacity - 1\<close> places are taken, and a \<open>pop\<close> comes back empty only when, by the head
  it read, everything was consumed. With a current load the answers are those of the shared
  buffer at that moment: no spurious failure.
\<close>

theorem ring_refusals_are_justified:
  assumes "rb_init alloc_ok dflt cap rb0 = Inr (True, rb)"
    and "ring_exec acts (ring_start rb) = Some s"
  shows "(\<forall>v h n j s'. p_pc s = PTest v h n \<and> push_step (ProducerLoadTail j) s = Some s' \<longrightarrow>
      (p_pc s' = PIdle \<longleftrightarrow> length (pushed s) = j + (unat cap - 1))) \<and>
    (\<forall>t j s'. c_pc s = CTest t \<and> pop_step (ConsumerLoadHead j) s = Some s' \<longrightarrow>
      (c_pc s' = CIdle \<longleftrightarrow> length (popped s) = j))"
proof -
  from ring_exec_inv [OF threads_inv_start [OF assms(1)] assms(2)]
  have inv: "threads_inv s" .
  have slots: "n_slots s = unat cap" and cap: "0 < unat cap"
    using ring_exec_slots [OF assms(2)] rb_init_True [OF assms(1)]
    by (auto simp: n_slots_def ring_start_def rb_inv_def unat_gt_0)
  have len: "length (pushed s) = n_pushed s" "length (popped s) = n_popped s"
    using inv by (auto simp: threads_inv_def inv_data_def inv_views_def)
  show ?thesis
    using producer_refusal [OF inv] consumer_refusal [OF inv] slots len cap by auto
qed

theorem ring_refusals_are_justified_witness:
  "\<exists>s s'. ring_exec [ProducerCall 5, ProducerLoadTail 0, ProducerWrite, ProducerPublish,
       ConsumerCall, ConsumerLoadHead 1, ConsumerRead, ConsumerPublish, ProducerCall 6]
       (ring_start rb_two) = Some s \<and>
     push_step (ProducerLoadTail 0) s = Some s' \<and> p_pc s' = PIdle \<and> length (pushed s) = 0 + (2 - 1)"
proof -
  let ?acts = "[ProducerCall 5, ProducerLoadTail 0, ProducerWrite, ProducerPublish,
       ConsumerCall, ConsumerLoadHead 1, ConsumerRead, ConsumerPublish, ProducerCall 6] :: nat ring_action list"
  have "map_option (\<lambda>s. (p_pc s, map_option p_pc (push_step (ProducerLoadTail 0) s)))
      (ring_exec ?acts (ring_start rb_two)) = Some (PTest 6 1 0, Some PIdle)"
    by code_simp
  then obtain s s' where run: "ring_exec ?acts (ring_start rb_two) = Some s"
    and pc: "p_pc s = PTest 6 1 0" and step: "push_step (ProducerLoadTail 0) s = Some s'"
    and refused: "p_pc s' = PIdle" by auto
  from ring_refusals_are_justified [OF rb_init_two run] pc step refused
  have "length (pushed s) = 0 + (2 - 1)" by auto
  with step refused run show ?thesis by blast
qed

text \<open>
  Property C28 (refinement): in every state the threads can reach, a method that runs without
  interruption and with current loads has exactly the effect of the sequential \<open>push\<close> or \<open>pop\<close>
  on the shared object, whatever the other thread is in the middle of.
\<close>

theorem ring_method_refines_sequential:
  assumes "rb_init alloc_ok dflt cap rb0 = Inr (True, rb)"
    and "ring_exec acts (ring_start rb) = Some s"
  shows "(p_pc s = PIdle \<longrightarrow> (\<exists>s' ok. ring_exec (solo_push v s) s = Some s' \<and>
        rb_push v (ring_object s) = Inr (ok, ring_object s') \<and>
        pushed s' = pushed s @ (if ok then [v] else []) \<and> c_pc s' = c_pc s)) \<and>
    (c_pc s = CIdle \<longrightarrow> (\<exists>s' r. ring_exec (solo_pop s) s = Some s' \<and>
        rb_pop (ring_object s) = Inr (r, ring_object s') \<and>
        popped s' = popped s @ (case r of None \<Rightarrow> [] | Some x \<Rightarrow> [x]) \<and> p_pc s' = p_pc s))"
proof -
  from ring_exec_inv [OF threads_inv_start [OF assms(1)] assms(2)]
  have inv: "threads_inv s" .
  from solo_push_step [OF inv] solo_pop_step [OF inv] show ?thesis by blast
qed

theorem ring_method_refines_sequential_witness:
  "\<exists>s s' r. ring_exec [ProducerCall 5, ProducerLoadTail 0, ProducerWrite, ProducerPublish,
       ProducerCall 6] (ring_start rb_two) = Some s \<and>
     ring_exec (solo_pop s) s = Some s' \<and> rb_pop (ring_object s) = Inr (r, ring_object s') \<and>
     p_pc s' = PTest 6 1 0"
proof -
  let ?acts = "[ProducerCall 5, ProducerLoadTail 0, ProducerWrite, ProducerPublish,
       ProducerCall 6] :: nat ring_action list"
  have "map_option (\<lambda>s. (p_pc s, c_pc s)) (ring_exec ?acts (ring_start rb_two)) = Some (PTest 6 1 0, CIdle)"
    by code_simp
  then obtain s where run: "ring_exec ?acts (ring_start rb_two) = Some s"
    and pc: "p_pc s = PTest 6 1 0" "c_pc s = CIdle" by auto
  from ring_method_refines_sequential [OF rb_init_two run] pc obtain s' r
    where "ring_exec (solo_pop s) s = Some s'" "rb_pop (ring_object s) = Inr (r, ring_object s')"
      "p_pc s' = PTest 6 1 0" by auto
  with run show ?thesis by blast
qed

end
