(* ===== verification/CondVar.thy ===== *)
theory CondVar
  imports Prelude
begin

text \<open>
  \<open>std::condition_variable::wait\<close> and \<open>wait_for\<close> with a predicate, as the sources use them:
  the predicate is evaluated with the mutex held, and while it fails the thread sleeps. What
  the rest of the program does meanwhile is the list of wake-ups: each one carries the shared
  state found when the mutex is held again. A wake-up is a notification (or a spurious one)
  or the end of the timeout. The answer \<open>None\<close> means that the thread is still blocked when
  the list ends.
\<close>

datatype 's wakeup = Notified 's | Expired 's

text \<open>
  Where a waiting thread can be seen from outside: not waiting; between the evaluation of the predicate
  and the sleep; asleep; notified and not yet running again.
\<close>

datatype wait_pc = Outside | Checked | Asleep | Woken

fun cv_wait :: "('s \<Rightarrow> bool) \<Rightarrow> 's \<Rightarrow> 's list \<Rightarrow> 's option" where
  "cv_wait pred s wakes =
     (if pred s then Some s
      else (case wakes of [] \<Rightarrow> None | s' # ws \<Rightarrow> cv_wait pred s' ws))"

fun cv_wait_for :: "('s \<Rightarrow> bool) \<Rightarrow> 's \<Rightarrow> 's wakeup list \<Rightarrow> ('s \<times> bool) option" where
  "cv_wait_for pred s wakes =
     (if pred s then Some (s, True)
      else (case wakes of
              [] \<Rightarrow> None
            | Notified s' # ws \<Rightarrow> cv_wait_for pred s' ws
            | Expired s' # _ \<Rightarrow> Some (s', pred s')))"

fun seen :: "'s wakeup \<Rightarrow> 's" where
  "seen (Notified s) = s"
| "seen (Expired s) = s"

declare cv_wait.simps [simp del] cv_wait_for.simps [simp del]

lemma cv_wait_now [simp]: "pred s \<Longrightarrow> cv_wait pred s wakes = Some s"
  by (simp add: cv_wait.simps)

lemma cv_wait_for_now [simp]: "pred s \<Longrightarrow> cv_wait_for pred s wakes = Some (s, True)"
  by (simp add: cv_wait_for.simps)

lemma cv_wait_sound: "cv_wait pred s wakes = Some s' \<Longrightarrow> pred s' \<and> s' \<in> set (s # wakes)"
proof (induction wakes arbitrary: s)
  case Nil
  then show ?case by (simp add: cv_wait.simps split: if_splits)
next
  case (Cons w ws)
  then show ?case by (auto simp: cv_wait.simps [of pred s] split: if_splits)
qed

lemma cv_wait_returns: "(\<exists>s'. cv_wait pred s wakes = Some s') \<longleftrightarrow> (\<exists>s' \<in> set (s # wakes). pred s')"
proof (induction wakes arbitrary: s)
  case Nil
  then show ?case by (simp add: cv_wait.simps)
next
  case (Cons w ws)
  show ?case
  proof (cases "pred s")
    case False
    with Cons.IH [of w] show ?thesis by (simp add: cv_wait.simps [of pred s])
  qed auto
qed

text \<open>A timed wait reports true exactly when the predicate holds in the state it returns with.\<close>

lemma cv_wait_for_sound:
  "cv_wait_for pred s wakes = Some (s', ok) \<Longrightarrow>
     (ok \<longleftrightarrow> pred s') \<and> s' \<in> set (s # map seen wakes) \<and> (\<not> ok \<longrightarrow> Expired s' \<in> set wakes)"
proof (induction wakes arbitrary: s)
  case Nil
  then show ?case by (simp add: cv_wait_for.simps split: if_splits)
next
  case (Cons w ws)
  then show ?case
    by (cases w) (auto simp: cv_wait_for.simps [of pred s] split: if_splits)
qed

lemma cv_wait_for_expires:
  "Expired s' \<in> set wakes \<Longrightarrow> \<exists>r. cv_wait_for pred s wakes = Some r"
proof (induction wakes arbitrary: s)
  case (Cons w ws)
  then show ?case by (cases w) (auto simp: cv_wait_for.simps [of pred s])
qed simp

end
