(* ===== verification/MessageQueue.thy ===== *)
theory MessageQueue
  imports Fifo CondVar
begin

text \<open>
  \<open>messaging::MessageQueue\<close> of \<open>src/include/messaging/messageQueue.hpp\<close>. An element of the
  queue is a \<open>shared_ptr<MessageBase>\<close>: \<open>None\<close> is the null pointer, \<open>Some m\<close> points at the
  message \<open>m\<close>. Every method holds the mutex for all of its accesses, so here it is one state
  transformation; how the methods of several threads interleave, and what the condition
  variable does, is in \<open>MessageMonitor\<close>.

  The interpretation \<open>mq\<close> of \<open>fifo\<close> shows that the queue is an unbounded FIFO.
\<close>

record 'm MessageQueue =
  m_queue :: "'m option list"

definition mq_new :: "'m MessageQueue" where
  "mq_new = \<lparr>m_queue = []\<rparr>"

definition mq_pop :: "'m MessageQueue \<Rightarrow> 'm option \<times> 'm MessageQueue" where
  "mq_pop q = (case m_queue q of
     [] \<Rightarrow> (None, q)
   | result # rest \<Rightarrow> (result, q\<lparr>m_queue := rest\<rparr>))"

definition mq_front :: "'m MessageQueue \<Rightarrow> 'm option" where
  "mq_front q = (case m_queue q of [] \<Rightarrow> None | result # _ \<Rightarrow> result)"

definition mq_push :: "'m \<Rightarrow> 'm MessageQueue \<Rightarrow> 'm MessageQueue" where
  "mq_push msg q = q\<lparr>m_queue := m_queue q @ [Some msg]\<rparr>"

definition mq_push_ptr :: "'m option \<Rightarrow> 'm MessageQueue \<Rightarrow> 'm MessageQueue" where
  "mq_push_ptr msgPtr q = q\<lparr>m_queue := m_queue q @ [msgPtr]\<rparr>"

definition mq_try_pop :: "'m MessageQueue \<Rightarrow> 'm option \<times> 'm MessageQueue" where
  "mq_try_pop q = mq_pop q"

definition mq_wait ::
  "'m MessageQueue \<Rightarrow> 'm MessageQueue list \<Rightarrow> ('m option \<times> 'm MessageQueue) option"
where
  "mq_wait q wakes = map_option mq_pop (cv_wait (\<lambda>q. m_queue q \<noteq> []) q wakes)"

definition mq_wait_for ::
  "'m MessageQueue \<Rightarrow> 'm MessageQueue wakeup list \<Rightarrow> ('m option \<times> 'm MessageQueue) option"
where
  "mq_wait_for q wakes = (case cv_wait_for (\<lambda>q. m_queue q \<noteq> []) q wakes of
     None \<Rightarrow> None
   | Some (q', hasItem) \<Rightarrow> if \<not> hasItem then Some (None, q') else Some (mq_pop q'))"

definition mq_clear :: "'m MessageQueue \<Rightarrow> 'm MessageQueue" where
  "mq_clear q = q\<lparr>m_queue := []\<rparr>"

definition mq_empty :: "'m MessageQueue \<Rightarrow> bool" where
  "mq_empty q \<longleftrightarrow> m_queue q = []"

subsection \<open>The queue as a FIFO of messages\<close>

definition mq_inv :: "'m MessageQueue \<Rightarrow> bool" where
  "mq_inv q \<longleftrightarrow> None \<notin> set (m_queue q)"

definition mq_list :: "'m MessageQueue \<Rightarrow> 'm list" where
  "mq_list q = map the (m_queue q)"

definition mq_enq :: "'m \<Rightarrow> 'm MessageQueue \<Rightarrow> bool \<times> 'm MessageQueue" where
  "mq_enq msg q = (True, mq_push_ptr (Some msg) q)"

lemmas mq_defs = mq_new_def mq_pop_def mq_front_def mq_push_def mq_push_ptr_def mq_try_pop_def
  mq_clear_def mq_empty_def mq_inv_def mq_list_def mq_enq_def

lemma mq_push_is_push_ptr: "mq_push msg q = mq_push_ptr (Some msg) q"
  by (simp add: mq_defs)

lemma mq_pop_cases:
  assumes "mq_inv q"
  obtains "mq_list q = []" "mq_pop q = (None, q)"
    | m q' where "mq_list q = m # mq_list q'" "mq_pop q = (Some m, q')" "mq_inv q'"
proof (cases "m_queue q")
  case (Cons result rest)
  with assms obtain m where "result = Some m" by (cases result) (auto simp: mq_defs)
  with Cons assms show ?thesis
    by (intro that(2) [of m "q\<lparr>m_queue := rest\<rparr>"]) (simp_all add: mq_defs)
qed (simp add: that(1) mq_defs)

interpretation mq: fifo mq_enq mq_try_pop mq_list mq_inv "\<lambda>_. None"
proof unfold_locales
  show "mq_inv q' \<and> None = None \<and> aq_enq None x (mq_list q) = (ok, mq_list q')"
    if "mq_inv q" and "mq_enq x q = (ok, q')" for q x ok and q' :: "'b MessageQueue"
    using that by (auto simp: mq_defs aq_enq_def)
  show "mq_inv q' \<and> None = None \<and> aq_deq (mq_list q) = (r, mq_list q')"
    if "mq_inv q" and "mq_try_pop q = (r, q')" for q r and q' :: "'b MessageQueue"
    using that by (cases "m_queue q") (auto simp: mq_defs)
qed

subsection \<open>Properties\<close>

text \<open>
  Further property (refinement): any sequence of \<open>push\<close> and \<open>try_pop\<close> on a queue is answered as by
  an unbounded FIFO: every push is accepted, and the messages come out in the order they went
  in, none lost and none duplicated.
\<close>

theorem mq_run_refines_fifo:
  assumes "mq_inv q" and "run_queue mq_enq mq_try_pop ops q = (as, q')"
  shows "run_queue (aq_enq None) aq_deq ops (mq_list q) = (as, mq_list q') \<and>
    mq_list q @ accepted as = delivered as @ mq_list q'"
  using mq.run_refines [OF assms] mq.conservation [OF assms] by simp

theorem mq_run_refines_fifo_witness:
  "\<exists>q as. run_queue mq_enq mq_try_pop [Enq (1 :: nat), Enq 2, Deq, Deq, Deq] mq_new = (as, q) \<and>
     delivered as = [1, 2] \<and> mq_list mq_new @ accepted as = delivered as @ mq_list q"
proof -
  obtain as q where run:
    "run_queue mq_enq mq_try_pop [Enq (1 :: nat), Enq 2, Deq, Deq, Deq] mq_new = (as, q)"
    by (cases "run_queue mq_enq mq_try_pop [Enq (1 :: nat), Enq 2, Deq, Deq, Deq] mq_new") simp
  have "mq_inv (mq_new :: nat MessageQueue)" by (simp add: mq_defs)
  from mq_run_refines_fifo [OF this run] run show ?thesis by (auto simp: mq_defs)
qed

text \<open>
  Further property (functional, termination): a timed wait always returns once its timeout has
  expired. It returns the oldest message of the queue it finds, and a null pointer only if the
  timeout expired with the queue empty; in that case it removes nothing.
\<close>

theorem mq_wait_for_functional:
  assumes "mq_inv q" and "\<forall>w \<in> set wakes. mq_inv (seen w)"
  shows "(\<forall>r q'. mq_wait_for q wakes = Some (r, q') \<longrightarrow>
      (case r of
         None \<Rightarrow> mq_empty q' \<and> Expired q' \<in> set wakes
       | Some m \<Rightarrow> \<exists>q0 \<in> set (q # map seen wakes). mq_list q0 = m # mq_list q')) \<and>
    ((\<exists>q'. Expired q' \<in> set wakes) \<longrightarrow> mq_wait_for q wakes \<noteq> None)"
proof (intro conjI allI impI)
  fix r q'
  assume ret: "mq_wait_for q wakes = Some (r, q')"
  then obtain q1 ok where cv: "cv_wait_for (\<lambda>q. m_queue q \<noteq> []) q wakes = Some (q1, ok)"
    and r: "(r, q') = (if \<not> ok then (None, q1) else mq_pop q1)"
    by (auto simp: mq_wait_for_def split: option.splits if_splits)
  from cv_wait_for_sound [OF cv] have ok: "ok \<longleftrightarrow> m_queue q1 \<noteq> []"
    and q1: "q1 \<in> set (q # map seen wakes)" and exp: "\<not> ok \<longrightarrow> Expired q1 \<in> set wakes" by auto
  from q1 assms have "mq_inv q1" by auto
  then show "case r of None \<Rightarrow> mq_empty q' \<and> Expired q' \<in> set wakes
      | Some m \<Rightarrow> \<exists>q0 \<in> set (q # map seen wakes). mq_list q0 = m # mq_list q'"
  proof (rule mq_pop_cases)
    assume "mq_list q1 = []"
    with r ok exp show ?thesis by (auto simp: mq_empty_def mq_list_def)
  next
    fix m q2
    assume "mq_list q1 = m # mq_list q2" and "mq_pop q1 = (Some m, q2)"
    moreover from this(1) have ok by (auto simp: ok mq_list_def)
    ultimately show ?thesis using r q1 by (auto simp del: set_simps intro: bexI [OF _ q1])
  qed
next
  assume "\<exists>q'. Expired q' \<in> set wakes"
  then obtain res where "cv_wait_for (\<lambda>q. m_queue q \<noteq> []) q wakes = Some res"
    using cv_wait_for_expires by metis
  then show "mq_wait_for q wakes \<noteq> None" by (auto simp: mq_wait_for_def split: prod.splits)
qed

theorem mq_wait_for_functional_witness:
  "mq_wait_for mq_new [Notified mq_new, Notified (mq_push (3 :: nat) mq_new)] = Some (Some 3, mq_new) \<and>
   (\<exists>q0 \<in> set [mq_new, mq_new, mq_push (3 :: nat) mq_new]. mq_list q0 = 3 # mq_list mq_new)"
proof -
  let ?wakes = "[Notified mq_new, Notified (mq_push (3 :: nat) mq_new)]"
  have ret: "mq_wait_for mq_new ?wakes = Some (Some 3, mq_new)"
    by (simp add: mq_wait_for_def cv_wait_for.simps mq_defs)
  have "mq_inv (mq_new :: nat MessageQueue)" and "\<forall>w \<in> set ?wakes. mq_inv (seen w)"
    by (simp_all add: mq_defs)
  from mq_wait_for_functional [OF this] ret show ?thesis by fastforce
qed

text \<open>
  Further property (error): a null pointer can be pushed, and it reads as an empty queue: \<open>try_pop\<close>
  and \<open>wait\<close> return a null pointer although messages are queued behind it, so a consumer that
  stops at the first null pointer leaves them there; the next call returns the next message.
\<close>

theorem mq_null_pointer_reads_as_empty:
  assumes "m_queue q = []"
  shows "fst (mq_try_pop (mq_push m (mq_push_ptr None q))) = None \<and>
    mq_wait (mq_push m (mq_push_ptr None q)) [] = Some (None, mq_push m q) \<and>
    fst (mq_try_pop (snd (mq_try_pop (mq_push m (mq_push_ptr None q))))) = Some m"
  using assms by (simp add: mq_defs mq_wait_def)

theorem mq_null_pointer_reads_as_empty_witness:
  "fst (mq_try_pop (mq_push (7 :: nat) (mq_push_ptr None mq_new))) = None"
  using mq_null_pointer_reads_as_empty [of "mq_new :: nat MessageQueue" 7] by (simp add: mq_new_def)

end
