(* ===== verification/ThreadSafeQueue.thy ===== *)
theory ThreadSafeQueue
  imports Fifo CondVar
begin

text \<open>
  The class template \<open>ThreadSafeQueue\<close> of \<open>src/include/threading/threadSafeQueue.hpp\<close>. As in
  \<open>MessageQueue\<close>, a method holds the mutex for all of its accesses and is one state
  transformation. \<open>waitPop\<close> evaluates a caller's stop predicate with the mutex held; its
  verdict is part of the state each wake-up carries.

  The interpretation \<open>tsq\<close> of \<open>fifo\<close> shows that the queue is an unbounded FIFO.
\<close>

record 'a ThreadSafeQueue =
  tsq_items :: "'a list"

definition tsq_new :: "'a ThreadSafeQueue" where
  "tsq_new = \<lparr>tsq_items = []\<rparr>"

definition tsq_push :: "'a \<Rightarrow> 'a ThreadSafeQueue \<Rightarrow> 'a ThreadSafeQueue" where
  "tsq_push val q = q\<lparr>tsq_items := tsq_items q @ [val]\<rparr>"

definition tsq_try_pop :: "'a ThreadSafeQueue \<Rightarrow> 'a option \<times> 'a ThreadSafeQueue" where
  "tsq_try_pop q = (case tsq_items q of
     [] \<Rightarrow> (None, q)
   | val # rest \<Rightarrow> (Some val, q\<lparr>tsq_items := rest\<rparr>))"

definition tsq_wait_pop ::
  "'a ThreadSafeQueue \<times> bool \<Rightarrow> ('a ThreadSafeQueue \<times> bool) list \<Rightarrow>
     ('a option \<times> 'a ThreadSafeQueue) option"
where
  "tsq_wait_pop s wakes =
     (case cv_wait (\<lambda>(q, stop). tsq_items q \<noteq> [] \<or> stop) s wakes of
        None \<Rightarrow> None
      | Some (q, _) \<Rightarrow>
          (case tsq_items q of
             [] \<Rightarrow> Some (None, q)
           | val # rest \<Rightarrow> Some (Some val, q\<lparr>tsq_items := rest\<rparr>)))"

definition tsq_empty :: "'a ThreadSafeQueue \<Rightarrow> bool" where
  "tsq_empty q \<longleftrightarrow> tsq_items q = []"

definition tsq_enq :: "'a \<Rightarrow> 'a ThreadSafeQueue \<Rightarrow> bool \<times> 'a ThreadSafeQueue" where
  "tsq_enq val q = (True, tsq_push val q)"

lemmas tsq_defs = tsq_new_def tsq_push_def tsq_try_pop_def tsq_empty_def tsq_enq_def

lemma tsq_try_pop_aq: "tsq_try_pop q = (r, q') \<Longrightarrow> aq_deq (tsq_items q) = (r, tsq_items q')"
  by (auto simp: tsq_try_pop_def split: list.splits)

interpretation tsq: fifo tsq_enq tsq_try_pop tsq_items "\<lambda>_. True" "\<lambda>_. None"
proof unfold_locales
  show "True \<and> None = None \<and> aq_enq None x (tsq_items q) = (ok, tsq_items q')"
    if "tsq_enq x q = (ok, q')" for q x ok and q' :: "'b ThreadSafeQueue"
    using that by (auto simp: tsq_defs aq_enq_def)
  show "True \<and> None = None \<and> aq_deq (tsq_items q) = (r, tsq_items q')"
    if "tsq_try_pop q = (r, q')" for q r and q' :: "'b ThreadSafeQueue"
    using tsq_try_pop_aq [OF that] by simp
qed

text \<open>After the wait \<open>waitPop\<close> does what \<open>tryPop\<close> does.\<close>

lemma tsq_wait_pop_alt:
  "tsq_wait_pop s wakes = map_option (\<lambda>(q, _). tsq_try_pop q)
     (cv_wait (\<lambda>(q, stop). tsq_items q \<noteq> [] \<or> stop) s wakes)"
  by (auto simp: tsq_wait_pop_def tsq_try_pop_def split: option.splits list.splits)

subsection \<open>Properties\<close>

text \<open>
  Further property (refinement): any sequence of \<open>push\<close> and \<open>tryPop\<close> is answered as by an unbounded
  FIFO: every push is accepted, values come out in order, none lost and none duplicated.
\<close>

theorem tsq_run_refines_fifo:
  assumes "run_queue tsq_enq tsq_try_pop ops q = (as, q')"
  shows "run_queue (aq_enq None) aq_deq ops (tsq_items q) = (as, tsq_items q') \<and>
    tsq_items q @ accepted as = delivered as @ tsq_items q'"
  using tsq.run_refines [OF _ assms] tsq.conservation [OF _ assms] by simp

theorem tsq_run_refines_fifo_witness:
  "\<exists>as q. run_queue tsq_enq tsq_try_pop [Enq (1 :: nat), Deq, Deq] tsq_new = (as, q) \<and>
     delivered as = [1] \<and> tsq_items tsq_new @ accepted as = delivered as @ tsq_items q"
proof -
  obtain as q where run: "run_queue tsq_enq tsq_try_pop [Enq (1 :: nat), Deq, Deq] tsq_new = (as, q)"
    by (cases "run_queue tsq_enq tsq_try_pop [Enq (1 :: nat), Deq, Deq] tsq_new") simp
  from tsq_run_refines_fifo [OF this] run show ?thesis by (auto simp: tsq_defs)
qed

text \<open>
  Further property (functional, termination): \<open>waitPop\<close> returns exactly when, at the call or at one
  of its wake-ups, the queue has a value or the stop predicate holds. It returns the oldest
  value of the queue it finds, and an empty optional only with the stop predicate true and the
  queue empty. A stop predicate that turns true is noticed only at a wake-up, and no method of
  the class but \<open>push\<close> gives one: without a further push the consumer stays blocked.
\<close>

theorem tsq_wait_pop_functional:
  "(tsq_wait_pop s wakes \<noteq> None \<longleftrightarrow> (\<exists>(q, stop) \<in> set (s # wakes). tsq_items q \<noteq> [] \<or> stop)) \<and>
   (\<forall>r q'. tsq_wait_pop s wakes = Some (r, q') \<longrightarrow>
      (\<exists>(q, stop) \<in> set (s # wakes). case r of
         None \<Rightarrow> stop \<and> tsq_empty q \<and> q' = q
       | Some v \<Rightarrow> tsq_items q = v # tsq_items q'))"
proof (intro conjI allI impI)
  have "(\<exists>x. cv_wait (\<lambda>(q, stop). tsq_items q \<noteq> [] \<or> stop) s wakes = Some x) \<longleftrightarrow>
      (\<exists>x \<in> set (s # wakes). case x of (q, stop) \<Rightarrow> tsq_items q \<noteq> [] \<or> stop)"
    by (rule cv_wait_returns)
  then show "tsq_wait_pop s wakes \<noteq> None \<longleftrightarrow>
      (\<exists>(q, stop) \<in> set (s # wakes). tsq_items q \<noteq> [] \<or> stop)"
    by (simp add: tsq_wait_pop_alt del: set_simps)
next
  fix r q'
  assume "tsq_wait_pop s wakes = Some (r, q')"
  then obtain q stop where cv: "cv_wait (\<lambda>(q, stop). tsq_items q \<noteq> [] \<or> stop) s wakes = Some (q, stop)"
    and pop: "tsq_try_pop q = (r, q')"
    by (auto simp: tsq_wait_pop_alt)
  from cv_wait_sound [OF cv] have ok: "tsq_items q \<noteq> [] \<or> stop" and mem: "(q, stop) \<in> set (s # wakes)"
    by simp_all
  from pop ok have "case r of None \<Rightarrow> stop \<and> tsq_empty q \<and> q' = q
      | Some v \<Rightarrow> tsq_items q = v # tsq_items q'"
    by (auto simp: tsq_try_pop_def tsq_empty_def split: list.splits)
  with mem show "\<exists>(q, stop) \<in> set (s # wakes). case r of
         None \<Rightarrow> stop \<and> tsq_empty q \<and> q' = q
       | Some v \<Rightarrow> tsq_items q = v # tsq_items q'"
    by blast
qed

theorem tsq_wait_pop_functional_witness:
  "tsq_wait_pop (tsq_new, False) [(tsq_new, False), (tsq_push (5 :: nat) tsq_new, False)] = Some (Some 5, tsq_new) \<and>
   tsq_wait_pop (tsq_new, False) [] = (None :: (nat option \<times> nat ThreadSafeQueue) option)"
proof -
  have "tsq_wait_pop (tsq_new, False) [] = (None :: (nat option \<times> nat ThreadSafeQueue) option)"
    using tsq_wait_pop_functional [of "(tsq_new :: nat ThreadSafeQueue, False)" "[]"]
    by (simp add: tsq_new_def not_Some_eq [symmetric])
  then show ?thesis
    by (simp add: tsq_wait_pop_def cv_wait.simps tsq_defs)
qed

end
