(* ===== verification/QueueKinds.thy ===== *)
theory QueueKinds
  imports RingBuffer MessageQueue ThreadSafeQueue
begin

text \<open>
  The three queue classes of the repository compared with one another. The locale \<open>fifo_pair\<close> has two
  providers of the queue interface, the second one unbounded; it is interpreted with the ring buffer
  and either of the two mutex queues.
\<close>

fun refused :: "'a qanswer \<Rightarrow> bool" where
  "refused (Rejected _) = True"
| "refused _ = False"

text \<open>As long as nothing is refused, a bound makes no difference.\<close>

lemma unrefused_run:
  "run_queue (aq_enq b) aq_deq ops xs = (as, ys) \<Longrightarrow> list_all (Not \<circ> refused) as \<Longrightarrow>
     run_queue (aq_enq None) aq_deq ops xs = (as, ys)"
proof (induction ops arbitrary: xs as)
  case (Cons op ops)
  show ?case
  proof (cases op)
    case (Enq x)
    from Cons.prems(1) [unfolded Enq] obtain ok xs1 as' where enq: "aq_enq b x xs = (ok, xs1)"
      and run: "run_queue (aq_enq b) aq_deq ops xs1 = (as', ys)"
      and as: "as = (if ok then Accepted x else Rejected x) # as'" by (rule run_queue_EnqE)
    with Cons.prems(2) have ok by (cases ok) simp_all
    with enq have "aq_enq None x xs = (True, xs1)" by (auto simp: aq_enq_def split: if_splits)
    with Cons.IH [OF run] Cons.prems(2) as \<open>ok\<close> Enq show ?thesis by simp
  next
    case Deq
    from Cons.prems(1) [unfolded Deq] obtain r xs1 as' where "aq_deq xs = (r, xs1)"
      and run: "run_queue (aq_enq b) aq_deq ops xs1 = (as', ys)"
      and "as = (case r of None \<Rightarrow> Nothing | Some x \<Rightarrow> Got x) # as'" by (rule run_queue_DeqE)
    with Cons.IH [OF run] Cons.prems(2) Deq show ?thesis by (simp split: option.splits)
  qed
qed simp

locale fifo_pair =
  a: fifo enqA deqA contentsA invA boundA + b: fifo enqB deqB contentsB invB boundB
  for enqA :: "'a \<Rightarrow> 'p \<Rightarrow> bool \<times> 'p" and deqA contentsA invA boundA
    and enqB :: "'a \<Rightarrow> 'q \<Rightarrow> bool \<times> 'q" and deqB contentsB invB boundB +
  assumes unbounded: "boundB q = None"
begin

lemma same_answers:
  assumes "invA p" and "invB q" and "contentsB q = contentsA p"
    and "run_queue enqA deqA ops p = (as, p')" and "list_all (Not \<circ> refused) as"
  shows "\<exists>q'. run_queue enqB deqB ops q = (as, q') \<and> contentsB q' = contentsA p'"
proof -
  obtain bs q' where b: "run_queue enqB deqB ops q = (bs, q')" by fastforce
  from unrefused_run [OF _ assms(5)] a.run_refines [OF assms(1,4)]
  have "run_queue (aq_enq None) aq_deq ops (contentsA p) = (as, contentsA p')" by blast
  with b.run_refines [OF assms(2) b] assms(3) unbounded [of q] b show ?thesis by simp
qed

end

interpretation ring_mq: fifo_pair rb_enq rb_deq rb_list rb_inv rb_bound mq_enq mq_try_pop mq_list mq_inv "\<lambda>_. None"
  by unfold_locales simp

interpretation ring_tsq: fifo_pair rb_enq rb_deq rb_list rb_inv rb_bound tsq_enq tsq_try_pop tsq_items "\<lambda>_. True" "\<lambda>_. None"
  by unfold_locales simp

subsection \<open>Properties\<close>

text \<open>
  Property C25 (equivalence): the three queues are interchangeable for one thread at a time. A sequence of
  pushes and pops in which an initialised ring buffer refuses nothing gets the same answers from
  a \<open>MessageQueue\<close> and from a \<open>ThreadSafeQueue\<close>, and leaves the same elements in all three.
\<close>

theorem queues_interchangeable:
  assumes "rb_init alloc_ok dflt cap rb0 = Inr (True, rb)"
    and "run_queue rb_enq rb_deq ops rb = (as, rb')" and "list_all (Not \<circ> refused) as"
  shows "\<exists>q t. run_queue mq_enq mq_try_pop ops mq_new = (as, q) \<and> mq_list q = rb_list rb' \<and>
    run_queue tsq_enq tsq_try_pop ops tsq_new = (as, t) \<and> tsq_items t = rb_list rb'"
proof -
  from rb_init_True [OF assms(1)] have inv: "rb_inv rb" and nil: "rb_list rb = []" by simp_all
  have "mq_inv mq_new" "mq_list mq_new = rb_list rb" "tsq_items tsq_new = rb_list rb"
    using nil by (simp_all add: mq_defs tsq_defs)
  with ring_mq.same_answers [OF inv _ _ assms(2,3), of mq_new]
    ring_tsq.same_answers [OF inv TrueI _ assms(2,3), of tsq_new] show ?thesis by blast
qed

theorem queues_interchangeable_witness:
  "\<exists>as q t. run_queue mq_enq mq_try_pop [Enq (1 :: nat), Deq, Enq 3, Deq, Deq] mq_new = (as, q) \<and>
     run_queue tsq_enq tsq_try_pop [Enq (1 :: nat), Deq, Enq 3, Deq, Deq] tsq_new = (as, t) \<and>
     as = [Accepted 1, Got 1, Accepted 3, Got 3, Nothing]"
proof -
  let ?ops = "[Enq (1 :: nat), Deq, Enq 3, Deq, Deq]" and ?as = "[Accepted 1, Got 1, Accepted 3, Got 3, Nothing]"
  obtain rb' as where run: "run_queue rb_enq rb_deq ?ops rb_two = (as, rb')"
    by (cases "run_queue rb_enq rb_deq ?ops rb_two") simp
  from rb_init_True [OF rb_init_two] have "rb_inv rb_two" "rb_list rb_two = []" "rb_bound rb_two = Some 1"
    by (simp_all add: rb_bound_def)
  with ring.run_refines [OF _ run] have "as = ?as" by (simp add: aq_enq_def)
  with run have "run_queue rb_enq rb_deq ?ops rb_two = (?as, rb')" by simp
  moreover have "list_all (Not \<circ> refused) ?as" by simp
  ultimately show ?thesis using queues_interchangeable [OF rb_init_two] by blast
qed

end
