(* ===== verification/Monitor.thy ===== *)
theory Monitor
  imports Prelude
begin

text \<open>
  What a class with one mutex and one condition variable owes, whatever it stores: the locale
  \<open>monitor\<close> has the points of its methods where another thread may run, and derives once how mutual
  exclusion, the wake-ups and the steps still owed develop when threads move between them.

  \<^item> \<open>holds\<close> are the points with the mutex held, \<open>asleep\<close> those in the wait set, \<open>woken\<close> where a sleeper
    goes when it is notified, \<open>entering\<close> and \<open>leaving\<close> where a thread goes when it gets the mutex and
    when it gives it back.
  \<^item> \<open>drives\<close> is 1 for a thread bound to test the condition or to notify; \<open>owed\<close> bounds its steps.
  \<^item> Threads are numbered; all but finitely many are \<open>idle\<close>.
\<close>

definition lock_ok :: "('pc \<Rightarrow> bool) \<Rightarrow> (nat \<Rightarrow> 'pc) \<Rightarrow> nat option \<Rightarrow> bool" where
  "lock_ok holds f l \<longleftrightarrow> (\<forall>t. holds (f t) \<longleftrightarrow> l = Some t)"

text \<open>While a thread sleeps, at least \<open>n\<close> threads are bound to test the condition or to notify.\<close>

definition wake_ok :: "('pc \<Rightarrow> bool) \<Rightarrow> ('pc \<Rightarrow> nat) \<Rightarrow> (nat \<Rightarrow> 'pc) \<Rightarrow> nat \<Rightarrow> bool" where
  "wake_ok asleep drives f n \<longleftrightarrow> ((\<exists>u. asleep (f u)) \<longrightarrow> n \<le> total_weight drives f)"

lemma wake_empty [simp]: "wake_ok asleep drives f 0"
  by (simp add: wake_ok_def)

locale monitor =
  fixes idle :: 'pc
    and holds :: "'pc \<Rightarrow> bool"
    and asleep :: "'pc \<Rightarrow> bool"
    and woken :: "'pc \<Rightarrow> 'pc"
    and drives :: "'pc \<Rightarrow> nat"
    and owed :: "'pc \<Rightarrow> nat"
    and entering :: "'pc \<Rightarrow> 'pc option"
    and leaving :: "'pc \<Rightarrow> 'pc option"
  assumes idle_laws: "\<not> holds idle" "\<not> asleep idle" "drives idle = 0" "owed idle = 0"
    and entering_laws: "entering pc = Some pc' \<Longrightarrow> \<not> holds pc \<and> holds pc' \<and> \<not> asleep pc \<and> \<not> asleep pc' \<and>
      drives pc \<le> drives pc' \<and> owed pc' < owed pc"
    and leaving_laws: "leaving pc = Some pc' \<Longrightarrow> holds pc \<and> \<not> holds pc' \<and> \<not> asleep pc \<and> \<not> asleep pc' \<and>
      drives pc \<le> drives pc' \<and> owed pc' < owed pc"
    and asleep_laws: "asleep pc \<Longrightarrow> \<not> holds pc \<and> drives pc = 0 \<and> owed pc = 0 \<and>
      \<not> holds (woken pc) \<and> \<not> asleep (woken pc) \<and> drives (woken pc) = 1"
begin

lemma lock_keep: "lock_ok holds f l \<Longrightarrow> holds (f t) = holds pc \<Longrightarrow> lock_ok holds (f(t := pc)) l"
  by (auto simp: lock_ok_def)

lemma lock_release: "lock_ok holds f l \<Longrightarrow> holds (f t) \<Longrightarrow> \<not> holds pc \<Longrightarrow> lock_ok holds (f(t := pc)) None"
  by (auto simp: lock_ok_def)

lemma lock_enter: "lock_ok holds f None \<Longrightarrow> entering (f t) = Some pc \<Longrightarrow> lock_ok holds (f(t := pc)) (Some t)"
  using entering_laws [of "f t" pc] by (auto simp: lock_ok_def)

lemma lock_leave: "lock_ok holds f l \<Longrightarrow> leaving (f t) = Some pc \<Longrightarrow> lock_ok holds (f(t := pc)) None"
  using leaving_laws [of "f t" pc] by (auto simp: lock_ok_def)

lemma lock_notify:
  assumes "lock_ok holds f l" and "\<not> holds (f t)" and "asleep (f u)" and "u \<noteq> t"
  shows "lock_ok holds (f(t := idle, u := woken (f u))) l"
  using assms asleep_laws [of "f u"] idle_laws by (auto simp: lock_ok_def)

lemma total_goto:
  assumes "finite {u. f u \<noteq> idle}" and "w idle = (0 :: nat)"
  shows "total_weight w (f(t := pc)) + w (f t) = total_weight w f + w pc"
proof -
  have "finite {u. w (f u) \<noteq> 0}" using assms by (auto intro: finite_subset [of _ "{u. f u \<noteq> idle}"])
  then show ?thesis by (rule total_fun_upd)
qed

lemma wake_step:
  assumes fin: "finite {u. f u \<noteq> idle}" and ok: "wake_ok asleep drives f n"
    and pc: "\<not> asleep pc" and n': "n' + drives (f t) \<le> n + drives pc"
  shows "wake_ok asleep drives (f(t := pc)) n'"
  using ok pc n' total_goto [where w = drives, OF fin idle_laws(3), of t pc]
  by (fastforce simp: wake_ok_def split: if_splits)

lemma wake_enter:
  "finite {u. f u \<noteq> idle} \<Longrightarrow> wake_ok asleep drives f n \<Longrightarrow> entering (f t) = Some pc \<Longrightarrow>
     wake_ok asleep drives (f(t := pc)) n"
  using entering_laws [of "f t" pc] by (auto intro: wake_step)

lemma wake_leave:
  "finite {u. f u \<noteq> idle} \<Longrightarrow> wake_ok asleep drives f n \<Longrightarrow> leaving (f t) = Some pc \<Longrightarrow>
     wake_ok asleep drives (f(t := pc)) n"
  using leaving_laws [of "f t" pc] by (auto intro: wake_step)

lemma wake_wakes:
  "finite {u. f u \<noteq> idle} \<Longrightarrow> wake_ok asleep drives f n \<Longrightarrow> asleep (f t) \<Longrightarrow>
     wake_ok asleep drives (f(t := woken (f t))) n"
  using asleep_laws [of "f t"] by (intro wake_step [of f n]) auto

text \<open>A notification hands the duty of the notifier to the thread it wakes.\<close>

lemma total_notify:
  assumes fin: "finite {v. f v \<noteq> idle}" and "w idle = (0 :: nat)" and "u \<noteq> t"
  shows "total_weight w (f(t := idle, u := pc)) + w (f t) + w (f u) = total_weight w f + w pc"
proof -
  define g where "g = f(t := idle)"
  have "finite {v. g v \<noteq> idle}" unfolding g_def by (rule finite_subset [OF _ fin]) auto
  from total_goto [where w = w, OF this assms(2), of u pc]
  have "total_weight w (g(u := pc)) + w (g u) = total_weight w g + w pc" .
  moreover have "g u = f u" using assms(3) by (simp add: g_def)
  moreover have "total_weight w g + w (f t) = total_weight w f"
    using total_goto [where w = w, OF fin assms(2), of t idle] assms(2) by (simp add: g_def)
  ultimately show ?thesis unfolding g_def [symmetric] by simp
qed

lemma wake_notify:
  assumes "finite {v. f v \<noteq> idle}" and "wake_ok asleep drives f n" and "asleep (f u)" and "u \<noteq> t"
    and "drives (f t) \<le> 1"
  shows "wake_ok asleep drives (f(t := idle, u := woken (f u))) n"
  using assms total_notify [where w = drives, OF assms(1) idle_laws(3) assms(4), of "woken (f u)"] asleep_laws [OF assms(3)]
  by (auto simp: wake_ok_def)

text \<open>If nobody sleeps, no wake-up is due.\<close>

lemma wake_nobody: "\<forall>u. \<not> asleep (f u) \<Longrightarrow> \<not> asleep pc \<Longrightarrow> wake_ok asleep drives (f(t := pc)) n"
  by (auto simp: wake_ok_def)

lemma owed_step:
  assumes "finite {u. f u \<noteq> idle}" and "owed pc < owed (f t)"
  shows "total_weight owed (f(t := pc)) < total_weight owed f"
  using total_goto [where w = owed, OF assms(1) idle_laws(4), of t pc] assms(2) by linarith

lemma owed_enter:
  "finite {u. f u \<noteq> idle} \<Longrightarrow> entering (f t) = Some pc \<Longrightarrow> total_weight owed (f(t := pc)) < total_weight owed f"
  using entering_laws [of "f t" pc] by (intro owed_step) auto

lemma owed_leave:
  "finite {u. f u \<noteq> idle} \<Longrightarrow> leaving (f t) = Some pc \<Longrightarrow> total_weight owed (f(t := pc)) < total_weight owed f"
  using leaving_laws [of "f t" pc] by (intro owed_step) auto

lemma owed_notify:
  assumes "finite {v. f v \<noteq> idle}" and "asleep (f u)" and "u \<noteq> t" and "owed (woken (f u)) < owed (f t)"
  shows "total_weight owed (f(t := idle, u := woken (f u))) < total_weight owed f"
  using total_notify [where w = owed, OF assms(1) idle_laws(4) assms(3), of "woken (f u)"] asleep_laws [OF assms(2)] assms(4)
  by linarith

text \<open>Nobody sleeps with a wake-up due when every thread is idle or asleep.\<close>

lemma settled_wake:
  assumes "wake_ok asleep drives f n" and "\<forall>t. f t = idle \<or> asleep (f t)" and "asleep (f u)"
  shows "n = 0"
proof -
  have "drives (f t) = 0" for t using assms(2) idle_laws(3) asleep_laws by metis
  then have "total_weight drives f = 0" by (simp add: total_weight_def)
  with assms(1,3) show ?thesis by (auto simp: wake_ok_def)
qed

end

end
