(* ===== verification/MessageMonitor.thy ===== *)
theory MessageMonitor
  imports MessageQueue Monitor
begin

text \<open>
  The methods of \<open>messaging::MessageQueue\<close> run by any number of threads: the mutex, the
  condition variable and its wait set are explicit, and a step of \<open>mo_run\<close> is one thread
  between two points where another may run.

  \<^item> \<open>mo_pc\<close> says where each thread is. \<open>Sleeping\<close> is the wait set of the condition variable, and
    \<open>Waking\<close> has left it and asks for the mutex. \<open>WaitFor True\<close> is a timed wait that has expired.
  \<^item> \<open>mo_env\<close> is what the outside does: a thread calls a method, a timeout expires, a sleeper wakes
    spuriously.
  \<^item> The ghost fields record the elements pushed, removed and delivered, in order.

  The invariants are proved one clause at a time, and \<open>mo_measure\<close> counts the steps the running
  threads still owe.
\<close>

datatype pop_kind = Try | Wait | WaitFor bool

datatype 'm mo_pc =
    Idle
  | PushEnter "'m option" | PushIn "'m option" | PushLeave | PushNotify
  | PopEnter pop_kind | PopTest pop_kind | Sleeping pop_kind | Waking pop_kind | PopLeave "'m option"
  | ClearEnter | ClearIn | ClearLeave
  | EmptyEnter | EmptyIn | EmptyLeave bool

record 'm monitor =
  mo_object :: "'m MessageQueue"
  mo_lock :: "nat option"
  mo_pcs :: "nat \<Rightarrow> 'm mo_pc"
  mo_pushed :: "'m option list"
  mo_removed :: "'m option list"
  mo_delivered :: "'m option list"
  mo_cleared :: bool

definition mo_start :: "'m monitor" where
  "mo_start = \<lparr>mo_object = mq_new, mo_lock = None, mo_pcs = \<lambda>_. Idle, mo_pushed = [],
     mo_removed = [], mo_delivered = [], mo_cleared = False\<rparr>"

abbreviation mo_goto :: "nat \<Rightarrow> 'm mo_pc \<Rightarrow> 'm monitor \<Rightarrow> 'm monitor" where
  "mo_goto t pc s \<equiv> s\<lparr>mo_pcs := (mo_pcs s)(t := pc)\<rparr>"

abbreviation mo_items :: "'m monitor \<Rightarrow> 'm option list" where
  "mo_items s \<equiv> m_queue (mo_object s)"

text \<open>Where a thread goes when it gets the mutex, and when it gives it back.\<close>

fun entering :: "'m mo_pc \<Rightarrow> 'm mo_pc option" where
  "entering (PushEnter m) = Some (PushIn m)"
| "entering (PopEnter k) = Some (PopTest k)"
| "entering (Waking k) = Some (PopTest k)"
| "entering ClearEnter = Some ClearIn"
| "entering EmptyEnter = Some EmptyIn"
| "entering _ = None"

fun leaving :: "'m mo_pc \<Rightarrow> 'm mo_pc option" where
  "leaving PushLeave = Some PushNotify"
| "leaving (PopLeave _) = Some Idle"
| "leaving ClearLeave = Some Idle"
| "leaving (EmptyLeave _) = Some Idle"
| "leaving _ = None"

fun starting :: "'m mo_pc \<Rightarrow> bool" where
  "starting (PushEnter _) = True"
| "starting (PopEnter k) = (k \<noteq> WaitFor True)"
| "starting ClearEnter = True"
| "starting EmptyEnter = True"
| "starting _ = False"

fun asleep :: "'m mo_pc \<Rightarrow> bool" where
  "asleep (Sleeping _) = True"
| "asleep _ = False"

fun woken :: "'m mo_pc \<Rightarrow> 'm mo_pc" where
  "woken (Sleeping k) = Waking k"
| "woken pc = pc"

fun expired :: "'m mo_pc \<Rightarrow> 'm mo_pc" where
  "expired (Sleeping (WaitFor _)) = Waking (WaitFor True)"
| "expired pc = pc"

inductive mo_run :: "nat \<Rightarrow> 'm monitor \<Rightarrow> 'm monitor \<Rightarrow> bool" where
  run_lock: "mo_lock s = None \<Longrightarrow> entering (mo_pcs s t) = Some pc \<Longrightarrow>
    mo_run t s (mo_goto t pc s\<lparr>mo_lock := Some t\<rparr>)"
| run_unlock: "leaving (mo_pcs s t) = Some pc \<Longrightarrow>
    mo_run t s (mo_goto t pc s\<lparr>mo_lock := None\<rparr>)"
| run_push: "mo_pcs s t = PushIn m \<Longrightarrow>
    mo_run t s (mo_goto t PushLeave s\<lparr>mo_object := mq_push_ptr m (mo_object s),
      mo_pushed := mo_pushed s @ [m]\<rparr>)"
| run_pop: "mo_pcs s t = PopTest k \<Longrightarrow> k = Try \<or> mo_items s \<noteq> [] \<Longrightarrow>
    mq_pop (mo_object s) = (r, q) \<Longrightarrow>
    mo_run t s (mo_goto t (PopLeave r) s\<lparr>mo_object := q,
      mo_removed := mo_removed s @ take 1 (mo_items s),
      mo_delivered := mo_delivered s @ take 1 (mo_items s)\<rparr>)"
| run_give_up: "mo_pcs s t = PopTest (WaitFor True) \<Longrightarrow> mo_items s = [] \<Longrightarrow>
    mo_run t s (mo_goto t (PopLeave None) s)"
| run_sleep: "mo_pcs s t = PopTest k \<Longrightarrow> k = Wait \<or> k = WaitFor False \<Longrightarrow> mo_items s = [] \<Longrightarrow>
    mo_run t s (mo_goto t (Sleeping k) s\<lparr>mo_lock := None\<rparr>)"
| run_notify_one: "mo_pcs s t = PushNotify \<Longrightarrow> asleep (mo_pcs s u) \<Longrightarrow>
    mo_run t s (mo_goto u (woken (mo_pcs s u)) (mo_goto t Idle s))"
| run_notify_nobody: "mo_pcs s t = PushNotify \<Longrightarrow> \<forall>u. \<not> asleep (mo_pcs s u) \<Longrightarrow>
    mo_run t s (mo_goto t Idle s)"
| run_clear: "mo_pcs s t = ClearIn \<Longrightarrow>
    mo_run t s (mo_goto t ClearLeave s\<lparr>mo_object := mq_clear (mo_object s),
      mo_removed := mo_removed s @ mo_items s, mo_cleared := True\<rparr>)"
| run_empty: "mo_pcs s t = EmptyIn \<Longrightarrow>
    mo_run t s (mo_goto t (EmptyLeave (mq_empty (mo_object s))) s)"

inductive mo_env :: "nat \<Rightarrow> 'm monitor \<Rightarrow> 'm monitor \<Rightarrow> bool" where
  env_call: "mo_pcs s t = Idle \<Longrightarrow> starting pc \<Longrightarrow> mo_env t s (mo_goto t pc s)"
| env_timeout: "mo_pcs s t = Sleeping (WaitFor False) \<Longrightarrow> mo_env t s (mo_goto t (expired (mo_pcs s t)) s)"
| env_spurious: "asleep (mo_pcs s t) \<Longrightarrow> mo_env t s (mo_goto t (woken (mo_pcs s t)) s)"

inductive mo_reach :: "'m monitor \<Rightarrow> bool" where
  reach_start: "mo_reach mo_start"
| reach_run: "mo_reach s \<Longrightarrow> mo_run t s s' \<Longrightarrow> mo_reach s'"
| reach_env: "mo_reach s \<Longrightarrow> mo_env t s s' \<Longrightarrow> mo_reach s'"

inductive_cases mo_runE: "mo_run t s s'"
inductive_cases mo_envE: "mo_env t s s'"

lemma asleepE: "asleep pc \<Longrightarrow> (\<And>k. pc = Sleeping k \<Longrightarrow> P) \<Longrightarrow> P"
  by (cases pc) auto

lemma reach_induct [consumes 1, case_names start run env]:
  assumes "mo_reach s" and "P mo_start"
    and "\<And>s t s'. P s \<Longrightarrow> mo_run t s s' \<Longrightarrow> P s'"
    and "\<And>s t s'. P s \<Longrightarrow> mo_env t s s' \<Longrightarrow> P s'"
  shows "P s"
  using assms(1) by induction (auto intro: assms(2-4))

subsection \<open>The points of the methods\<close>

fun holds :: "'m mo_pc \<Rightarrow> bool" where
  "holds (PushIn _) = True"
| "holds PushLeave = True"
| "holds (PopTest _) = True"
| "holds (PopLeave _) = True"
| "holds ClearIn = True"
| "holds ClearLeave = True"
| "holds EmptyIn = True"
| "holds (EmptyLeave _) = True"
| "holds _ = False"

text \<open>A driver is a thread bound to test the queue, or to wake a thread that will.\<close>

fun drives :: "'m mo_pc \<Rightarrow> nat" where
  "drives PushLeave = 1"
| "drives PushNotify = 1"
| "drives (PopTest _) = 1"
| "drives (Waking _) = 1"
| "drives _ = 0"

fun steps_owed :: "'m mo_pc \<Rightarrow> nat" where
  "steps_owed (PushEnter _) = 7"
| "steps_owed (PushIn _) = 6"
| "steps_owed PushLeave = 5"
| "steps_owed PushNotify = 4"
| "steps_owed (PopEnter _) = 3"
| "steps_owed (Waking _) = 3"
| "steps_owed (PopTest _) = 2"
| "steps_owed (PopLeave _) = 1"
| "steps_owed ClearEnter = 3"
| "steps_owed ClearIn = 2"
| "steps_owed ClearLeave = 1"
| "steps_owed EmptyEnter = 3"
| "steps_owed EmptyIn = 2"
| "steps_owed (EmptyLeave _) = 1"
| "steps_owed _ = 0"

text \<open>These points obey the laws of a monitor.\<close>

interpretation mo: monitor Idle holds asleep woken drives steps_owed entering leaving
proof unfold_locales
  show "\<not> holds pc \<and> holds pc' \<and> \<not> asleep pc \<and> \<not> asleep pc' \<and> drives pc \<le> drives pc' \<and>
      steps_owed pc' < steps_owed pc"
    if "entering pc = Some pc'" for pc pc' :: "'m mo_pc" using that by (cases pc) auto
  show "holds pc \<and> \<not> holds pc' \<and> \<not> asleep pc \<and> \<not> asleep pc' \<and> drives pc \<le> drives pc' \<and>
      steps_owed pc' < steps_owed pc"
    if "leaving pc = Some pc'" for pc pc' :: "'m mo_pc" using that by (cases pc) auto
  show "\<not> holds pc \<and> drives pc = 0 \<and> steps_owed pc = 0 \<and> \<not> holds (woken pc) \<and> \<not> asleep (woken pc) \<and>
      drives (woken pc) = 1"
    if "asleep pc" for pc :: "'m mo_pc" using that by (cases pc) auto
qed simp_all

lemma starting_ready: "starting pc \<Longrightarrow> \<not> holds pc \<and> \<not> asleep pc"
  by (cases pc) auto

lemma expired_same [simp]: "holds (expired pc) = holds pc"
  by (induct pc rule: expired.induct) simp_all

lemma asleep_not_idle: "asleep pc \<Longrightarrow> pc \<noteq> Idle \<and> pc \<noteq> PushNotify"
  by (cases pc) auto

lemma asleep_owed: "asleep pc \<Longrightarrow> steps_owed (woken pc) = 3"
  by (cases pc) auto

subsection \<open>Mutual exclusion, contents and wake-ups\<close>

abbreviation inv_lock :: "'m monitor \<Rightarrow> bool" where
  "inv_lock s \<equiv> lock_ok holds (mo_pcs s) (mo_lock s)"

abbreviation inv_wake :: "'m monitor \<Rightarrow> bool" where
  "inv_wake s \<equiv> wake_ok asleep drives (mo_pcs s) (length (mo_items s))"

definition mo_measure :: "'m monitor \<Rightarrow> nat" where
  "mo_measure s = total_weight steps_owed (mo_pcs s)"

definition inv_items :: "'m monitor \<Rightarrow> bool" where
  "inv_items s \<longleftrightarrow> mo_pushed s = mo_removed s @ mo_items s \<and>
     subseq (mo_delivered s) (mo_removed s) \<and> (\<not> mo_cleared s \<longrightarrow> mo_delivered s = mo_removed s)"

definition inv_finite :: "'m monitor \<Rightarrow> bool" where
  "inv_finite s \<longleftrightarrow> finite {t. mo_pcs s t \<noteq> Idle}"

lemma notified_other: "mo_pcs s t = PushNotify \<Longrightarrow> asleep (mo_pcs s u) \<Longrightarrow> u \<noteq> t"
  by auto

lemma inv_lock_run: "inv_lock s \<Longrightarrow> mo_run t s s' \<Longrightarrow> inv_lock s'"
proof (erule mo_runE, goal_cases)
  case (7 u)
  then show ?case using mo.lock_notify [OF 7(1), of t u] notified_other [OF 7(3,4)] by simp
qed (auto intro: mo.lock_enter mo.lock_leave mo.lock_keep mo.lock_release)

lemma inv_lock_env: "inv_lock s \<Longrightarrow> mo_env t s s' \<Longrightarrow> inv_lock s'"
  by (erule mo_envE) (auto intro!: mo.lock_keep dest: starting_ready mo.asleep_laws)

lemma mq_pop_items: "mq_pop q = (r, q') \<Longrightarrow> m_queue q = take 1 (m_queue q) @ m_queue q'"
  by (auto simp: mq_pop_def split: list.splits)

lemma inv_items_run: "inv_items s \<Longrightarrow> mo_run t s s' \<Longrightarrow> inv_items s'"
  by (erule mo_runE; unfold inv_items_def)
    (auto simp: mq_push_ptr_def mq_clear_def dest: mq_pop_items intro: subseq_order.trans)

lemma inv_items_env: "inv_items s \<Longrightarrow> mo_env t s s' \<Longrightarrow> inv_items s'"
  by (erule mo_envE; unfold inv_items_def) auto

lemma inv_finite_run: "inv_finite s \<Longrightarrow> mo_run t s s' \<Longrightarrow> inv_finite s'"
  by (erule mo_runE; unfold inv_finite_def) (auto intro!: finite_fun_upd simp del: fun_upd_apply)

lemma inv_finite_env: "inv_finite s \<Longrightarrow> mo_env t s s' \<Longrightarrow> inv_finite s'"
  by (erule mo_envE; unfold inv_finite_def) (auto intro!: finite_fun_upd simp del: fun_upd_apply)

lemma inv_wake_run: "inv_finite s \<Longrightarrow> inv_wake s \<Longrightarrow> mo_run t s s' \<Longrightarrow> inv_wake s'"
  unfolding inv_finite_def
proof (erule mo_runE, goal_cases)
  case (1 pc)
  then show ?case by (simp add: mo.wake_enter)
next
  case (2 pc)
  then show ?case by (simp add: mo.wake_leave)
next
  case (3 m)
  then show ?case by (auto simp: mq_push_ptr_def intro!: mo.wake_step)
next
  case (4 k r q)
  then show ?case
    by (cases "mo_items s") (auto simp: mq_pop_def intro!: mo.wake_step)
next
  case (7 u)
  then show ?case using mo.wake_notify [OF 7(1,2), of u t] notified_other [OF 7(4,5)] by simp
next
  case 8
  then show ?case by (simp add: mo.wake_nobody)
qed (auto simp: mq_clear_def intro!: mo.wake_step)

lemma inv_wake_env: "inv_finite s \<Longrightarrow> inv_wake s \<Longrightarrow> mo_env t s s' \<Longrightarrow> inv_wake s'"
  unfolding inv_finite_def
  by (erule mo_envE) (auto intro!: mo.wake_step dest: starting_ready mo.asleep_laws)

lemma reach_invariants: "mo_reach s \<Longrightarrow> inv_lock s \<and> inv_items s \<and> inv_finite s \<and> inv_wake s"
proof (induction rule: reach_induct)
  case start
  show ?case
    by (simp add: mo_start_def lock_ok_def inv_items_def inv_finite_def mq_new_def)
next
  case (run s t s')
  then show ?case using inv_lock_run inv_items_run inv_finite_run inv_wake_run by blast
next
  case (env s t s')
  then show ?case using inv_lock_env inv_items_env inv_finite_env inv_wake_env by blast
qed

subsection \<open>Progress\<close>

inductive mo_runs :: "nat \<Rightarrow> 'm monitor \<Rightarrow> 'm monitor \<Rightarrow> bool" where
  runs_none: "mo_runs 0 s s"
| runs_step: "mo_run t s s1 \<Longrightarrow> mo_runs n s1 s2 \<Longrightarrow> mo_runs (Suc n) s s2"

lemma reach_runs: "mo_runs n s s' \<Longrightarrow> mo_reach s \<Longrightarrow> mo_reach s'"
  by (induction rule: mo_runs.induct) (auto intro: reach_run)

lemma run_decreases: "inv_finite s \<Longrightarrow> mo_run t s s' \<Longrightarrow> mo_measure s' < mo_measure s"
  unfolding inv_finite_def mo_measure_def
proof (erule mo_runE, goal_cases)
  case (7 u)
  then show ?case
    using mo.owed_notify [OF 7(1), of u t] asleep_owed [of "mo_pcs s u"] notified_other [OF 7(3,4)] by simp
qed (auto intro: mo.owed_enter mo.owed_leave mo.owed_step simp del: fun_upd_apply)

text \<open>A thread that is neither idle nor asleep, or the owner of the mutex, can take a step.\<close>

lemma holder_runs:
  assumes "holds (mo_pcs s t)"
  shows "\<exists>s'. mo_run t s s'"
proof (cases "mo_pcs s t")
  case (PopTest k)
  obtain r q where pop: "mq_pop (mo_object s) = (r, q)" by fastforce
  show ?thesis
  proof (cases "k = Try \<or> mo_items s \<noteq> []")
    case True
    from run_pop [OF PopTest this pop] show ?thesis by blast
  next
    case False
    then have nil: "mo_items s = []" and "k = WaitFor True \<or> k = Wait \<or> k = WaitFor False"
      by (cases k; simp)+
    then show ?thesis using run_sleep [OF PopTest _ nil] run_give_up [OF _ nil, of t] PopTest by blast
  qed
qed (use assms run_unlock [of s t] in \<open>auto intro: run_push run_clear run_empty\<close>)

lemma progress:
  assumes "mo_reach s" and "mo_pcs s t \<noteq> Idle" and "\<not> asleep (mo_pcs s t)"
  shows "\<exists>u s'. mo_run u s s'"
proof (cases "mo_lock s")
  case (Some u)
  with reach_invariants [OF assms(1)] have "holds (mo_pcs s u)" by (simp add: lock_ok_def)
  then show ?thesis using holder_runs by blast
next
  case None
  have "holds (mo_pcs s t) \<or> mo_pcs s t = PushNotify \<or> (\<exists>pc. entering (mo_pcs s t) = Some pc)"
    using assms(2,3) by (cases "mo_pcs s t") auto
  then show ?thesis
    using holder_runs run_lock [OF None] run_notify_one [of s t] run_notify_nobody [of s t] by metis
qed

subsection \<open>Properties\<close>

text \<open>
  Property C4 (safety): whatever the threads do and however they interleave, at most one thread
  is inside a critical section; the elements pushed are, in order, those removed followed by
  those still queued; the elements delivered to consumers are a subsequence of those removed,
  and all of them unless \<open>clear\<close> was called. No element is lost, duplicated or overtaken.
\<close>

theorem monitor_exclusive_fifo:
  assumes "mo_reach s"
  shows "(\<forall>t u. holds (mo_pcs s t) \<and> holds (mo_pcs s u) \<longrightarrow> t = u) \<and>
    mo_pushed s = mo_removed s @ m_queue (mo_object s) \<and>
    subseq (mo_delivered s) (mo_removed s) \<and>
    (\<not> mo_cleared s \<longrightarrow> mo_delivered s = mo_removed s)"
  using reach_invariants [OF assms] by (auto simp: lock_ok_def inv_items_def)

text \<open>A run for the examples: thread 1 waits, thread 0 pushes and wakes it.\<close>

definition mo_sleeper :: "nat monitor" where
  "mo_sleeper = mo_start\<lparr>mo_pcs := (\<lambda>_. Idle)(1 := Sleeping Wait)\<rparr>"

definition mo_pushing :: "nat mo_pc \<Rightarrow> nat monitor" where
  "mo_pushing pc = mo_sleeper\<lparr>mo_object := \<lparr>m_queue = [Some 8]\<rparr>, mo_pushed := [Some 8],
     mo_lock := (if pc = PushLeave then Some 0 else None),
     mo_pcs := (\<lambda>_. Idle)(1 := Sleeping Wait, 0 := pc)\<rparr>"

lemmas mo_example_defs = mo_sleeper_def mo_pushing_def mo_start_def mq_new_def mq_push_ptr_def

lemma reach_sleeper: "mo_reach mo_sleeper"
proof -
  let ?s1 = "mo_goto 1 (PopEnter Wait) (mo_start :: nat monitor)"
  let ?s2 = "mo_goto 1 (PopTest Wait) ?s1\<lparr>mo_lock := Some 1\<rparr>"
  have "mo_reach ?s1"
    by (rule reach_env [OF reach_start env_call]) (simp_all add: mo_start_def)
  then have "mo_reach ?s2"
    by (rule reach_run) (rule run_lock, simp_all add: mo_start_def)
  then have "mo_reach (mo_goto 1 (Sleeping Wait) ?s2\<lparr>mo_lock := None\<rparr>)"
    by (rule reach_run) (rule run_sleep, simp_all add: mo_start_def mq_new_def)
  then show ?thesis by (simp add: mo_example_defs)
qed

lemma reach_pushing: "mo_reach (mo_pushing PushLeave)"
proof -
  let ?s1 = "mo_goto 0 (PushEnter (Some 8)) mo_sleeper"
  let ?s2 = "mo_goto 0 (PushIn (Some 8)) ?s1\<lparr>mo_lock := Some 0\<rparr>"
  have "mo_reach ?s1"
    by (rule reach_env [OF reach_sleeper env_call]) (simp_all add: mo_example_defs)
  then have "mo_reach ?s2"
    by (rule reach_run) (rule run_lock, simp_all add: mo_example_defs)
  then have "mo_reach (mo_goto 0 PushLeave ?s2\<lparr>mo_object := mq_push_ptr (Some 8) (mo_object ?s2),
      mo_pushed := mo_pushed ?s2 @ [Some 8]\<rparr>)"
    by (rule reach_run) (rule run_push, simp_all)
  then show ?thesis by (simp add: mo_example_defs)
qed

lemma pushing_unlocks: "mo_run 0 (mo_pushing PushLeave) (mo_pushing PushNotify)"
proof -
  have "mo_run 0 (mo_pushing PushLeave) (mo_goto 0 PushNotify (mo_pushing PushLeave)\<lparr>mo_lock := None\<rparr>)"
    by (rule run_unlock) (simp add: mo_pushing_def)
  then show ?thesis by (simp add: mo_example_defs)
qed

lemma reach_notifying: "mo_reach (mo_pushing PushNotify)"
  using reach_pushing pushing_unlocks by (rule reach_run)

theorem monitor_exclusive_fifo_witness:
  "mo_pushed (mo_pushing PushLeave) = [Some 8] \<and>
   mo_pushed (mo_pushing PushLeave) =
     mo_removed (mo_pushing PushLeave) @ m_queue (mo_object (mo_pushing PushLeave))"
  using monitor_exclusive_fifo [OF reach_pushing] by (simp add: mo_pushing_def)

text \<open>
  Property C7 (liveness): no wake-up is lost. While a consumer sleeps, there are at least as many
  threads bound to test the queue, or to notify a thread that will, as there are elements in
  the queue.
\<close>

theorem monitor_no_lost_wakeup:
  assumes "mo_reach s" and "asleep (mo_pcs s t)"
  shows "length (m_queue (mo_object s)) \<le> total_weight drives (mo_pcs s)"
  using reach_invariants [OF assms(1)] assms(2) by (auto simp: wake_ok_def)

theorem monitor_no_lost_wakeup_witness:
  "length (m_queue (mo_object (mo_pushing PushLeave))) = 1 \<and>
   1 \<le> total_weight drives (mo_pcs (mo_pushing PushLeave))"
  using monitor_no_lost_wakeup [OF reach_pushing, of 1] by (simp add: mo_pushing_def)

text \<open>
  Property C8 (termination, liveness): the threads in progress cannot block one another. From
  every reachable state, every schedule of them ends after at most \<open>mo_measure s\<close> steps as long
  as no method is called, no timeout expires and nobody wakes spuriously; and when no step is
  left, every thread has returned or sleeps in a wait, and nobody sleeps unless the queue is
  empty.
\<close>

theorem monitor_quiescence:
  assumes "mo_reach s" and "mo_runs n s s'"
  shows "n + mo_measure s' \<le> mo_measure s \<and>
    ((\<nexists>u s''. mo_run u s' s'') \<longrightarrow>
       (\<forall>t. mo_pcs s' t = Idle \<or> asleep (mo_pcs s' t)) \<and>
       (m_queue (mo_object s') = [] \<or> (\<forall>t. \<not> asleep (mo_pcs s' t))))"
proof (intro conjI impI)
  show "n + mo_measure s' \<le> mo_measure s"
    using assms(2,1)
  proof (induction rule: mo_runs.induct)
    case (runs_step t s s1 n s2)
    have "mo_measure s1 < mo_measure s"
      using reach_invariants [OF runs_step.prems] runs_step.hyps(1) by (auto intro: run_decreases)
    moreover have "n + mo_measure s2 \<le> mo_measure s1"
      using runs_step.IH reach_run [OF runs_step.prems runs_step.hyps(1)] by blast
    ultimately show ?case by linarith
  qed simp
next
  assume stuck: "\<nexists>u s''. mo_run u s' s''"
  have reach: "mo_reach s'" using assms(2,1) by (rule reach_runs)
  show settled: "\<forall>t. mo_pcs s' t = Idle \<or> asleep (mo_pcs s' t)"
    using progress [OF reach] stuck by blast
  show "m_queue (mo_object s') = [] \<or> (\<forall>t. \<not> asleep (mo_pcs s' t))"
    using mo.settled_wake [OF _ settled] reach_invariants [OF reach] by auto
qed

theorem monitor_quiescence_witness:
  "1 + mo_measure (mo_pushing PushNotify) \<le> mo_measure (mo_pushing PushLeave)"
proof -
  have "mo_runs (Suc 0) (mo_pushing PushLeave) (mo_pushing PushNotify)"
    using runs_step [OF pushing_unlocks runs_none] .
  from monitor_quiescence [OF reach_pushing this] show ?thesis by simp
qed

text \<open>
  Further property (safety): only the notification of a \<open>push\<close> takes a thread out of the wait set,
  and one push takes out at most one, however many threads wait: a push does not wake all
  waiters.
\<close>

theorem monitor_push_wakes_one:
  assumes "mo_run t s s'" and "asleep (mo_pcs s u)" and "\<not> asleep (mo_pcs s' u)"
  shows "mo_pcs s t = PushNotify \<and> (\<forall>v. v \<noteq> u \<longrightarrow> asleep (mo_pcs s v) \<longrightarrow> asleep (mo_pcs s' v))"
  using assms
proof (cases rule: mo_run.cases)
  case (run_notify_one w)
  then show ?thesis using assms(2,3) by (auto split: if_splits)
qed (auto split: if_splits dest: mo.entering_laws mo.leaving_laws)

theorem monitor_push_wakes_one_witness:
  "\<exists>s'. mo_run 0 (mo_pushing PushNotify) s' \<and> \<not> asleep (mo_pcs s' 1) \<and>
     mo_pcs (mo_pushing PushNotify) 0 = PushNotify"
proof -
  let ?s = "mo_pushing PushNotify"
  have run: "mo_run 0 ?s (mo_goto 1 (woken (mo_pcs ?s 1)) (mo_goto 0 Idle ?s))"
    by (rule run_notify_one) (simp_all add: mo_pushing_def)
  have "asleep (mo_pcs ?s 1)"
    and woke: "\<not> asleep (mo_pcs (mo_goto 1 (woken (mo_pcs ?s 1)) (mo_goto 0 Idle ?s)) 1)"
    by (simp_all add: mo_pushing_def)
  from monitor_push_wakes_one [OF run this] run woke show ?thesis by blast
qed

end
