(* ===== verification/TsqMonitor.thy ===== *)
theory TsqMonitor
  imports ThreadSafeQueue Monitor
begin

text \<open>
  The methods of \<open>ThreadSafeQueue\<close> (\<open>src/include/threading/threadSafeQueue.hpp\<close>) run by any number of
  threads, cut where another thread may run, with the mutex and the wait set of the condition
  variable explicit.

  \<^item> A consumer is in \<open>tryPop\<close> (\<open>TestItems False\<close>) or in \<open>waitPop\<close> (\<open>TestItems True\<close>), which sleeps
    while the queue is empty and its stop predicate false.
  \<^item> The stop predicate of the call of thread \<open>t\<close> answers \<open>tq_stop s t\<close> when it is evaluated; the
    outside may change it at any time.
\<close>

datatype 'a tq_pc =
    TqIdle
  | TqPushEnter 'a | TqPushIn 'a | TqPushLeave | TqPushNotify
  | TqPopEnter bool | TestItems bool | TqSleeping | TqWaking | TqPopLeave "'a option"
  | TqEmptyEnter | TqEmptyIn | TqEmptyLeave bool

record 'a tq_monitor =
  tq_object :: "'a ThreadSafeQueue"
  tq_lock :: "nat option"
  tq_pcs :: "nat \<Rightarrow> 'a tq_pc"
  tq_stop :: "nat \<Rightarrow> bool"
  tq_pushed :: "'a list"
  tq_popped :: "'a list"

definition tq_start :: "'a tq_monitor" where
  "tq_start = \<lparr>tq_object = tsq_new, tq_lock = None, tq_pcs = \<lambda>_. TqIdle, tq_stop = \<lambda>_. False,
     tq_pushed = [], tq_popped = []\<rparr>"

abbreviation tq_goto :: "nat \<Rightarrow> 'a tq_pc \<Rightarrow> 'a tq_monitor \<Rightarrow> 'a tq_monitor" where
  "tq_goto t pc s \<equiv> s\<lparr>tq_pcs := (tq_pcs s)(t := pc)\<rparr>"

abbreviation tq_items :: "'a tq_monitor \<Rightarrow> 'a list" where
  "tq_items s \<equiv> tsq_items (tq_object s)"

fun tq_entering :: "'a tq_pc \<Rightarrow> 'a tq_pc option" where
  "tq_entering (TqPushEnter x) = Some (TqPushIn x)"
| "tq_entering (TqPopEnter wait) = Some (TestItems wait)"
| "tq_entering TqWaking = Some (TestItems True)"
| "tq_entering TqEmptyEnter = Some TqEmptyIn"
| "tq_entering _ = None"

fun tq_leaving :: "'a tq_pc \<Rightarrow> 'a tq_pc option" where
  "tq_leaving TqPushLeave = Some TqPushNotify"
| "tq_leaving (TqPopLeave _) = Some TqIdle"
| "tq_leaving (TqEmptyLeave _) = Some TqIdle"
| "tq_leaving _ = None"

fun tq_starting :: "'a tq_pc \<Rightarrow> bool" where
  "tq_starting (TqPushEnter _) = True"
| "tq_starting (TqPopEnter _) = True"
| "tq_starting TqEmptyEnter = True"
| "tq_starting _ = False"

fun tq_asleep :: "'a tq_pc \<Rightarrow> bool" where
  "tq_asleep TqSleeping = True"
| "tq_asleep _ = False"

fun tq_woken :: "'a tq_pc \<Rightarrow> 'a tq_pc" where
  "tq_woken TqSleeping = TqWaking"
| "tq_woken pc = pc"

text \<open>When the test of a consumer ends its method: always for \<open>tryPop\<close>.\<close>

definition tq_ready :: "bool \<Rightarrow> nat \<Rightarrow> 'a tq_monitor \<Rightarrow> bool" where
  "tq_ready wait t s \<longleftrightarrow> \<not> wait \<or> tq_items s \<noteq> [] \<or> tq_stop s t"

inductive tq_run :: "nat \<Rightarrow> 'a tq_monitor \<Rightarrow> 'a tq_monitor \<Rightarrow> bool" where
  tq_lock: "tq_lock s = None \<Longrightarrow> tq_entering (tq_pcs s t) = Some pc \<Longrightarrow>
    tq_run t s (tq_goto t pc s\<lparr>tq_lock := Some t\<rparr>)"
| tq_unlock: "tq_leaving (tq_pcs s t) = Some pc \<Longrightarrow> tq_run t s (tq_goto t pc s\<lparr>tq_lock := None\<rparr>)"
| tq_push: "tq_pcs s t = TqPushIn x \<Longrightarrow>
    tq_run t s (tq_goto t TqPushLeave s\<lparr>tq_object := tsq_push x (tq_object s), tq_pushed := tq_pushed s @ [x]\<rparr>)"
| tq_pop: "tq_pcs s t = TestItems wait \<Longrightarrow> tq_ready wait t s \<Longrightarrow> tsq_try_pop (tq_object s) = (r, q) \<Longrightarrow>
    tq_run t s (tq_goto t (TqPopLeave r) s\<lparr>tq_object := q, tq_popped := tq_popped s @ take 1 (tq_items s)\<rparr>)"
| tq_sleep: "tq_pcs s t = TestItems wait \<Longrightarrow> \<not> tq_ready wait t s \<Longrightarrow>
    tq_run t s (tq_goto t TqSleeping s\<lparr>tq_lock := None\<rparr>)"
| tq_notify_one: "tq_pcs s t = TqPushNotify \<Longrightarrow> tq_asleep (tq_pcs s u) \<Longrightarrow>
    tq_run t s (tq_goto u (tq_woken (tq_pcs s u)) (tq_goto t TqIdle s))"
| tq_notify_nobody: "tq_pcs s t = TqPushNotify \<Longrightarrow> \<forall>u. \<not> tq_asleep (tq_pcs s u) \<Longrightarrow>
    tq_run t s (tq_goto t TqIdle s)"
| tq_empty: "tq_pcs s t = TqEmptyIn \<Longrightarrow> tq_run t s (tq_goto t (TqEmptyLeave (tsq_empty (tq_object s))) s)"

inductive tq_env :: "nat \<Rightarrow> 'a tq_monitor \<Rightarrow> 'a tq_monitor \<Rightarrow> bool" where
  tq_call: "tq_pcs s t = TqIdle \<Longrightarrow> tq_starting pc \<Longrightarrow> tq_env t s (tq_goto t pc s)"
| tq_spurious: "tq_asleep (tq_pcs s t) \<Longrightarrow> tq_env t s (tq_goto t (tq_woken (tq_pcs s t)) s)"
| tq_stopping: "tq_env t s (s\<lparr>tq_stop := (tq_stop s)(t := b)\<rparr>)"

inductive tq_reach :: "'a tq_monitor \<Rightarrow> bool" where
  tq_reach_start: "tq_reach tq_start"
| tq_reach_run: "tq_reach s \<Longrightarrow> tq_run t s s' \<Longrightarrow> tq_reach s'"
| tq_reach_env: "tq_reach s \<Longrightarrow> tq_env t s s' \<Longrightarrow> tq_reach s'"

inductive_cases tq_runE: "tq_run t s s'"
inductive_cases tq_envE: "tq_env t s s'"

subsection \<open>The points of the methods\<close>

fun tq_holds :: "'a tq_pc \<Rightarrow> bool" where
  "tq_holds (TqPushIn _) = True"
| "tq_holds TqPushLeave = True"
| "tq_holds (TestItems _) = True"
| "tq_holds (TqPopLeave _) = True"
| "tq_holds TqEmptyIn = True"
| "tq_holds (TqEmptyLeave _) = True"
| "tq_holds _ = False"

fun tq_drives :: "'a tq_pc \<Rightarrow> nat" where
  "tq_drives TqPushLeave = 1"
| "tq_drives TqPushNotify = 1"
| "tq_drives (TestItems _) = 1"
| "tq_drives TqWaking = 1"
| "tq_drives _ = 0"

fun tq_owed :: "'a tq_pc \<Rightarrow> nat" where
  "tq_owed (TqPushEnter _) = 7"
| "tq_owed (TqPushIn _) = 6"
| "tq_owed TqPushLeave = 5"
| "tq_owed TqPushNotify = 4"
| "tq_owed (TqPopEnter _) = 3"
| "tq_owed TqWaking = 3"
| "tq_owed (TestItems _) = 2"
| "tq_owed (TqPopLeave _) = 1"
| "tq_owed TqEmptyEnter = 3"
| "tq_owed TqEmptyIn = 2"
| "tq_owed (TqEmptyLeave _) = 1"
| "tq_owed _ = 0"

interpretation tq: monitor TqIdle tq_holds tq_asleep tq_woken tq_drives tq_owed tq_entering tq_leaving
proof unfold_locales
  show "\<not> tq_holds pc \<and> tq_holds pc' \<and> \<not> tq_asleep pc \<and> \<not> tq_asleep pc' \<and> tq_drives pc \<le> tq_drives pc' \<and>
      tq_owed pc' < tq_owed pc"
    if "tq_entering pc = Some pc'" for pc pc' :: "'a tq_pc" using that by (cases pc) auto
  show "tq_holds pc \<and> \<not> tq_holds pc' \<and> \<not> tq_asleep pc \<and> \<not> tq_asleep pc' \<and> tq_drives pc \<le> tq_drives pc' \<and>
      tq_owed pc' < tq_owed pc"
    if "tq_leaving pc = Some pc'" for pc pc' :: "'a tq_pc" using that by (cases pc) auto
  show "\<not> tq_holds pc \<and> tq_drives pc = 0 \<and> tq_owed pc = 0 \<and> \<not> tq_holds (tq_woken pc) \<and>
      \<not> tq_asleep (tq_woken pc) \<and> tq_drives (tq_woken pc) = 1"
    if "tq_asleep pc" for pc :: "'a tq_pc" using that by (cases pc) auto
qed simp_all

lemma tq_starting_ready: "tq_starting pc \<Longrightarrow> \<not> tq_holds pc \<and> \<not> tq_asleep pc"
  by (cases pc) auto

lemma tq_asleep_woken: "tq_asleep pc \<Longrightarrow> tq_owed (tq_woken pc) = 3"
  by (cases pc) auto

subsection \<open>Mutual exclusion, contents and wake-ups\<close>

definition tq_inv :: "'a tq_monitor \<Rightarrow> bool" where
  "tq_inv s \<longleftrightarrow> lock_ok tq_holds (tq_pcs s) (tq_lock s) \<and> tq_pushed s = tq_popped s @ tq_items s \<and>
     finite {t. tq_pcs s t \<noteq> TqIdle} \<and> wake_ok tq_asleep tq_drives (tq_pcs s) (length (tq_items s))"

lemma tq_notified_other: "tq_pcs s t = TqPushNotify \<Longrightarrow> tq_asleep (tq_pcs s u) \<Longrightarrow> u \<noteq> t"
  by auto

lemma tsq_try_pop_items: "tsq_try_pop q = (r, q') \<Longrightarrow> tsq_items q = take 1 (tsq_items q) @ tsq_items q'"
  by (auto simp: tsq_try_pop_def split: list.splits)

lemma tq_lock_run:
  "lock_ok tq_holds (tq_pcs s) (tq_lock s) \<Longrightarrow> tq_run t s s' \<Longrightarrow> lock_ok tq_holds (tq_pcs s') (tq_lock s')"
proof (erule tq_runE, goal_cases)
  case (6 u)
  then show ?case using tq.lock_notify [OF 6(1), of t u] tq_notified_other [OF 6(3,4)] by simp
qed (auto intro: tq.lock_enter tq.lock_leave tq.lock_keep tq.lock_release)

lemma tq_wake_run:
  "finite {t. tq_pcs s t \<noteq> TqIdle} \<Longrightarrow> wake_ok tq_asleep tq_drives (tq_pcs s) (length (tq_items s)) \<Longrightarrow>
     tq_run t s s' \<Longrightarrow> wake_ok tq_asleep tq_drives (tq_pcs s') (length (tq_items s'))"
proof (erule tq_runE, goal_cases)
  case (1 pc)
  then show ?case by (simp add: tq.wake_enter)
next
  case (2 pc)
  then show ?case by (simp add: tq.wake_leave)
next
  case (3 x)
  then show ?case by (auto simp: tsq_push_def intro!: tq.wake_step)
next
  case (4 wait r q)
  then show ?case
    by (cases "tq_items s") (auto simp: tsq_try_pop_def intro!: tq.wake_step)
next
  case (5 wait)
  then show ?case by (simp add: tq_ready_def)
next
  case (6 u)
  then show ?case using tq.wake_notify [OF 6(1,2), of u t] tq_notified_other [OF 6(4,5)] by simp
next
  case 7
  then show ?case by (simp add: tq.wake_nobody)
qed (auto intro!: tq.wake_step)

lemma tq_run_inv: "tq_inv s \<Longrightarrow> tq_run t s s' \<Longrightarrow> tq_inv s'"
proof -
  assume inv: "tq_inv s" and run: "tq_run t s s'"
  have "tq_pushed s' = tq_popped s' @ tq_items s'"
    using run inv by (cases rule: tq_run.cases) (auto simp: tq_inv_def tsq_push_def dest: tsq_try_pop_items)
  moreover have "finite {t. tq_pcs s' t \<noteq> TqIdle}"
    using run inv by (cases rule: tq_run.cases) (auto simp: tq_inv_def intro!: finite_fun_upd simp del: fun_upd_apply)
  ultimately show ?thesis using inv run tq_lock_run tq_wake_run by (auto simp: tq_inv_def)
qed

lemma tq_env_inv: "tq_inv s \<Longrightarrow> tq_env t s s' \<Longrightarrow> tq_inv s'"
  unfolding tq_inv_def
  by (erule tq_envE)
    (auto intro!: tq.lock_keep tq.wake_step finite_fun_upd dest: tq_starting_ready tq.asleep_laws simp del: fun_upd_apply)

lemma tq_reach_inv: "tq_reach s \<Longrightarrow> tq_inv s"
proof (induction rule: tq_reach.induct)
  case tq_reach_start
  show ?case by (simp add: tq_inv_def tq_start_def lock_ok_def tsq_new_def)
qed (blast intro: tq_run_inv tq_env_inv)+

subsection \<open>Progress\<close>

inductive tq_runs :: "nat \<Rightarrow> 'a tq_monitor \<Rightarrow> 'a tq_monitor \<Rightarrow> bool" where
  tq_runs_none: "tq_runs 0 s s"
| tq_runs_step: "tq_run t s s1 \<Longrightarrow> tq_runs n s1 s2 \<Longrightarrow> tq_runs (Suc n) s s2"

definition tq_measure :: "'a tq_monitor \<Rightarrow> nat" where
  "tq_measure s = total_weight tq_owed (tq_pcs s)"

lemma tq_run_decreases:
  assumes "finite {t. tq_pcs s t \<noteq> TqIdle}" and "tq_run t s s'"
  shows "tq_measure s' < tq_measure s"
  using assms(2)
proof (cases rule: tq_run.cases)
  case (tq_notify_one u)
  then show ?thesis
    using tq.owed_notify [OF assms(1), of u t] tq_asleep_woken [of "tq_pcs s u"]
      tq_notified_other [OF tq_notify_one(2,3)] by (simp add: tq_measure_def)
qed (use assms(1) in \<open>auto simp: tq_measure_def intro: tq.owed_enter tq.owed_leave tq.owed_step simp del: fun_upd_apply\<close>)

lemma tq_holder_runs:
  assumes "tq_holds (tq_pcs s t)"
  shows "\<exists>s'. tq_run t s s'"
proof (cases "tq_pcs s t")
  case (TestItems wait)
  obtain r q where "tsq_try_pop (tq_object s) = (r, q)" by fastforce
  with TestItems show ?thesis using tq_pop [of s t wait] tq_sleep [of s t wait] by blast
qed (use assms tq_unlock [of s t] in \<open>auto intro: tq_push tq_empty\<close>)

lemma tq_progress:
  assumes "tq_inv s" and "tq_pcs s t \<noteq> TqIdle" and "\<not> tq_asleep (tq_pcs s t)"
  shows "\<exists>u s'. tq_run u s s'"
proof (cases "tq_lock s")
  case (Some u)
  with assms(1) have "tq_holds (tq_pcs s u)" by (simp add: tq_inv_def lock_ok_def)
  then show ?thesis using tq_holder_runs by blast
next
  case None
  have "tq_holds (tq_pcs s t) \<or> tq_pcs s t = TqPushNotify \<or> (\<exists>pc. tq_entering (tq_pcs s t) = Some pc)"
    using assms(2,3) by (cases "tq_pcs s t") auto
  then show ?thesis
    using tq_holder_runs tq_lock [OF None] tq_notify_one [of s t] tq_notify_nobody [of s t] by metis
qed

subsection \<open>Properties\<close>

text \<open>
  Further property (safety): in every interleaving of any number of threads with any stop predicates, at most
  one thread is inside a critical section of a \<open>ThreadSafeQueue\<close>, and the values pushed are, in order,
  those popped followed by those still queued.
\<close>

theorem tsq_monitor_fifo:
  assumes "tq_reach s"
  shows "(\<forall>t u. tq_holds (tq_pcs s t) \<and> tq_holds (tq_pcs s u) \<longrightarrow> t = u) \<and>
    tq_pushed s = tq_popped s @ tsq_items (tq_object s)"
  using tq_reach_inv [OF assms] by (auto simp: tq_inv_def lock_ok_def)

text \<open>A consumer that has gone to sleep, and a push that is about to wake it.\<close>

definition tq_sleeper :: "nat tq_monitor" where
  "tq_sleeper = tq_start\<lparr>tq_pcs := (\<lambda>_. TqIdle)(1 := TqSleeping)\<rparr>"

definition tq_pushing :: "nat tq_pc \<Rightarrow> nat tq_monitor" where
  "tq_pushing pc = tq_sleeper\<lparr>tq_object := \<lparr>tsq_items = [8]\<rparr>, tq_pushed := [8],
     tq_lock := (if pc = TqPushLeave then Some 0 else None),
     tq_pcs := (\<lambda>_. TqIdle)(1 := TqSleeping, 0 := pc)\<rparr>"

lemmas tq_example_defs = tq_sleeper_def tq_pushing_def tq_start_def tsq_new_def tsq_push_def

lemma tq_reach_sleeper: "tq_reach tq_sleeper"
proof -
  let ?s1 = "tq_goto 1 (TqPopEnter True) (tq_start :: nat tq_monitor)"
  let ?s2 = "tq_goto 1 (TestItems True) ?s1\<lparr>tq_lock := Some 1\<rparr>"
  have "tq_reach ?s1"
    by (rule tq_reach_env [OF tq_reach_start tq_call]) (simp_all add: tq_start_def)
  then have "tq_reach ?s2"
    by (rule tq_reach_run) (rule tq_lock, simp_all add: tq_start_def)
  then have "tq_reach (tq_goto 1 TqSleeping ?s2\<lparr>tq_lock := None\<rparr>)"
    by (rule tq_reach_run) (rule tq_sleep [of _ _ True], simp_all add: tq_ready_def tq_start_def tsq_new_def)
  then show ?thesis by (simp add: tq_example_defs)
qed

lemma tq_reach_pushing: "tq_reach (tq_pushing TqPushLeave)"
proof -
  let ?s1 = "tq_goto 0 (TqPushEnter 8) tq_sleeper"
  let ?s2 = "tq_goto 0 (TqPushIn 8) ?s1\<lparr>tq_lock := Some 0\<rparr>"
  have "tq_reach ?s1"
    by (rule tq_reach_env [OF tq_reach_sleeper tq_call]) (simp_all add: tq_example_defs)
  then have "tq_reach ?s2"
    by (rule tq_reach_run) (rule tq_lock, simp_all add: tq_example_defs)
  then have "tq_reach (tq_goto 0 TqPushLeave ?s2\<lparr>tq_object := tsq_push 8 (tq_object ?s2),
      tq_pushed := tq_pushed ?s2 @ [8]\<rparr>)"
    by (rule tq_reach_run) (rule tq_push, simp_all)
  then show ?thesis by (simp add: tq_example_defs)
qed

lemma tq_pushing_unlocks: "tq_run 0 (tq_pushing TqPushLeave) (tq_pushing TqPushNotify)"
proof -
  have "tq_run 0 (tq_pushing TqPushLeave) (tq_goto 0 TqPushNotify (tq_pushing TqPushLeave)\<lparr>tq_lock := None\<rparr>)"
    by (rule tq_unlock) (simp add: tq_pushing_def)
  then show ?thesis by (simp add: tq_example_defs)
qed

theorem tsq_monitor_fifo_witness:
  "tq_pushed (tq_pushing TqPushLeave) = [8] \<and>
   tq_pushed (tq_pushing TqPushLeave) =
     tq_popped (tq_pushing TqPushLeave) @ tsq_items (tq_object (tq_pushing TqPushLeave))"
  using tsq_monitor_fifo [OF tq_reach_pushing] by (simp add: tq_pushing_def)

text \<open>
  Further property (termination, liveness): threads in progress in a \<open>ThreadSafeQueue\<close> finish. From every
  reachable state each schedule of them has at most \<open>tq_measure s\<close> steps as long as nothing is
  called, nobody wakes spuriously and no predicate changes; when no step is left every thread has
  returned or sleeps in \<open>waitPop\<close>, and nobody sleeps beside a value.
\<close>

theorem tsq_monitor_quiescence:
  assumes "tq_reach s" and "tq_runs n s s'"
  shows "n + tq_measure s' \<le> tq_measure s \<and>
    ((\<nexists>u s''. tq_run u s' s'') \<longrightarrow>
       (\<forall>t. tq_pcs s' t = TqIdle \<or> tq_asleep (tq_pcs s' t)) \<and>
       (tsq_items (tq_object s') = [] \<or> (\<forall>t. \<not> tq_asleep (tq_pcs s' t))))"
proof -
  have "n + tq_measure s' \<le> tq_measure s \<and> tq_inv s'"
    using assms(2) tq_reach_inv [OF assms(1)]
  proof (induction rule: tq_runs.induct)
    case (tq_runs_step t s s1 n s2)
    from tq_run_inv [OF tq_runs_step.prems tq_runs_step.hyps(1)] tq_runs_step.IH
      tq_run_decreases [OF _ tq_runs_step.hyps(1)] tq_runs_step.prems
    show ?case by (fastforce simp: tq_inv_def)
  qed simp
  moreover have "\<forall>t. tq_pcs s' t = TqIdle \<or> tq_asleep (tq_pcs s' t)"
    if "\<nexists>u s''. tq_run u s' s''" "tq_inv s'" using tq_progress [OF that(2)] that(1) by blast
  moreover have "tsq_items (tq_object s') = [] \<or> (\<forall>t. \<not> tq_asleep (tq_pcs s' t))"
    if "\<forall>t. tq_pcs s' t = TqIdle \<or> tq_asleep (tq_pcs s' t)" "tq_inv s'"
    using tq.settled_wake [OF _ that(1)] that(2) by (auto simp: tq_inv_def)
  ultimately show ?thesis by blast
qed

theorem tsq_monitor_quiescence_witness:
  "1 + tq_measure (tq_pushing TqPushNotify) \<le> tq_measure (tq_pushing TqPushLeave)"
proof -
  have "tq_runs (Suc 0) (tq_pushing TqPushLeave) (tq_pushing TqPushNotify)"
    using tq_runs_step [OF tq_pushing_unlocks tq_runs_none] .
  from tsq_monitor_quiescence [OF tq_reach_pushing this] show ?thesis by simp
qed

text \<open>
  Further property (liveness): a stop goes unnoticed. When every other thread has returned or sleeps, a
  consumer asleep in \<open>waitPop\<close> stays asleep after its stop predicate has turned true: the state is
  reachable and no thread can take a step in it. Only a push or a spurious wake-up ends the wait.
\<close>

theorem tsq_stop_unnoticed:
  fixes s :: "'a tq_monitor"
  assumes "tq_reach s" and "tq_asleep (tq_pcs s t)" and "\<forall>u. tq_pcs s u = TqIdle \<or> tq_asleep (tq_pcs s u)"
  shows "\<exists>s' :: 'a tq_monitor. tq_reach s' \<and> tq_stop s' t \<and> tq_asleep (tq_pcs s' t) \<and>
    tq_pcs s' = tq_pcs s \<and> (\<forall>u s''. \<not> tq_run u s' s'')"
proof -
  let ?s' = "s\<lparr>tq_stop := (tq_stop s)(t := True)\<rparr>"
  have "tq_reach ?s'" by (rule tq_reach_env [OF assms(1) tq_stopping])
  moreover have "\<not> tq_run u ?s' s''" for u s''
  proof
    assume "tq_run u ?s' s''"
    moreover have "tq_pcs s u = TqIdle \<or> tq_pcs s u = TqSleeping"
      using assms(3) by (cases "tq_pcs s u") (auto dest: spec [of _ u])
    ultimately show False by (cases rule: tq_run.cases) auto
  qed
  moreover have "tq_stop ?s' t" "tq_asleep (tq_pcs ?s' t)" "tq_pcs ?s' = tq_pcs s" using assms(2) by simp_all
  ultimately show ?thesis by blast
qed

theorem tsq_stop_unnoticed_witness:
  "\<exists>s'. tq_reach s' \<and> tq_stop s' 1 \<and> tq_asleep (tq_pcs s' 1) \<and> (\<forall>u (s'' :: nat tq_monitor). \<not> tq_run u s' s'')"
proof -
  have "tq_asleep (tq_pcs tq_sleeper 1)" "\<forall>u. tq_pcs tq_sleeper u = TqIdle \<or> tq_asleep (tq_pcs tq_sleeper u)"
    by (simp_all add: tq_sleeper_def)
  from tsq_stop_unnoticed [OF tq_reach_sleeper this] show ?thesis by blast
qed

end
