(* ===== verification/Messaging.thy ===== *)
theory Messaging
  imports MessageQueue
begin

text \<open>
  The endpoints of \<open>src/include/messaging\<close> and the concrete task of \<open>src/include/taskBase.hpp\<close>:
  \<open>MessageBase\<close>/\<open>MessageWrapper<T>\<close>, \<open>Sender\<close>, \<open>Receiver\<close> and \<open>Task\<close>.

  \<^item> A receiver owns one queue and both have the same name, of a type \<open>'q\<close>. The queues that exist
    are the map \<open>sw_queues\<close>: a receiver that was destroyed has no entry, and a use of its queue is
    undefined behaviour in C++ and the fault \<open>DanglingQueue\<close> here.
  \<^item> A message is a value of a type \<open>'p\<close> with one constructor for each payload type \<open>T\<close>; the
    constructor is the dynamic type, and \<open>dynamic_pointer_cast\<close> to \<open>MessageWrapper<T>\<close> is a partial
    projection.
  \<^item> \<open>onPostMessageReceived\<close> is virtual, so the overriding methods of the receivers are an argument
    \<open>hook\<close> of \<open>Send\<close>; \<open>task_hook\<close> is the one of \<open>Task\<close>.
\<close>

record 'q Sender =
  messageQueuePtr :: "'q option"
  postNotify :: "'q option"

record ('q, 'p) send_world =
  sw_queues :: "'q \<Rightarrow> 'p MessageQueue option"
  sw_errors :: nat
  sw_hooked :: "('q \<times> 'p) list"

datatype 'q send_fault = DanglingQueue 'q

type_synonym ('q, 'p) post_hook = "'q \<Rightarrow> 'p \<Rightarrow> ('q, 'p) send_world \<Rightarrow> ('q, 'p) send_world"

definition sender_new :: "'q Sender" where
  "sender_new = \<lparr>messageQueuePtr = None, postNotify = None\<rparr>"

definition sender_to :: "'q \<Rightarrow> 'q Sender" where
  "sender_to queue = \<lparr>messageQueuePtr = Some queue, postNotify = None\<rparr>"

text \<open>
  The defaulted copies and moves. A move copies the pointer to the queue and leaves the callback of
  the source in an unspecified state, \<open>left\<close>; the results are the target and the source.
\<close>

definition sender_copy :: "'q Sender \<Rightarrow> 'q Sender \<times> 'q Sender" where
  "sender_copy s = (s, s)"

definition sender_move :: "'q option \<Rightarrow> 'q Sender \<Rightarrow> 'q Sender \<times> 'q Sender" where
  "sender_move left s = (s, s\<lparr>postNotify := left\<rparr>)"

definition ensureQueueAvailable ::
  "'q Sender \<Rightarrow> ('q, 'p) send_world \<Rightarrow> bool \<times> ('q, 'p) send_world"
where
  "ensureQueueAvailable s w =
     (if messageQueuePtr s \<noteq> None then (True, w)
      else (False, w\<lparr>sw_errors := sw_errors w + 1\<rparr>))"

definition push_to :: "'q \<Rightarrow> 'p \<Rightarrow> ('q, 'p) send_world \<Rightarrow> 'q send_fault + ('q, 'p) send_world" where
  "push_to q m w = (case sw_queues w q of
     None \<Rightarrow> Inl (DanglingQueue q)
   | Some mq \<Rightarrow> Inr (w\<lparr>sw_queues := (sw_queues w)(q \<mapsto> mq_push_ptr (Some m) mq)\<rparr>))"

definition Send ::
  "('q, 'p) post_hook \<Rightarrow> 'q Sender \<Rightarrow> 'p \<Rightarrow> ('q, 'p) send_world \<Rightarrow>
     'q send_fault + ('q, 'p) send_world"
where
  "Send hook s message w =
     (let (available, w) = ensureQueueAvailable s w
      in if \<not> available then Inr w
         else (case push_to (the (messageQueuePtr s)) message w of
                 Inl fault \<Rightarrow> Inl fault
               | Inr w \<Rightarrow>
                   (case postNotify s of
                      None \<Rightarrow> Inr w
                    | Some receiver \<Rightarrow> Inr (hook receiver message w))))"

definition makeSender :: "bool \<Rightarrow> 'q \<Rightarrow> 'q Sender" where
  "makeSender notifyOnPost this =
     (if \<not> notifyOnPost then sender_to this
      else \<lparr>messageQueuePtr = Some this, postNotify = Some this\<rparr>)"

text \<open>\<open>dynamic_pointer_cast\<close>: a null pointer and another dynamic type both give a null pointer.\<close>

definition pointer_cast :: "('p \<Rightarrow> 'a option) \<Rightarrow> 'p option \<Rightarrow> 'a option" where
  "pointer_cast as_type msg = (case msg of None \<Rightarrow> None | Some m \<Rightarrow> as_type m)"

subsection \<open>Task\<close>

record ('q, 'p) Task =
  task_this :: 'q
  task_sender :: "'q Sender"
  m_runFunc :: "(('q, 'p) send_world \<Rightarrow> ('q, 'p) send_world) option"
  m_onMsgFunc :: "('p \<Rightarrow> ('q, 'p) send_world \<Rightarrow> ('q, 'p) send_world) option"

definition task_new ::
  "'q \<Rightarrow> (('q, 'p) send_world \<Rightarrow> ('q, 'p) send_world) option \<Rightarrow>
     ('p \<Rightarrow> ('q, 'p) send_world \<Rightarrow> ('q, 'p) send_world) option \<Rightarrow> ('q, 'p) Task"
where
  "task_new this runFunc onMsgFunc =
     \<lparr>task_this = this, task_sender = makeSender True this, m_runFunc = runFunc,
      m_onMsgFunc = onMsgFunc\<rparr>"

definition task_onPostMessageReceived ::
  "('q, 'p) Task \<Rightarrow> 'p \<Rightarrow> ('q, 'p) send_world \<Rightarrow> ('q, 'p) send_world"
where
  "task_onPostMessageReceived t message w =
     (case m_onMsgFunc t of None \<Rightarrow> w | Some f \<Rightarrow> f message w)"

definition task_isReadyToStart :: "('q, 'p) Task \<Rightarrow> bool" where
  "task_isReadyToStart t \<longleftrightarrow> m_runFunc t \<noteq> None"

definition task_run :: "('q, 'p) Task \<Rightarrow> ('q, 'p) send_world \<Rightarrow> ('q, 'p) send_world" where
  "task_run t w = (case m_runFunc t of None \<Rightarrow> w | Some f \<Rightarrow> f w)"

definition task_hook :: "('q \<Rightarrow> ('q, 'p) Task option) \<Rightarrow> ('q, 'p) post_hook" where
  "task_hook tasks receiver message w =
     (case tasks receiver of None \<Rightarrow> w | Some t \<Rightarrow> task_onPostMessageReceived t message w)"

subsection \<open>Sending and the queues\<close>

text \<open>The hook of the threads of the chain, and one that records its calls.\<close>

definition no_hook :: "('q, 'p) post_hook" where
  "no_hook receiver message w = w"

definition logging_hook :: "('q, 'p) post_hook" where
  "logging_hook receiver message w = w\<lparr>sw_hooked := sw_hooked w @ [(receiver, message)]\<rparr>"

definition alive :: "'q Sender \<Rightarrow> ('q, 'p) send_world \<Rightarrow> bool" where
  "alive s w \<longleftrightarrow> (\<forall>q. messageQueuePtr s = Some q \<longrightarrow> sw_queues w q \<noteq> None)"

definition queued :: "('q, 'p) send_world \<Rightarrow> 'q \<Rightarrow> 'p option list" where
  "queued w q = (case sw_queues w q of None \<Rightarrow> [] | Some mq \<Rightarrow> m_queue mq)"

lemmas send_defs = Send_def ensureQueueAvailable_def push_to_def makeSender_def sender_to_def
  sender_new_def no_hook_def logging_hook_def

lemma push_to_alive:
  assumes "sw_queues w q \<noteq> None"
  obtains w' where "push_to q m w = Inr w'" and "queued w' q = queued w q @ [Some m]"
    and "\<And>q'. q' \<noteq> q \<Longrightarrow> queued w' q' = queued w q'" and "dom (sw_queues w') = dom (sw_queues w)"
    and "sw_errors w' = sw_errors w" and "sw_hooked w' = sw_hooked w"
  using assms by (auto simp: push_to_def queued_def mq_push_ptr_def insert_absorb domI)

text \<open>Sends without a hook: one, and a whole list of them.\<close>

lemma send_plain:
  assumes "sw_queues w q \<noteq> None"
  obtains w' where "Send no_hook (sender_to q) m w = Inr w'"
    and "queued w' q = queued w q @ [Some m]"
    and "\<And>q'. q' \<noteq> q \<Longrightarrow> queued w' q' = queued w q'" and "dom (sw_queues w') = dom (sw_queues w)"
proof -
  obtain w' where "push_to q m w = Inr w'" "queued w' q = queued w q @ [Some m]"
    "\<And>q'. q' \<noteq> q \<Longrightarrow> queued w' q' = queued w q'" "dom (sw_queues w') = dom (sw_queues w)"
    using assms by (rule push_to_alive [of w q m]) auto
  then show ?thesis
    by (intro that [of w']) (simp_all add: Send_def ensureQueueAvailable_def sender_to_def)
qed

fun send_all ::
  "('q, 'p) post_hook \<Rightarrow> ('q Sender \<times> 'p) list \<Rightarrow> ('q, 'p) send_world \<Rightarrow>
     'q send_fault + ('q, 'p) send_world"
where
  "send_all hook [] w = Inr w"
| "send_all hook ((s, m) # sends) w =
     (case Send hook s m w of Inl fault \<Rightarrow> Inl fault | Inr w' \<Rightarrow> send_all hook sends w')"

text \<open>The messages a list of sends addresses to one queue.\<close>

definition addressed :: "'q \<Rightarrow> ('q Sender \<times> 'p) list \<Rightarrow> 'p list" where
  "addressed q sends = map snd (filter (\<lambda>(s, _). messageQueuePtr s = Some q) sends)"

lemma addressed_simps [simp]:
  "addressed q [] = []"
  "addressed q ((s, m) # sends) = (if messageQueuePtr s = Some q then [m] else []) @ addressed q sends"
  by (simp_all add: addressed_def)

lemma send_no_queue:
  "messageQueuePtr s = None \<Longrightarrow> Send hook s m w = Inr (w\<lparr>sw_errors := sw_errors w + 1\<rparr>)"
  by (simp add: Send_def ensureQueueAvailable_def)

lemma send_all_alive:
  assumes "\<forall>(s, m) \<in> set sends. alive s w"
  shows "\<exists>w'. send_all no_hook sends w = Inr w' \<and> dom (sw_queues w') = dom (sw_queues w) \<and>
    (\<forall>q. sw_queues w q \<noteq> None \<longrightarrow> queued w' q = queued w q @ map Some (addressed q sends)) \<and>
    sw_errors w' = sw_errors w + length (filter (\<lambda>(s, _). messageQueuePtr s = None) sends)"
  using assms
proof (induction sends arbitrary: w)
  case (Cons x sends)
  obtain s m where x: "x = (s, m)" by fastforce
  have "\<exists>w1. Send no_hook s m w = Inr w1 \<and> dom (sw_queues w1) = dom (sw_queues w) \<and>
    (\<forall>q. sw_queues w q \<noteq> None \<longrightarrow> queued w1 q = queued w q @ map Some (addressed q [(s, m)])) \<and>
    sw_errors w1 = sw_errors w + (if messageQueuePtr s = None then 1 else 0)"
  proof (cases "messageQueuePtr s")
    case None
    then show ?thesis by (simp add: send_no_queue queued_def)
  next
    case (Some q)
    with Cons.prems x have "sw_queues w q \<noteq> None" by (auto simp: alive_def)
    then obtain w1 where push: "push_to q m w = Inr w1" and "queued w1 q = queued w q @ [Some m]"
      and "\<And>q'. q' \<noteq> q \<Longrightarrow> queued w1 q' = queued w q'" and "dom (sw_queues w1) = dom (sw_queues w)"
      and "sw_errors w1 = sw_errors w"
      by (rule push_to_alive [of w q m]) auto
    moreover from push Some have "Send no_hook s m w = Inr w1"
      by (simp add: Send_def ensureQueueAvailable_def no_hook_def split: option.splits)
    ultimately show ?thesis using Some by auto
  qed
  then obtain w1 where send: "Send no_hook s m w = Inr w1" and dom: "dom (sw_queues w1) = dom (sw_queues w)"
    and q1: "\<forall>q. sw_queues w q \<noteq> None \<longrightarrow> queued w1 q = queued w q @ map Some (addressed q [(s, m)])"
    and err: "sw_errors w1 = sw_errors w + (if messageQueuePtr s = None then 1 else 0)" by blast
  from dom have live: "sw_queues w1 q \<noteq> None \<longleftrightarrow> sw_queues w q \<noteq> None" for q by blast
  with Cons.prems have "\<forall>(s, m) \<in> set sends. alive s w1" by (auto simp: alive_def)
  from Cons.IH [OF this] obtain w' where "send_all no_hook sends w1 = Inr w'"
    and "dom (sw_queues w') = dom (sw_queues w1)"
    and "\<forall>q. sw_queues w1 q \<noteq> None \<longrightarrow> queued w' q = queued w1 q @ map Some (addressed q sends)"
    and "sw_errors w' = sw_errors w1 + length (filter (\<lambda>(s, _). messageQueuePtr s = None) sends)"
    by blast
  with send dom q1 err live x show ?case by auto
qed simp

definition destroy_receiver :: "'q \<Rightarrow> ('q, 'p) send_world \<Rightarrow> ('q, 'p) send_world" where
  "destroy_receiver q w = w\<lparr>sw_queues := (sw_queues w)(q := None)\<rparr>"

subsection \<open>Properties\<close>

text \<open>
  Further property (functional): sends through senders whose receivers exist (or that have no queue)
  never fault. Each queue receives exactly the messages sent through the senders bound to it, in
  the order of the sends, behind what it held; a sender without a queue drops its message and
  reports one error for it; no queue appears or disappears.
\<close>

theorem send_all_functional:
  assumes "\<forall>(s, m) \<in> set sends. alive s w"
  shows "\<exists>w'. send_all no_hook sends w = Inr w' \<and>
    (\<forall>q mq. sw_queues w q = Some mq \<longrightarrow> (\<exists>mq'. sw_queues w' q = Some mq' \<and>
       m_queue mq' = m_queue mq @ map Some (addressed q sends))) \<and>
    (\<forall>q. sw_queues w q = None \<longleftrightarrow> sw_queues w' q = None) \<and>
    sw_errors w' = sw_errors w + length (filter (\<lambda>(s, _). messageQueuePtr s = None) sends)"
proof -
  from send_all_alive [OF assms] obtain w' where run: "send_all no_hook sends w = Inr w'"
    and dom: "dom (sw_queues w') = dom (sw_queues w)"
    and items: "\<forall>q. sw_queues w q \<noteq> None \<longrightarrow> queued w' q = queued w q @ map Some (addressed q sends)"
    and err: "sw_errors w' = sw_errors w + length (filter (\<lambda>(s, _). messageQueuePtr s = None) sends)"
    by blast
  from dom have live: "sw_queues w q = None \<longleftrightarrow> sw_queues w' q = None" for q
    using dom by (metis domIff)
  have "\<exists>mq'. sw_queues w' q = Some mq' \<and> m_queue mq' = m_queue mq @ map Some (addressed q sends)"
    if "sw_queues w q = Some mq" for q mq
    using that spec [OF items, of q] live [of q] by (cases "sw_queues w' q") (simp_all add: queued_def)
  then show ?thesis using run live err by (intro exI [of _ w'] conjI allI impI) simp_all
qed

definition two_receivers :: "(nat, nat) send_world" where
  "two_receivers = \<lparr>sw_queues = (\<lambda>_. None)(0 \<mapsto> mq_new, 1 \<mapsto> mq_new), sw_errors = 0, sw_hooked = []\<rparr>"

definition logging_task :: "(nat, nat) Task" where
  "logging_task = task_new 0 None (Some (logging_hook 0))"

theorem send_all_functional_witness:
  "\<exists>w' mq'. send_all no_hook [(makeSender False 0, 7), (sender_new, 8), (makeSender False 0, 9)]
       two_receivers = Inr w' \<and>
     sw_queues w' 0 = Some mq' \<and> m_queue mq' = [Some 7, Some 9] \<and> sw_errors w' = 1"
proof -
  let ?sends = "[(makeSender False 0, 7), (sender_new, 8), (makeSender False 0, 9)] :: (nat Sender \<times> nat) list"
  have "\<forall>(s, m) \<in> set ?sends. alive s two_receivers"
    by (simp add: alive_def send_defs two_receivers_def)
  from send_all_functional [OF this] obtain w' where "send_all no_hook ?sends two_receivers = Inr w'"
    and "\<forall>q mq. sw_queues two_receivers q = Some mq \<longrightarrow> (\<exists>mq'. sw_queues w' q = Some mq' \<and>
       m_queue mq' = m_queue mq @ map Some (addressed q ?sends))"
    and "sw_errors w' = sw_errors two_receivers +
      length (filter (\<lambda>(s, _). messageQueuePtr s = None) ?sends)" by blast
  then show ?thesis
    by (auto simp: two_receivers_def send_defs mq_new_def mq_push_ptr_def)
qed

text \<open>
  Further property (functional): a \<open>Task\<close> is wired to itself by its constructor. Messages it sends
  through itself arrive in its own queue in order, each is reported to its message function
  exactly once, in order and after it was queued (a task without that function reports nothing),
  and the task is ready to start exactly if it has a run function.
\<close>

theorem task_sends_to_itself:
  assumes "sw_queues w this = Some mq"
    and "tasks this = Some (task_new this runFunc onMsg)"
    and "onMsg = None \<or> onMsg = Some (logging_hook this)"
  shows "\<exists>w' mq'. send_all (task_hook tasks)
      (map (Pair (task_sender (task_new this runFunc onMsg))) ms) w = Inr w' \<and>
    sw_queues w' this = Some mq' \<and> m_queue mq' = m_queue mq @ map Some ms \<and>
    sw_hooked w' = sw_hooked w @ (if onMsg = None then [] else map (Pair this) ms) \<and>
    (task_isReadyToStart (task_new this runFunc onMsg) \<longleftrightarrow> runFunc \<noteq> None)"
  using assms(1)
proof (induction ms arbitrary: w mq)
  case Nil
  then show ?case by (simp add: task_isReadyToStart_def task_new_def)
next
  case (Cons m ms)
  let ?w1 = "w\<lparr>sw_queues := (sw_queues w)(this \<mapsto> mq_push_ptr (Some m) mq),
    sw_hooked := sw_hooked w @ (if onMsg = None then [] else [(this, m)])\<rparr>"
  have step: "Send (task_hook tasks) (task_sender (task_new this runFunc onMsg)) m w = Inr ?w1"
    using assms(2,3) Cons.prems
    by (auto simp: task_hook_def task_new_def task_onPostMessageReceived_def send_defs)
  have "sw_queues ?w1 this = Some (mq_push_ptr (Some m) mq)" by simp
  from Cons.IH [OF this] step show ?case by (auto simp: mq_push_ptr_def)
qed

theorem task_sends_to_itself_witness:
  "\<exists>w' mq'. send_all (task_hook [0 \<mapsto> logging_task]) [(task_sender logging_task, 5)] two_receivers = Inr w' \<and>
     sw_queues w' 0 = Some mq' \<and> m_queue mq' = [Some 5] \<and> sw_hooked w' = [(0, 5)]"
proof -
  have "sw_queues two_receivers 0 = Some mq_new" by (simp add: two_receivers_def)
  from task_sends_to_itself [OF this, of "[0 \<mapsto> logging_task]" None "Some (logging_hook 0)" "[5]"]
  show ?thesis by (auto simp: two_receivers_def mq_new_def logging_task_def simp del: send_all.simps)
qed

text \<open>
  Further property (safety, error): a sender does not keep its receiver alive. Once the receiver is
  destroyed every sender made by it faults, whichever kind it is, while the senders of every other
  receiver still deliver.
\<close>

theorem sender_dangles:
  assumes "q' \<noteq> q" and "sw_queues w q' = Some mq"
  shows "Send hook (makeSender b q) m (destroy_receiver q w) = Inl (DanglingQueue q) \<and>
    (\<exists>w'. Send no_hook (makeSender b q') m (destroy_receiver q w) = Inr w' \<and>
       queued w' q' = m_queue mq @ [Some m])"
  using assms by (simp add: send_defs destroy_receiver_def queued_def mq_push_ptr_def)

theorem sender_dangles_witness:
  "Send no_hook (makeSender False 0) 7 (destroy_receiver 0 two_receivers) = Inl (DanglingQueue 0) \<and>
   (\<exists>w'. Send no_hook (makeSender False 1) 7 (destroy_receiver 0 two_receivers) = Inr w' \<and>
      queued w' 1 = [Some 7])"
  using sender_dangles [of 1 0 two_receivers mq_new no_hook False 7]
  by (simp add: two_receivers_def mq_new_def)

text \<open>
  Further property (functional): copies and moves of a sender. The copy or the target of a move sends as the
  original did. A sender that was moved from is not disabled: it still pushes its messages to the
  queue of the receiver, whatever became of its callback.
\<close>

theorem moved_sender_still_sends:
  assumes "sender_move left s = (to, source)" and "messageQueuePtr s = Some q" and "sw_queues w q = Some mq"
  shows "Send hook to m w = Send hook s m w \<and> Send hook (fst (sender_copy s)) m w = Send hook s m w \<and>
    (\<exists>w'. Send no_hook source m w = Inr w' \<and> queued w' q = m_queue mq @ [Some m])"
  using assms by (auto simp: sender_move_def sender_copy_def send_defs queued_def mq_push_ptr_def split: option.split)

theorem moved_sender_still_sends_witness:
  "\<exists>w'. Send no_hook (snd (sender_move None (makeSender True 1))) 7 two_receivers = Inr w' \<and> queued w' 1 = [Some 7]"
proof -
  have "sender_move None (makeSender True (1 :: nat)) = (makeSender True 1, snd (sender_move None (makeSender True 1)))"
    by (simp add: sender_move_def)
  from moved_sender_still_sends [OF this, of 1 two_receivers mq_new no_hook 7] show ?thesis
    by (auto simp: makeSender_def two_receivers_def mq_new_def)
qed

end
