(* ===== verification/DataTypes.thy ===== *)
theory DataTypes
  imports Complex_Main Messaging
begin

text \<open>
  The structures of \<open>src/include/dataTypes.hpp\<close> and the messages made of them. \<open>payload\<close> has one
  constructor for each type that is sent, \<open>as_FileEvent\<close> and its siblings are the dynamic casts of
  the consumers. An \<open>int\<close> is an integer whose increments are checked (\<open>int_succ\<close>), \<open>uint64_t\<close> a
  64-bit word, a \<open>double\<close> a rational (the only one stored is an \<open>int\<close> times 1.5, which a double
  holds exactly), a \<open>steady_clock::time_point\<close> its nanoseconds.
\<close>

record FileEvent =
  fileName :: string
  fileSize :: u64
  sendTime :: int

record AppEvent =
  appName :: string
  eventDescription :: string
  originalFile :: FileEvent

record ProcessedData =
  dataId :: string
  processingResult :: int
  originalAppEvent :: AppEvent

record TransformedData =
  transformationType :: string
  transformed_value :: rat
  originalData :: ProcessedData

record FinalResult =
  success :: bool
  summary :: string
  originalTransformedData :: TransformedData

record MirrorEvent =
  mirror_counter :: int
  mirror_message :: string

record DirectEvent =
  direct_counter :: int

datatype command_type = StopObserving | StartObserving | StressMode | SetNormalMode

record ObserverCommand =
  command_type :: command_type
  durationSec :: int

definition command_default :: ObserverCommand where
  "command_default = \<lparr>command_type = StopObserving, durationSec = 0\<rparr>"

subsection \<open>Messages\<close>

datatype payload =
    FileMsg FileEvent
  | AppMsg AppEvent
  | ProcessedMsg ProcessedData
  | TransformedMsg TransformedData
  | MirrorMsg MirrorEvent
  | DirectMsg DirectEvent

fun as_FileEvent :: "payload \<Rightarrow> FileEvent option" where
  "as_FileEvent (FileMsg e) = Some e"
| "as_FileEvent _ = None"

fun as_AppEvent :: "payload \<Rightarrow> AppEvent option" where
  "as_AppEvent (AppMsg e) = Some e"
| "as_AppEvent _ = None"

fun as_ProcessedData :: "payload \<Rightarrow> ProcessedData option" where
  "as_ProcessedData (ProcessedMsg e) = Some e"
| "as_ProcessedData _ = None"

fun as_TransformedData :: "payload \<Rightarrow> TransformedData option" where
  "as_TransformedData (TransformedMsg e) = Some e"
| "as_TransformedData _ = None"

subsection \<open>Machine integers of the counters\<close>

definition int_max :: int where
  "int_max = 2147483647"

text \<open>\<open>++count\<close> on an \<open>int\<close>: signed overflow is undefined behaviour.\<close>

definition int_succ :: "int \<Rightarrow> int option" where
  "int_succ i = (if i < int_max then Some (i + 1) else None)"

lemma int_succ_Some: "int_succ i = Some j \<longleftrightarrow> j = i + 1 \<and> i < int_max"
  by (auto simp: int_succ_def)

subsection \<open>The messages of one type in a sequence\<close>

definition pick :: "(payload \<Rightarrow> 'a option) \<Rightarrow> payload list \<Rightarrow> 'a list" where
  "pick as_type ms = List.map_filter as_type ms"

lemma pick_simps [simp]:
  "pick f [] = []"
  "pick f (m # ms) = (case f m of None \<Rightarrow> pick f ms | Some x \<Rightarrow> x # pick f ms)"
  "pick f (ms @ ns) = pick f ms @ pick f ns"
  by (simp_all add: pick_def List.map_filter_def split: option.split)

lemma pick_none: "(\<And>m. m \<in> set ms \<Longrightarrow> f m = None) \<Longrightarrow> pick f ms = []"
  by (induction ms) simp_all

end
