(* ===== verification/RingWait.thy ===== *)
theory RingWait
  imports RingBuffer CondVar
begin

text \<open>
  The blocking side of \<open>SpScRingBuffer<T>\<close>: \<open>wait_pop_for\<close>, \<open>notifyOne\<close> and \<open>notifyAll\<close> of
  \<open>src/include/threading/spScRingBuffer.hpp\<close>.

  \<^item> \<open>rb_wait_pop_for\<close> is the method as a function of the wake-ups it gets (see \<open>CondVar\<close>). The
    producer takes no lock, so it may push between the last evaluation of the wait's predicate
    and the final \<open>pop\<close>: the values it pushes there are the argument \<open>meanwhile\<close>.
  \<^item> \<open>rw_step\<close> is the handshake of one consumer in \<open>wait_pop_for\<close> with one producer that pushes
    and then calls \<open>notifyOne\<close> (as \<open>sendCommand\<close> does), cut where the threads can interleave:
    between the evaluation of the predicate and the sleep, and between push and notification.
\<close>

definition rb_wait_pop_for ::
  "'a SpScRingBuffer \<Rightarrow> 'a SpScRingBuffer wakeup list \<Rightarrow> 'a list \<Rightarrow>
     (rb_fault + ('a option \<times> 'a SpScRingBuffer)) option"
where
  "rb_wait_pop_for rb wakes meanwhile =
     (if \<not> m_initialized rb then Some (Inr (None, rb))
      else (case cv_wait_for (\<lambda>rb. \<not> m_initialized rb \<or> \<not> rb_empty rb) rb wakes of
              None \<Rightarrow> None
            | Some (rb1, ok) \<Rightarrow>
                if \<not> ok then Some (Inr (None, rb1))
                else
                  let rb2 = fold (\<lambda>x rb. snd (rb_enq x rb)) meanwhile rb1
                  in if \<not> m_initialized rb2 \<or> rb_empty rb2 then Some (Inr (None, rb2))
                     else Some (rb_pop rb2)))"

lemma fold_push_keeps:
  assumes "rb_inv rb"
  shows "rb_inv (fold (\<lambda>x rb. snd (rb_enq x rb)) xs rb) \<and>
    prefix (rb_list rb) (rb_list (fold (\<lambda>x rb. snd (rb_enq x rb)) xs rb))"
  using assms
proof (induction xs arbitrary: rb)
  case (Cons x xs)
  obtain ok rb' where enq: "rb_enq x rb = (ok, rb')" by fastforce
  from ring.enq_refines [OF Cons.prems enq]
  have "rb_inv rb'" and "rb_list rb' = rb_list rb @ (if ok then [x] else [])"
    by (auto simp: aq_enq_def split: if_splits)
  then have "rb_inv rb'" and "prefix (rb_list rb) (rb_list rb')" by simp_all
  with Cons.IH [of rb'] enq show ?case by (auto intro: prefix_order.trans)
qed simp

lemma rb_empty_uninitialized: "\<not> m_initialized rb \<Longrightarrow> rb_empty rb"
  by (simp add: rb_empty_def)

text \<open>What the producer pushes after the wait does not hide the oldest element.\<close>

lemma pop_after_pushes:
  fixes meanwhile :: "'a list"
  assumes inv: "rb_inv rb" and list: "rb_list rb = x # xs"
  defines "rb2 \<equiv> fold (\<lambda>x rb. snd (rb_enq x rb)) meanwhile rb"
  shows "m_initialized rb2" and "\<not> rb_empty rb2"
    and "\<exists>rb3. rb_pop rb2 = Inr (Some x, rb3) \<and> prefix xs (rb_list rb3)"
proof -
  from fold_push_keeps [OF inv, of meanwhile] have inv2: "rb_inv rb2"
    and "prefix (rb_list rb) (rb_list rb2)" by (simp_all add: rb2_def)
  with list obtain ys where ys: "rb_list rb2 = x # ys" and pre: "prefix xs ys"
    by (cases "rb_list rb2") auto
  then show ne: "\<not> rb_empty rb2" using rb_empty_iff [OF inv2] by simp
  then show "m_initialized rb2" using rb_empty_uninitialized by blast
  obtain r rb3 where deq: "rb_deq rb2 = (r, rb3)" by fastforce
  from ring.deq_refines [OF inv2 deq] ys have "r = Some x" and "rb_list rb3 = ys" by auto
  with pre deq rb_pop_deq [OF inv2]
  show "\<exists>rb3. rb_pop rb2 = Inr (Some x, rb3) \<and> prefix xs (rb_list rb3)" by simp
qed

subsection \<open>The handshake of push, notification and sleep\<close>

record 'a ring_wait =
  rw_buffer :: "'a SpScRingBuffer"
  rw_pc :: wait_pc
  rw_notify_due :: bool
  rw_sent :: "'a list"
  rw_got :: "'a list"

datatype 'a wait_action = CallWait | GoToSleep | WakeUp | Timeout | PushValue 'a | NotifyOne | NotifyAll

definition rw_return :: "'a ring_wait \<Rightarrow> 'a ring_wait" where
  "rw_return s = (case rb_deq (rw_buffer s) of
     (None, rb) \<Rightarrow> s\<lparr>rw_buffer := rb, rw_pc := Outside\<rparr>
   | (Some x, rb) \<Rightarrow> s\<lparr>rw_buffer := rb, rw_pc := Outside, rw_got := rw_got s @ [x]\<rparr>)"

definition rw_check :: "'a ring_wait \<Rightarrow> 'a ring_wait" where
  "rw_check s =
     (if \<not> m_initialized (rw_buffer s) \<or> \<not> rb_empty (rw_buffer s) then rw_return s
      else s\<lparr>rw_pc := Checked\<rparr>)"

definition rw_notify :: "'a ring_wait \<Rightarrow> 'a ring_wait" where
  "rw_notify s = (if rw_pc s = Asleep then s\<lparr>rw_pc := Woken\<rparr> else s)"

fun rw_step :: "'a wait_action \<Rightarrow> 'a ring_wait \<Rightarrow> 'a ring_wait option" where
  "rw_step CallWait s = (if rw_pc s = Outside then Some (rw_check s) else None)"
| "rw_step GoToSleep s = (if rw_pc s = Checked then Some (s\<lparr>rw_pc := Asleep\<rparr>) else None)"
| "rw_step WakeUp s = (if rw_pc s \<in> {Asleep, Woken} then Some (rw_check s) else None)"
| "rw_step Timeout s = (if rw_pc s \<in> {Asleep, Woken} then Some (rw_return s) else None)"
| "rw_step (PushValue x) s =
     (if rw_notify_due s then None
      else (case rb_enq x (rw_buffer s) of
              (False, rb) \<Rightarrow> Some (s\<lparr>rw_buffer := rb\<rparr>)
            | (True, rb) \<Rightarrow> Some (s\<lparr>rw_buffer := rb, rw_notify_due := True, rw_sent := rw_sent s @ [x]\<rparr>)))"
| "rw_step NotifyOne s =
     (if rw_notify_due s then Some (rw_notify (s\<lparr>rw_notify_due := False\<rparr>)) else None)"
| "rw_step NotifyAll s = Some (rw_notify s)"

fun rw_exec :: "'a wait_action list \<Rightarrow> 'a ring_wait \<Rightarrow> 'a ring_wait option" where
  "rw_exec [] s = Some s"
| "rw_exec (a # as) s = (case rw_step a s of None \<Rightarrow> None | Some s' \<Rightarrow> rw_exec as s')"

definition rw_start :: "'a SpScRingBuffer \<Rightarrow> 'a ring_wait" where
  "rw_start rb = \<lparr>rw_buffer = rb, rw_pc = Outside, rw_notify_due = False, rw_sent = [], rw_got = []\<rparr>"

definition rw_inv :: "'a ring_wait \<Rightarrow> bool" where
  "rw_inv s \<longleftrightarrow> rb_inv (rw_buffer s) \<and> rw_sent s = rw_got s @ rb_list (rw_buffer s)"

lemma rw_return_inv:
  assumes "rw_inv s"
  shows "rw_inv (rw_return s)"
proof -
  obtain r rb where deq: "rb_deq (rw_buffer s) = (r, rb)" by fastforce
  from assms ring.deq_refines [OF _ deq]
  have "rb_inv rb" and "aq_deq (rb_list (rw_buffer s)) = (r, rb_list rb)" by (simp_all add: rw_inv_def)
  with assms deq show ?thesis
    by (cases "rb_list (rw_buffer s)") (auto simp: rw_inv_def rw_return_def)
qed

lemma rw_check_inv: "rw_inv s \<Longrightarrow> rw_inv (rw_check s)"
  using rw_return_inv [of s] by (simp add: rw_check_def) (simp add: rw_inv_def)

lemma rw_step_inv:
  assumes "rw_inv s" and "rw_step a s = Some s'"
  shows "rw_inv s'"
proof (cases a)
  case (PushValue x)
  obtain ok rb where enq: "rb_enq x (rw_buffer s) = (ok, rb)" by fastforce
  from assms(1) ring.enq_refines [OF _ enq]
  have "rb_inv rb" and "aq_enq (rb_bound (rw_buffer s)) x (rb_list (rw_buffer s)) = (ok, rb_list rb)"
    by (simp_all add: rw_inv_def)
  with assms enq PushValue show ?thesis
    by (cases ok) (auto simp: rw_inv_def aq_enq_def split: if_splits)
qed (use assms rw_return_inv [of s] rw_check_inv [of s] in
     \<open>auto simp: rw_inv_def rw_notify_def split: if_splits\<close>)

lemma rw_exec_inv: "rw_inv s \<Longrightarrow> rw_exec as s = Some s' \<Longrightarrow> rw_inv s'"
proof (induction as arbitrary: s)
  case (Cons a as)
  then show ?case using rw_step_inv [of s a] by (auto split: option.splits)
qed simp

lemma rw_start_inv: "rb_inv rb \<Longrightarrow> rb_list rb = [] \<Longrightarrow> rw_inv (rw_start rb)"
  by (simp add: rw_inv_def rw_start_def)

subsection \<open>Properties\<close>

text \<open>
  Further property (functional, termination): \<open>wait_pop_for\<close> on well-formed buffers accesses no slot
  out of range and returns once its timeout has expired. On a buffer that is not initialised it
  returns false at once. Otherwise it returns the oldest element of the buffer it finds,
  whatever the producer pushes between the predicate and the pop, and it returns false only if
  the timeout expired with the buffer empty.
\<close>

theorem rb_wait_pop_for_functional:
  assumes "rb_inv rb" and "\<forall>w \<in> set wakes. rb_inv (seen w) \<and> m_initialized (seen w)"
  shows "(\<not> m_initialized rb \<longrightarrow> rb_wait_pop_for rb wakes meanwhile = Some (Inr (None, rb))) \<and>
    (m_initialized rb \<longrightarrow>
       (\<forall>res. rb_wait_pop_for rb wakes meanwhile = Some res \<longrightarrow>
         (\<exists>rb1 \<in> set (rb # map seen wakes). \<exists>r rb'. res = Inr (r, rb') \<and>
            (case rb_list rb1 of
               [] \<Rightarrow> r = None \<and> rb' = rb1 \<and> Expired rb1 \<in> set wakes
             | x # xs \<Rightarrow> r = Some x \<and> prefix xs (rb_list rb')))) \<and>
       ((\<exists>rb1. Expired rb1 \<in> set wakes) \<longrightarrow> rb_wait_pop_for rb wakes meanwhile \<noteq> None))"
proof (intro conjI impI allI)
  assume init: "m_initialized rb"
  let ?pred = "\<lambda>rb :: 'a SpScRingBuffer. \<not> m_initialized rb \<or> \<not> rb_empty rb"
  fix res
  assume "rb_wait_pop_for rb wakes meanwhile = Some res"
  with init obtain rb1 ok where cv: "cv_wait_for ?pred rb wakes = Some (rb1, ok)"
    and res: "(if \<not> ok then Some (Inr (None, rb1))
      else let rb2 = fold (\<lambda>x rb. snd (rb_enq x rb)) meanwhile rb1
           in if \<not> m_initialized rb2 \<or> rb_empty rb2 then Some (Inr (None, rb2)) else Some (rb_pop rb2))
      = Some res"
    by (auto simp: rb_wait_pop_for_def split: option.splits)
  from cv_wait_for_sound [OF cv] have pred: "ok \<longleftrightarrow> ?pred rb1"
    and mem: "rb1 \<in> set (rb # map seen wakes)" and expired: "\<not> ok \<longrightarrow> Expired rb1 \<in> set wakes"
    by simp_all
  from mem assms init have inv: "rb_inv rb1" and init1: "m_initialized rb1" by auto
  from pred init1 rb_empty_iff [OF inv] have ok: "ok \<longleftrightarrow> rb_list rb1 \<noteq> []" by simp
  have "\<exists>r rb'. res = Inr (r, rb') \<and> (case rb_list rb1 of
      [] \<Rightarrow> r = None \<and> rb' = rb1 \<and> Expired rb1 \<in> set wakes
    | x # xs \<Rightarrow> r = Some x \<and> prefix xs (rb_list rb'))"
    using ok res expired pop_after_pushes [OF inv, of _ _ meanwhile]
    by (cases "rb_list rb1") (auto simp: Let_def)
  with mem show "\<exists>rb1 \<in> set (rb # map seen wakes). \<exists>r rb'. res = Inr (r, rb') \<and> (case rb_list rb1 of
      [] \<Rightarrow> r = None \<and> rb' = rb1 \<and> Expired rb1 \<in> set wakes
    | x # xs \<Rightarrow> r = Some x \<and> prefix xs (rb_list rb'))"
    by (rule rev_bexI)
next
  assume "m_initialized rb" and "\<exists>rb1. Expired rb1 \<in> set wakes"
  then obtain res where
    "cv_wait_for (\<lambda>rb. \<not> m_initialized rb \<or> \<not> rb_empty rb) rb wakes = Some res"
    using cv_wait_for_expires by metis
  with \<open>m_initialized rb\<close> show "rb_wait_pop_for rb wakes meanwhile \<noteq> None"
    by (simp add: rb_wait_pop_for_def Let_def split: prod.splits)
qed (simp add: rb_wait_pop_for_def)

theorem rb_wait_pop_for_functional_witness:
  "\<exists>rb1 \<in> set [rb_two, rb_two]. \<exists>r rb'.
     rb_wait_pop_for rb_two [Expired rb_two] [5] = Some (Inr (r, rb')) \<and> r = None \<and> rb' = rb1"
proof -
  have "rb_inv rb_two" and "m_initialized rb_two" and nil: "rb_list rb_two = []"
    using rb_init_True [OF rb_init_two] by simp_all
  with rb_wait_pop_for_functional [of rb_two "[Expired rb_two]" "[5]"]
  have all: "\<forall>res. rb_wait_pop_for rb_two [Expired rb_two] [5] = Some res \<longrightarrow>
      (\<exists>r rb'. res = Inr (r, rb') \<and> r = None \<and> rb' = rb_two)"
    and some: "rb_wait_pop_for rb_two [Expired rb_two] [5] \<noteq> None"
    by auto
  from some obtain res where res: "rb_wait_pop_for rb_two [Expired rb_two] [5] = Some res" by blast
  with all show ?thesis by auto
qed

text \<open>
  Further property (safety): in every interleaving of the consumer in \<open>wait_pop_for\<close> with a producer
  that pushes and notifies, the values received are, in order, the values accepted by \<open>push\<close>
  but for those still in the buffer; and a wait whose timeout ends with values in the buffer
  returns the oldest one, so a notification that was missed delays a value and never loses it.
\<close>

theorem ring_wait_no_loss:
  assumes "rb_init alloc_ok dflt cap rb0 = Inr (True, rb)" and "rw_exec as (rw_start rb) = Some s"
  shows "rw_sent s = rw_got s @ rb_list (rw_buffer s) \<and>
    (\<forall>s'. rw_step Timeout s = Some s' \<longrightarrow>
       (case rb_list (rw_buffer s) of [] \<Rightarrow> rw_got s' = rw_got s | x # _ \<Rightarrow> rw_got s' = rw_got s @ [x]))"
proof -
  from rb_init_True [OF assms(1)] have "rw_inv (rw_start rb)" by (simp add: rw_start_inv)
  then have inv: "rw_inv s" using assms(2) by (rule rw_exec_inv)
  obtain r rb' where deq: "rb_deq (rw_buffer s) = (r, rb')" by fastforce
  from inv ring.deq_refines [OF _ deq] have "aq_deq (rb_list (rw_buffer s)) = (r, rb_list rb')"
    by (simp add: rw_inv_def)
  with inv deq show ?thesis
    by (cases "rb_list (rw_buffer s)") (auto simp: rw_inv_def rw_return_def split: if_splits)
qed

theorem ring_wait_no_loss_witness:
  "\<exists>s. rw_exec [CallWait, GoToSleep, PushValue 4, NotifyOne, WakeUp] (rw_start rb_two) = Some s \<and>
     rw_got s = [4] \<and> rw_sent s = rw_got s @ rb_list (rw_buffer s)"
proof -
  have "map_option rw_got (rw_exec [CallWait, GoToSleep, PushValue 4, NotifyOne, WakeUp]
      (rw_start rb_two)) = Some [4]" by code_simp
  then obtain s where s: "rw_exec [CallWait, GoToSleep, PushValue 4, NotifyOne, WakeUp]
      (rw_start rb_two) = Some s" and "rw_got s = [4]" by auto
  with ring_wait_no_loss [OF rb_init_two s] show ?thesis by blast
qed

text \<open>
  Further property (liveness): a notification can be missed. \<open>push\<close> and \<open>notifyOne\<close> do not take the
  mutex of \<open>wait_pop_for\<close>, so they can both fall between the consumer's evaluation of the
  predicate and its sleep: there is a run after which the buffer holds a value, the producer
  has notified and owes no further notification, and the consumer sleeps. Nothing but the
  timeout, another notification or a spurious wake-up ends that sleep.
\<close>

theorem ring_wait_can_miss_a_notification:
  "\<exists>as s. rw_exec as (rw_start rb_two) = Some s \<and> rw_pc s = Asleep \<and> \<not> rw_notify_due s \<and>
     rb_list (rw_buffer s) \<noteq> []"
proof -
  let ?as = "[CallWait, PushValue 4, NotifyOne, GoToSleep]"
  have "map_option (\<lambda>s. (rw_pc s, rw_notify_due s, rb_list (rw_buffer s)))
      (rw_exec ?as (rw_start rb_two)) = Some (Asleep, False, [4])" by code_simp
  then obtain s where "rw_exec ?as (rw_start rb_two) = Some s"
    and "rw_pc s = Asleep" and "\<not> rw_notify_due s" and "rb_list (rw_buffer s) = [4]" by auto
  then show ?thesis by (metis list.distinct(1))
qed

end
