(* ===== verification/StopTimer.thy ===== *)
theory StopTimer
  imports Prelude
begin

text \<open>
  The class \<open>stopTimer\<close> of \<open>src/include/time/stopTimer.hpp\<close>. Clock readings are the
  nanoseconds of \<open>steady_clock\<close> and an argument of every operation that reads the clock; the
  members are milliseconds. \<open>duration_cast\<close> and \<open>time_point_cast\<close> truncate towards zero, which
  is \<open>tdiv\<close>. A duration unit (the template argument) is its length in nanoseconds. The 64-bit
  tick counts are integers here; \<open>TimerRange\<close> shows when the arithmetic at 64 bits agrees.
\<close>

definition tdiv :: "int \<Rightarrow> int \<Rightarrow> int" where
  "tdiv a b = sgn a * sgn b * (\<bar>a\<bar> div \<bar>b\<bar>)"

definition ms_unit :: int where
  "ms_unit = 1000000"

definition duration_cast :: "int \<Rightarrow> int \<Rightarrow> int" where
  "duration_cast unit ms = tdiv (ms * ms_unit) unit"

record stopTimer =
  m_start_point :: int
  m_timeout_duration :: int
  m_is_running :: bool

definition timer_new :: stopTimer where
  "timer_new = \<lparr>m_start_point = 0, m_timeout_duration = 0, m_is_running = False\<rparr>"

definition timer_with_timeout :: "int \<Rightarrow> stopTimer" where
  "timer_with_timeout timeout = timer_new\<lparr>m_timeout_duration := timeout\<rparr>"

definition CurrentTime :: "int \<Rightarrow> int" where
  "CurrentTime now = tdiv now ms_unit"

definition Timeout :: "int \<Rightarrow> stopTimer \<Rightarrow> int" where
  "Timeout unit tm = duration_cast unit (m_timeout_duration tm)"

text \<open>
  \<open>SetTimeout<Unit>\<close> casts a value of \<open>Unit\<close> to \<open>Unit\<close> and converts it to milliseconds, which
  C++ allows only for units that are whole numbers of milliseconds: here \<open>ms_per_tick\<close>.
\<close>

definition SetTimeout :: "int \<Rightarrow> int \<Rightarrow> stopTimer \<Rightarrow> stopTimer" where
  "SetTimeout ms_per_tick timeout tm = tm\<lparr>m_timeout_duration := timeout * ms_per_tick\<rparr>"

definition IsRunning :: "stopTimer \<Rightarrow> bool" where
  "IsRunning tm = m_is_running tm"

definition Reset :: "stopTimer \<Rightarrow> stopTimer" where
  "Reset tm = tm\<lparr>m_is_running := False, m_start_point := 0\<rparr>"

definition Stop :: "stopTimer \<Rightarrow> stopTimer" where
  "Stop tm = tm\<lparr>m_is_running := False\<rparr>"

definition Start :: "int \<Rightarrow> stopTimer \<Rightarrow> int \<times> stopTimer" where
  "Start now tm =
     (let tm' = tm\<lparr>m_is_running := True, m_start_point := CurrentTime now\<rparr>
      in (m_start_point tm', tm'))"

definition Start_with :: "int \<Rightarrow> int \<Rightarrow> int \<Rightarrow> stopTimer \<Rightarrow> int \<times> stopTimer" where
  "Start_with ms_per_tick new_timeout now tm =
     (let tm' = (SetTimeout ms_per_tick new_timeout tm)
                  \<lparr>m_is_running := True, m_start_point := CurrentTime now\<rparr>
      in (m_start_point tm', tm'))"

definition ElapsedTime :: "int \<Rightarrow> int \<Rightarrow> stopTimer \<Rightarrow> int" where
  "ElapsedTime unit now tm =
     (if \<not> IsRunning tm then 0
      else let elapsed = CurrentTime now - m_start_point tm in duration_cast unit elapsed)"

definition IsElapsed :: "int \<Rightarrow> stopTimer \<Rightarrow> bool option" where
  "IsElapsed now tm =
     (if \<not> m_is_running tm then None
      else if m_timeout_duration tm = 0 then Some True
      else Some (ElapsedTime ms_unit now tm > m_timeout_duration tm))"

definition IsRunningAndElapsed :: "int \<Rightarrow> stopTimer \<Rightarrow> bool" where
  "IsRunningAndElapsed now tm = (case IsElapsed now tm of None \<Rightarrow> False | Some b \<Rightarrow> b)"

definition LeftTime :: "int \<Rightarrow> int \<Rightarrow> stopTimer \<Rightarrow> int" where
  "LeftTime unit now tm =
     (if \<not> IsRunning tm then 0
      else let remaining = m_timeout_duration tm - ElapsedTime ms_unit now tm
           in duration_cast unit remaining)"

lemmas timer_defs = timer_new_def timer_with_timeout_def Start_def Start_with_def Stop_def Reset_def
  SetTimeout_def IsRunning_def IsElapsed_def IsRunningAndElapsed_def ElapsedTime_def LeftTime_def
  Let_def

subsection \<open>Arithmetic of the casts\<close>

lemma tdiv_nonneg: "0 \<le> a \<Longrightarrow> 0 < b \<Longrightarrow> tdiv a b = a div b"
  by (cases "a = 0") (simp_all add: tdiv_def)

lemma tdiv_exact [simp]: "0 < b \<Longrightarrow> tdiv (a * b) b = a"
  by (simp add: tdiv_def sgn_mult abs_mult abs_sgn mult.commute)

lemma duration_cast_ms [simp]: "duration_cast ms_unit ms = ms"
  by (simp add: duration_cast_def ms_unit_def)

lemma CurrentTime_div: "0 \<le> now \<Longrightarrow> CurrentTime now = now div ms_unit"
  by (simp add: CurrentTime_def tdiv_nonneg ms_unit_def)

text \<open>The difference of two truncated readings is within a unit of the true difference.\<close>

lemma ms_bounds: "ms_unit * (a div ms_unit) \<le> a" "a < ms_unit * (a div ms_unit) + ms_unit"
  using mult_div_mod_eq [of ms_unit a] pos_mod_bound [of ms_unit a] pos_mod_sign [of ms_unit a]
  unfolding ms_unit_def by linarith+

lemma ms_difference:
  "d < now div ms_unit - start div ms_unit \<Longrightarrow> d * ms_unit < now - start"
  "(d + 1) * ms_unit \<le> now - start \<Longrightarrow> d < now div ms_unit - start div ms_unit"
  using ms_bounds [of now] ms_bounds [of start] unfolding ms_unit_def distrib_right mult_1
  by linarith+

lemma ms_mono: "a \<le> b \<Longrightarrow> a div ms_unit \<le> b div ms_unit"
  by (simp add: zdiv_mono1 ms_unit_def)

subsection \<open>Properties\<close>

text \<open>
  Further property (functional, bounds): a timer started at \<open>start\<close> with a timeout above zero never
  reports that it has elapsed before more than the timeout has passed on the nanosecond clock,
  always reports it from one millisecond after the timeout on, and once it has reported it keeps
  reporting it until it is started, stopped or reset.
\<close>

theorem timer_fires_within_a_millisecond:
  assumes "0 \<le> start" and "start \<le> now" and "now \<le> later" and "0 < timeout"
  shows "let tm = snd (Start_with 1 timeout start t0) in
    (IsElapsed now tm = Some True \<longrightarrow> timeout * ms_unit < now - start) \<and>
    ((timeout + 1) * ms_unit \<le> now - start \<longrightarrow> IsElapsed now tm = Some True) \<and>
    (IsElapsed now tm = Some True \<longrightarrow> IsElapsed later tm = Some True)"
  using assms ms_difference [of timeout now start] ms_mono [OF assms(3)]
  by (auto simp: timer_defs CurrentTime_div)

theorem timer_fires_within_a_millisecond_witness:
  "IsElapsed 106000000 (snd (Start_with 1 100 5000000 timer_new)) = Some True \<and>
   IsElapsed 105999999 (snd (Start_with 1 100 5000000 timer_new)) = Some False"
proof -
  have "IsElapsed 106000000 (snd (Start_with 1 100 5000000 timer_new)) = Some True"
    using timer_fires_within_a_millisecond [of 5000000 106000000 106000000 100 timer_new]
    by (simp add: Let_def ms_unit_def)
  moreover have "IsElapsed 105999999 (snd (Start_with 1 100 5000000 timer_new)) = Some False"
    by code_simp
  ultimately show ?thesis by simp
qed

text \<open>
  Further property (functional): the queries agree. A timer that is not running answers nothing and
  zero; a running timer with timeout zero has elapsed at once; on a running timer with another
  timeout, elapsed and left time add up to the timeout, and it has elapsed exactly when the left
  time is negative: at the moment the left time is zero it has not elapsed yet.
\<close>

theorem timer_queries_agree:
  "(\<not> IsRunning tm \<longrightarrow> IsElapsed now tm = None \<and> \<not> IsRunningAndElapsed now tm \<and>
      ElapsedTime unit now tm = 0 \<and> LeftTime unit now tm = 0) \<and>
   (IsRunning tm \<longrightarrow>
      LeftTime ms_unit now tm + ElapsedTime ms_unit now tm = Timeout ms_unit tm \<and>
      (IsRunningAndElapsed now tm \<longleftrightarrow> Timeout ms_unit tm = 0 \<or> LeftTime ms_unit now tm < 0))"
  by (auto simp: timer_defs Timeout_def)

theorem timer_queries_agree_witness:
  "let tm = snd (Start_with 1 100 0 timer_new) in
     LeftTime ms_unit 100000000 tm = 0 \<and> \<not> IsRunningAndElapsed 100000000 tm \<and>
     LeftTime ms_unit 100000000 tm + ElapsedTime ms_unit 100000000 tm = 100"
proof -
  let ?tm = "snd (Start_with 1 100 0 timer_new)"
  have "IsRunning ?tm" and "Timeout ms_unit ?tm = 100" and "LeftTime ms_unit 100000000 ?tm = 0"
    by (simp_all add: timer_defs Timeout_def CurrentTime_def ms_unit_def duration_cast_def tdiv_def)
  with timer_queries_agree [of ?tm 100000000 ms_unit] show ?thesis by (simp add: Let_def)
qed

text \<open>
  Further property (functional): \<open>Stop\<close> and \<open>Reset\<close> both end the run and keep the timeout, and a
  \<open>Start\<close> after either of them begins a fresh interval, whatever the start point was.
\<close>

theorem timer_restart:
  "\<not> IsRunning (Stop tm) \<and> \<not> IsRunning (Reset tm) \<and>
   Timeout unit (Stop tm) = Timeout unit tm \<and> Timeout unit (Reset tm) = Timeout unit tm \<and>
   snd (Start now (Stop tm)) = snd (Start now tm) \<and> snd (Start now (Reset tm)) = snd (Start now tm) \<and>
   ElapsedTime ms_unit now (snd (Start now tm)) = 0 \<and> fst (Start now tm) = CurrentTime now"
  by (cases tm) (simp add: timer_defs Timeout_def)

end
