(* ===== verification/TestThreads.thy ===== *)
theory TestThreads
  imports DataTypes RingWait StopTimer
begin

text \<open>
  The five threads of \<open>src/include/testThreads.hpp\<close>, one iteration of each \<open>run\<close> loop at a time. An
  iteration takes what it got from its wait (a command, or a message or a null pointer) and the
  clock readings it makes, and returns the sends it performs, in order, and its new state. The
  local counters of \<open>run\<close> are arguments and results: they start at zero whenever \<open>run\<close> is entered.
  The result \<open>None\<close> is a signed overflow of a counter. How the iterations of the five threads
  interleave is in \<open>Chain\<close>, and what they print in \<open>ThreadLog\<close>.
\<close>

datatype tid = OI | AO | PT | TT | RT

text \<open>The threads can be enumerated, so statements about all of them can be evaluated.\<close>

instantiation tid :: enum
begin

definition enum_tid :: "tid list" where
  "enum_tid = [OI, AO, PT, TT, RT]"

definition enum_all_tid :: "(tid \<Rightarrow> bool) \<Rightarrow> bool" where
  "enum_all_tid P \<longleftrightarrow> P OI \<and> P AO \<and> P PT \<and> P TT \<and> P RT"

definition enum_ex_tid :: "(tid \<Rightarrow> bool) \<Rightarrow> bool" where
  "enum_ex_tid P \<longleftrightarrow> P OI \<or> P AO \<or> P PT \<or> P TT \<or> P RT"

instance
proof
  have "u \<in> set enum_class.enum" for u :: tid by (cases u) (simp_all add: enum_tid_def)
  then show univ: "UNIV = set (enum_class.enum :: tid list)" by blast
  show "distinct (enum_class.enum :: tid list)" by (simp add: enum_tid_def)
  show "enum_class.enum_all P \<longleftrightarrow> Ball UNIV P" for P :: "tid \<Rightarrow> bool"
    unfolding univ by (simp add: enum_all_tid_def enum_tid_def)
  show "enum_class.enum_ex P \<longleftrightarrow> Bex UNIV P" for P :: "tid \<Rightarrow> bool"
    unfolding univ by (simp add: enum_ex_tid_def enum_tid_def)
qed

end

text \<open>Numbers of the threads, for the log and for the monitors.\<close>

definition thread_number :: "tid \<Rightarrow> nat" where
  "thread_number u = (case u of OI \<Rightarrow> 0 | AO \<Rightarrow> 1 | PT \<Rightarrow> 2 | TT \<Rightarrow> 3 | RT \<Rightarrow> 4)"

lemma thread_number_eq [simp]: "thread_number u = thread_number v \<longleftrightarrow> u = v"
  by (cases u; cases v) (simp_all add: thread_number_def)

datatype observer_mode = Normal | Stress

record Observer =
  oi_next :: "tid Sender option"
  oi_directToProcessing :: "tid Sender option"
  oi_cmdBuffer :: "ObserverCommand SpScRingBuffer"
  oi_pauseUntil :: int
  oi_stressUntil :: int
  oi_mode :: observer_mode
  oi_interval :: int

definition seconds :: "int \<Rightarrow> int" where
  "seconds s = s * 1000000000"

definition oi_new :: "(nat \<Rightarrow> bool) \<Rightarrow> rb_fault + Observer" where
  "oi_new alloc_ok =
     (case rb_init alloc_ok command_default 8 rb_new of
        Inl fault \<Rightarrow> Inl fault
      | Inr (_, rb) \<Rightarrow> Inr \<lparr>oi_next = None, oi_directToProcessing = None, oi_cmdBuffer = rb,
          oi_pauseUntil = 0, oi_stressUntil = 0, oi_mode = Normal, oi_interval = 2000\<rparr>)"

definition oi_setNext :: "tid Sender \<Rightarrow> Observer \<Rightarrow> Observer" where
  "oi_setNext sender oi = oi\<lparr>oi_next := Some sender\<rparr>"

definition oi_setDirectToProcessing :: "tid Sender \<Rightarrow> Observer \<Rightarrow> Observer" where
  "oi_setDirectToProcessing sender oi = oi\<lparr>oi_directToProcessing := Some sender\<rparr>"

text \<open>The notification that follows a successful push is in \<open>RingWait\<close>.\<close>

definition oi_sendCommand :: "ObserverCommand \<Rightarrow> Observer \<Rightarrow> rb_fault + (bool \<times> Observer)" where
  "oi_sendCommand cmd oi =
     (case rb_push cmd (oi_cmdBuffer oi) of
        Inl fault \<Rightarrow> Inl fault
      | Inr (ok, rb) \<Rightarrow> if \<not> ok then Inr (False, oi) else Inr (True, oi\<lparr>oi_cmdBuffer := rb\<rparr>))"

definition oi_applyCommand :: "int \<Rightarrow> ObserverCommand \<Rightarrow> Observer \<Rightarrow> Observer" where
  "oi_applyCommand now cmd oi = (case command_type cmd of
     StopObserving \<Rightarrow> oi\<lparr>oi_pauseUntil := now + seconds (durationSec cmd)\<rparr>
   | StartObserving \<Rightarrow> oi\<lparr>oi_pauseUntil := now + seconds (durationSec cmd)\<rparr>
   | StressMode \<Rightarrow> oi\<lparr>oi_mode := Stress, oi_interval := 10, oi_stressUntil := now + seconds 30\<rparr>
   | SetNormalMode \<Rightarrow> oi\<lparr>oi_mode := Normal, oi_interval := 500\<rparr>)"

definition oi_leaveStress :: "int \<Rightarrow> Observer \<Rightarrow> Observer" where
  "oi_leaveStress now oi =
     (if oi_mode oi = Stress \<and> now \<ge> oi_stressUntil oi
      then oi\<lparr>oi_mode := Normal, oi_interval := 2000\<rparr> else oi)"

definition file_event :: "int \<Rightarrow> int \<Rightarrow> FileEvent" where
  "file_event count now = \<lparr>fileName = ''file_'' @ decimal_int count @ ''.txt'',
     fileSize = 1024 * word_of_int count, sendTime = now\<rparr>"

text \<open>
  The four clock readings of an iteration: in \<open>applyCommand\<close>, for the end of the stress mode, for
  the pause, and for the event.
\<close>

record readings =
  at_command :: int
  at_stress :: int
  at_pause :: int
  at_event :: int

definition oi_iteration ::
  "ObserverCommand option \<Rightarrow> readings \<Rightarrow> int \<Rightarrow> Observer \<Rightarrow>
     ((tid Sender \<times> payload) list \<times> int \<times> Observer) option"
where
  "oi_iteration cmd t count oi =
     (let oi = (case cmd of None \<Rightarrow> oi | Some c \<Rightarrow> oi_applyCommand (at_command t) c oi);
          oi = oi_leaveStress (at_stress t) oi
      in if at_pause t < oi_pauseUntil oi then Some ([], count, oi)
         else (case int_succ count of
                 None \<Rightarrow> None
               | Some count \<Rightarrow>
                   Some ((case oi_next oi of None \<Rightarrow> [] | Some s \<Rightarrow> [(s, FileMsg (file_event count (at_event t)))]) @
                         (case oi_directToProcessing oi of None \<Rightarrow> []
                          | Some s \<Rightarrow> [(s, DirectMsg \<lparr>direct_counter = count\<rparr>)]),
                         count, oi)))"

definition oi_modeLabel :: "Observer \<Rightarrow> string" where
  "oi_modeLabel oi = (if oi_mode oi = Stress then ''STRESS'' else ''normal'')"

subsection \<open>The consumers\<close>

record AppObserver =
  ao_next :: "tid Sender option"
  ao_mirror :: "tid Sender option"

definition ao_new :: AppObserver where
  "ao_new = \<lparr>ao_next = None, ao_mirror = None\<rparr>"

definition ao_setNext :: "tid Sender \<Rightarrow> AppObserver \<Rightarrow> AppObserver" where
  "ao_setNext sender ao = ao\<lparr>ao_next := Some sender\<rparr>"

definition ao_setMirror :: "tid Sender \<Rightarrow> AppObserver \<Rightarrow> AppObserver" where
  "ao_setMirror sender ao = ao\<lparr>ao_mirror := Some sender\<rparr>"

text \<open>The only member of the next two classes is their \<open>m_next\<close>.\<close>

definition pt_setNext :: "tid Sender \<Rightarrow> tid Sender option \<Rightarrow> tid Sender option" where
  "pt_setNext sender m_next = Some sender"

definition tt_setNext :: "tid Sender \<Rightarrow> tid Sender option \<Rightarrow> tid Sender option" where
  "tt_setNext sender m_next = Some sender"

lemmas setter_defs [simp] = ao_new_def ao_setNext_def ao_setMirror_def pt_setNext_def tt_setNext_def

text \<open>None of the five threads has a condition for its start.\<close>

definition isReadyToStart :: "tid \<Rightarrow> bool" where
  "isReadyToStart u = (case u of OI \<Rightarrow> True | AO \<Rightarrow> True | PT \<Rightarrow> True | TT \<Rightarrow> True | RT \<Rightarrow> True)"

lemma always_ready [simp]: "isReadyToStart = (\<lambda>_. True)"
  by (rule ext) (simp add: isReadyToStart_def split: tid.split)

definition app_event :: "FileEvent \<Rightarrow> AppEvent" where
  "app_event fe = \<lparr>appName = ''App1'', eventDescription = fileName fe, originalFile = fe\<rparr>"

definition ao_iteration ::
  "payload option \<Rightarrow> AppObserver \<Rightarrow> int \<Rightarrow> ((tid Sender \<times> payload) list \<times> int) option"
where
  "ao_iteration msg ao mirrorCounter = (case pointer_cast as_FileEvent msg of
     None \<Rightarrow> Some ([], mirrorCounter)
   | Some fe \<Rightarrow>
       let onward = (case ao_next ao of None \<Rightarrow> [] | Some s \<Rightarrow> [(s, AppMsg (app_event fe))])
       in (case ao_mirror ao of
             None \<Rightarrow> Some (onward, mirrorCounter)
           | Some s \<Rightarrow>
               (case int_succ mirrorCounter of
                  None \<Rightarrow> None
                | Some n \<Rightarrow>
                    Some ((s, MirrorMsg \<lparr>mirror_counter = n, mirror_message = fileName fe\<rparr>) # onward, n))))"

definition processed_data :: "AppEvent \<Rightarrow> ProcessedData" where
  "processed_data ae = \<lparr>dataId = ''DATA-'' @ decimal (unat (fileSize (originalFile ae))),
     processingResult = 42, originalAppEvent = ae\<rparr>"

definition pt_iteration :: "payload option \<Rightarrow> tid Sender option \<Rightarrow> (tid Sender \<times> payload) list" where
  "pt_iteration msg pt_next = (case pointer_cast as_AppEvent msg of
     None \<Rightarrow> []
   | Some ae \<Rightarrow> (case pt_next of None \<Rightarrow> [] | Some s \<Rightarrow> [(s, ProcessedMsg (processed_data ae))]))"

definition transformed_data :: "ProcessedData \<Rightarrow> TransformedData" where
  "transformed_data pd = \<lparr>transformationType = ''MathTransform'',
     transformed_value = of_int (processingResult pd) * (3 / 2), originalData = pd\<rparr>"

definition tt_iteration :: "payload option \<Rightarrow> tid Sender option \<Rightarrow> (tid Sender \<times> payload) list" where
  "tt_iteration msg tt_next = (case pointer_cast as_ProcessedData msg of
     None \<Rightarrow> []
   | Some pd \<Rightarrow> (case tt_next of None \<Rightarrow> [] | Some s \<Rightarrow> [(s, TransformedMsg (transformed_data pd))]))"

text \<open>The line \<open>ResultThread\<close> prints: file name, value, and the latency in microseconds.\<close>

definition rt_iteration :: "payload option \<Rightarrow> int \<Rightarrow> (string \<times> rat \<times> int) option" where
  "rt_iteration msg recvTime = (case pointer_cast as_TransformedData msg of
     None \<Rightarrow> None
   | Some td \<Rightarrow>
       let fe = originalFile (originalAppEvent (originalData td))
       in Some (fileName fe, transformed_value td, tdiv (recvTime - sendTime fe) 1000))"

end
