(* ===== verification/Observer.thy ===== *)
theory Observer
  imports TestThreads
begin

text \<open>
  What \<open>ObserverIncomingThread\<close> of \<open>src/include/testThreads.hpp\<close> does over a whole run: its modes,
  its pauses, the numbering of its events and its command buffer. \<open>oi_run\<close> repeats the iteration
  of the \<open>run\<close> loop on a list of inputs, each the command its wait returned (if any) and the clock
  readings of that iteration.
\<close>

fun oi_run ::
  "(ObserverCommand option \<times> readings) list \<Rightarrow> int \<Rightarrow> Observer \<Rightarrow>
     ((tid Sender \<times> payload) list \<times> int \<times> Observer) option"
where
  "oi_run [] count oi = Some ([], count, oi)"
| "oi_run ((cmd, t) # inputs) count oi =
     (case oi_iteration cmd t count oi of
        None \<Rightarrow> None
      | Some (sends, count1, oi1) \<Rightarrow>
          (case oi_run inputs count1 oi1 of
             None \<Rightarrow> None
           | Some (later, count2, oi2) \<Rightarrow> Some (sends @ later, count2, oi2)))"

definition changes_mode :: "ObserverCommand option \<Rightarrow> bool" where
  "changes_mode cmd = (case cmd of None \<Rightarrow> False | Some c \<Rightarrow> command_type c \<in> {StressMode, SetNormalMode})"

definition changes_pause :: "ObserverCommand option \<Rightarrow> bool" where
  "changes_pause cmd = (case cmd of None \<Rightarrow> False | Some c \<Rightarrow> command_type c \<in> {StopObserving, StartObserving})"

lemma oi_runE:
  assumes "oi_run ((cmd, t) # inputs) count oi = Some (sends, count2, oi2)"
  obtains s1 count1 oi1 s2 where "oi_iteration cmd t count oi = Some (s1, count1, oi1)"
    "oi_run inputs count1 oi1 = Some (s2, count2, oi2)" "sends = s1 @ s2"
  using assms by (auto split: option.splits)

lemma oi_apply_cases:
  "oi_applyCommand now cmd oi = oi\<lparr>oi_pauseUntil := now + seconds (durationSec cmd)\<rparr> \<and>
     command_type cmd \<in> {StopObserving, StartObserving} \<or>
   oi_applyCommand now cmd oi = oi\<lparr>oi_mode := Stress, oi_interval := 10, oi_stressUntil := now + seconds 30\<rparr> \<and>
     command_type cmd = StressMode \<or>
   oi_applyCommand now cmd oi = oi\<lparr>oi_mode := Normal, oi_interval := 500\<rparr> \<and>
     command_type cmd = SetNormalMode"
  by (cases "command_type cmd") (simp_all add: oi_applyCommand_def)

text \<open>The state an iteration leaves, without its sends.\<close>

definition oi_after :: "ObserverCommand option \<Rightarrow> readings \<Rightarrow> Observer \<Rightarrow> Observer" where
  "oi_after cmd t oi = oi_leaveStress (at_stress t)
     (case cmd of None \<Rightarrow> oi | Some c \<Rightarrow> oi_applyCommand (at_command t) c oi)"

lemma oi_iteration_state:
  assumes "oi_iteration cmd t count oi = Some (sends, count1, oi1)"
  shows "oi1 = oi_after cmd t oi"
    and "count1 = (if at_pause t < oi_pauseUntil oi1 then count else count + 1)"
    and "count \<le> int_max \<Longrightarrow> count1 \<le> int_max"
  using assms by (auto simp: oi_iteration_def oi_after_def Let_def int_succ_Some split: if_splits option.splits)

lemma oi_after_senders [simp]:
  "oi_next (oi_after cmd t oi) = oi_next oi"
  "oi_directToProcessing (oi_after cmd t oi) = oi_directToProcessing oi"
  by (auto simp: oi_after_def oi_leaveStress_def oi_applyCommand_def split: option.splits command_type.splits)

lemma oi_after_pause [simp]:
  "\<not> changes_pause cmd \<Longrightarrow> oi_pauseUntil (oi_after cmd t oi) = oi_pauseUntil oi"
  by (auto simp: oi_after_def oi_leaveStress_def oi_applyCommand_def changes_pause_def
      split: option.splits command_type.splits)

lemma oi_after_stress:
  "\<not> changes_mode cmd \<Longrightarrow> oi_stressUntil (oi_after cmd t oi) = oi_stressUntil oi \<and>
     (if oi_mode oi = Stress \<and> oi_stressUntil oi \<le> at_stress t
      then oi_mode (oi_after cmd t oi) = Normal \<and> oi_interval (oi_after cmd t oi) = 2000
      else oi_mode (oi_after cmd t oi) = oi_mode oi \<and> oi_interval (oi_after cmd t oi) = oi_interval oi)"
  by (auto simp: oi_after_def oi_leaveStress_def oi_applyCommand_def changes_mode_def
      split: option.splits command_type.splits)

definition oi_modes_ok :: "Observer \<Rightarrow> bool" where
  "oi_modes_ok oi \<longleftrightarrow> (case oi_mode oi of Stress \<Rightarrow> oi_interval oi = 10 | Normal \<Rightarrow> oi_interval oi \<in> {500, 2000})"

lemma oi_modes_after: "oi_modes_ok oi \<Longrightarrow> oi_modes_ok (oi_after cmd t oi) \<and>
    (oi_mode (oi_after cmd t oi) = Stress \<longrightarrow> at_stress t < oi_stressUntil (oi_after cmd t oi))"
  by (auto simp: oi_modes_ok_def oi_after_def oi_leaveStress_def oi_applyCommand_def
      split: option.splits command_type.splits observer_mode.splits)

lemma oi_run_modes:
  "oi_run inputs count oi = Some (sends, count', oi') \<Longrightarrow> oi_modes_ok oi \<Longrightarrow> oi_modes_ok oi' \<and>
     (inputs \<noteq> [] \<and> oi_mode oi' = Stress \<longrightarrow> at_stress (snd (last inputs)) < oi_stressUntil oi')"
proof (induction inputs arbitrary: count oi sends)
  case (Cons i inputs)
  obtain cmd t where i: "i = (cmd, t)" by fastforce
  from Cons.prems(1) [unfolded i] show ?case
  proof (rule oi_runE)
    fix s1 count1 oi1 s2
    assume it: "oi_iteration cmd t count oi = Some (s1, count1, oi1)"
      and run: "oi_run inputs count1 oi1 = Some (s2, count', oi')"
    from oi_modes_after [OF Cons.prems(2), of cmd t] oi_iteration_state(1) [OF it]
    have ok: "oi_modes_ok oi1" "oi_mode oi1 = Stress \<longrightarrow> at_stress t < oi_stressUntil oi1" by simp_all
    show ?thesis
    proof (cases inputs)
      case Nil
      with run ok i show ?thesis by simp
    next
      case Cons
      with Cons.IH [OF run ok(1)] i show ?thesis by simp
    qed
  qed
qed simp

text \<open>The numbered events of a run.\<close>

lemma oi_run_numbering:
  assumes "oi_run inputs count oi = Some (sends, count', oi')"
    and "oi_next oi = Some s" and "oi_directToProcessing oi = Some d" and "count \<le> int_max"
  shows "count \<le> count' \<and> count' \<le> int_max \<and>
    map fileName (pick as_FileEvent (map snd sends)) =
      map (\<lambda>k. ''file_'' @ decimal_int k @ ''.txt'') [count + 1..count'] \<and>
    map fileSize (pick as_FileEvent (map snd sends)) = map (\<lambda>k. 1024 * word_of_int k) [count + 1..count'] \<and>
    filter (\<lambda>m. as_FileEvent m = None) (map snd sends) =
      map (\<lambda>k. DirectMsg \<lparr>direct_counter = k\<rparr>) [count + 1..count']"
  using assms
proof (induction inputs arbitrary: count oi sends)
  case (Cons i inputs)
  obtain cmd t where i: "i = (cmd, t)" by fastforce
  from Cons.prems(1) [unfolded i] show ?case
  proof (rule oi_runE)
    fix s1 count1 oi1 s2
    assume it: "oi_iteration cmd t count oi = Some (s1, count1, oi1)"
      and run: "oi_run inputs count1 oi1 = Some (s2, count', oi')" and sends: "sends = s1 @ s2"
    from oi_iteration_state [OF it] Cons.prems have oi1: "oi_next oi1 = Some s"
      "oi_directToProcessing oi1 = Some d" "count1 \<le> int_max" by simp_all
    note IH = Cons.IH [OF run oi1]
    from it Cons.prems(2,3) have "count1 = count \<and> s1 = [] \<or> count1 = count + 1 \<and>
        s1 = [(s, FileMsg (file_event count1 (at_event t))), (d, DirectMsg \<lparr>direct_counter = count1\<rparr>)]"
      by (auto simp: oi_iteration_def Let_def int_succ_Some oi_applyCommand_def oi_leaveStress_def
          split: if_splits option.splits command_type.splits)
    then show ?thesis
    proof
      assume one: "count1 = count + 1 \<and>
        s1 = [(s, FileMsg (file_event count1 (at_event t))), (d, DirectMsg \<lparr>direct_counter = count1\<rparr>)]"
      with IH have "[count + 1..count'] = (count + 1) # [count + 1 + 1..count']"
        by (intro upto_rec1) simp
      with one IH sends show ?thesis by (simp add: file_event_def)
    qed (use IH sends in simp)
  qed
qed simp

text \<open>Without further commands the stress mode ends at its deadline, and a pause at its own.\<close>

lemma oi_run_normal:
  "oi_run inputs count oi = Some (sends, count', oi') \<Longrightarrow> \<forall>(cmd, t) \<in> set inputs. \<not> changes_mode cmd \<Longrightarrow>
     oi_mode oi = Normal \<Longrightarrow> oi_mode oi' = Normal \<and> oi_interval oi' = oi_interval oi"
proof (induction inputs arbitrary: count oi sends)
  case (Cons i inputs)
  obtain cmd t where i: "i = (cmd, t)" by fastforce
  from Cons.prems(1) [unfolded i] show ?case
  proof (rule oi_runE)
    fix s1 count1 oi1 s2
    assume it: "oi_iteration cmd t count oi = Some (s1, count1, oi1)"
      and run: "oi_run inputs count1 oi1 = Some (s2, count', oi')"
    from Cons.prems i oi_after_stress [of cmd t oi] oi_iteration_state(1) [OF it]
    have "oi_mode oi1 = Normal" "oi_interval oi1 = oi_interval oi" by simp_all
    with Cons.IH [OF run] Cons.prems(2) show ?thesis by simp
  qed
qed simp

lemma oi_run_stress:
  "oi_run inputs count oi = Some (sends, count', oi') \<Longrightarrow> \<forall>(cmd, t) \<in> set inputs. \<not> changes_mode cmd \<Longrightarrow>
     oi_mode oi = Stress \<Longrightarrow>
     (if \<forall>(cmd, t) \<in> set inputs. at_stress t < oi_stressUntil oi
      then oi_mode oi' = Stress \<and> oi_interval oi' = oi_interval oi
      else oi_mode oi' = Normal \<and> oi_interval oi' = 2000)"
proof (induction inputs arbitrary: count oi sends)
  case (Cons i inputs)
  obtain cmd t where i: "i = (cmd, t)" by fastforce
  from Cons.prems(1) [unfolded i] show ?case
  proof (rule oi_runE)
    fix s1 count1 oi1 s2
    assume it: "oi_iteration cmd t count oi = Some (s1, count1, oi1)"
      and run: "oi_run inputs count1 oi1 = Some (s2, count', oi')"
    from Cons.prems i oi_after_stress [of cmd t oi] oi_iteration_state(1) [OF it]
    have oi1: "oi_stressUntil oi1 = oi_stressUntil oi" "if oi_stressUntil oi \<le> at_stress t
      then oi_mode oi1 = Normal \<and> oi_interval oi1 = 2000
      else oi_mode oi1 = Stress \<and> oi_interval oi1 = oi_interval oi" by simp_all
    have quiet: "\<forall>(cmd, t) \<in> set inputs. \<not> changes_mode cmd" using Cons.prems(2) by simp
    show ?thesis
    proof (cases "oi_stressUntil oi \<le> at_stress t")
      case True
      with oi1 oi_run_normal [OF run quiet] i show ?thesis by simp
    next
      case False
      with oi1 Cons.IH [OF run quiet] i show ?thesis by simp
    qed
  qed
qed simp

lemma oi_run_pause:
  "oi_run inputs count oi = Some (sends, count', oi') \<Longrightarrow> \<forall>(cmd, t) \<in> set inputs. \<not> changes_pause cmd \<Longrightarrow>
     oi_pauseUntil oi' = oi_pauseUntil oi \<and>
     count' = count + int (length (filter (\<lambda>(_, t). oi_pauseUntil oi \<le> at_pause t) inputs))"
proof (induction inputs arbitrary: count oi sends)
  case (Cons i inputs)
  obtain cmd t where i: "i = (cmd, t)" by fastforce
  from Cons.prems(1) [unfolded i] show ?case
  proof (rule oi_runE)
    fix s1 count1 oi1 s2
    assume it: "oi_iteration cmd t count oi = Some (s1, count1, oi1)"
      and run: "oi_run inputs count1 oi1 = Some (s2, count', oi')"
    from Cons.prems(2) i oi_iteration_state [OF it]
    have "oi_pauseUntil oi1 = oi_pauseUntil oi"
      "count1 = (if at_pause t < oi_pauseUntil oi then count else count + 1)" by simp_all
    with Cons.IH [OF run] Cons.prems(2) i show ?thesis by simp
  qed
qed simp

subsection \<open>The command buffer\<close>

definition oi_cmds_ok :: "Observer \<Rightarrow> bool" where
  "oi_cmds_ok oi \<longleftrightarrow> rb_inv (oi_cmdBuffer oi) \<and> rb_bound (oi_cmdBuffer oi) = Some 7"

definition oi_pending :: "Observer \<Rightarrow> ObserverCommand list" where
  "oi_pending oi = rb_list (oi_cmdBuffer oi)"

lemma oi_new_ok:
  assumes "oi_new alloc_ok = Inr oi"
  shows "oi_cmds_ok oi \<and> oi_pending oi = [] \<and> oi_modes_ok oi \<and> oi_pauseUntil oi = 0 \<and> oi_mode oi = Normal"
proof -
  from assms obtain b rb where init: "rb_init alloc_ok command_default 8 rb_new = Inr (b, rb)"
    and oi: "oi = \<lparr>oi_next = None, oi_directToProcessing = None, oi_cmdBuffer = rb,
          oi_pauseUntil = 0, oi_stressUntil = 0, oi_mode = Normal, oi_interval = 2000\<rparr>"
    by (auto simp: oi_new_def split: sum.splits)
  from init have b: b by (auto simp: rb_init_def split: if_splits option.splits)
  with init rb_init_True [of alloc_ok command_default 8 rb_new rb] oi show ?thesis
    by (simp add: oi_cmds_ok_def oi_pending_def oi_modes_ok_def rb_bound_def)
qed

lemma oi_new_exists: "\<exists>oi. oi_new (\<lambda>_. True) = Inr oi"
  by (simp add: oi_new_def rb_init_def vector_resize_def)

fun oi_send_all :: "ObserverCommand list \<Rightarrow> Observer \<Rightarrow> bool list \<times> Observer" where
  "oi_send_all [] oi = ([], oi)"
| "oi_send_all (c # cs) oi =
     (case oi_sendCommand c oi of
        Inl _ \<Rightarrow> ([], oi)
      | Inr (ok, oi') \<Rightarrow> (case oi_send_all cs oi' of (oks, oi'') \<Rightarrow> (ok # oks, oi'')))"

lemma oi_sendCommand_correct:
  assumes "oi_cmds_ok oi"
  obtains oi' where "oi_sendCommand cmd oi = Inr (length (oi_pending oi) < 7, oi')" "oi_cmds_ok oi'"
    "oi_pending oi' = oi_pending oi @ (if length (oi_pending oi) < 7 then [cmd] else [])"
proof -
  from assms obtain ok rb where "rb_push cmd (oi_cmdBuffer oi) = Inr (ok, rb)" "rb_inv rb"
    "rb_bound rb = Some 7" "aq_enq (Some 7) cmd (oi_pending oi) = (ok, rb_list rb)"
    unfolding oi_cmds_ok_def oi_pending_def by (metis rb_push_correct)
  with assms show ?thesis
    by (intro that [of "if ok then oi\<lparr>oi_cmdBuffer := rb\<rparr> else oi"])
      (auto simp: oi_sendCommand_def oi_cmds_ok_def oi_pending_def aq_enq_def split: if_splits)
qed

lemma oi_send_all_correct:
  "oi_cmds_ok oi \<Longrightarrow> length (oi_pending oi) \<le> 7 \<Longrightarrow> oi_send_all cmds oi = (oks, oi') \<Longrightarrow>
     let room = 7 - length (oi_pending oi) in
     oks = replicate (min room (length cmds)) True @ replicate (length cmds - room) False \<and>
     oi_pending oi' = oi_pending oi @ take room cmds"
proof (induction cmds arbitrary: oi oks)
  case (Cons c cs)
  obtain oi1 where send: "oi_sendCommand c oi = Inr (length (oi_pending oi) < 7, oi1)"
    and ok: "oi_cmds_ok oi1"
    and pend: "oi_pending oi1 = oi_pending oi @ (if length (oi_pending oi) < 7 then [c] else [])"
    using Cons.prems(1) by (rule oi_sendCommand_correct)
  obtain oks' where all: "oi_send_all cs oi1 = (oks', oi')"
    and oks: "oks = (length (oi_pending oi) < 7) # oks'"
    using Cons.prems(3) send by (auto split: prod.splits)
  have "length (oi_pending oi1) \<le> 7" using pend Cons.prems(2) by simp
  note IH = Cons.IH [OF ok this all]
  show ?case
  proof (cases "length (oi_pending oi) < 7")
    case True
    then obtain room where "7 - length (oi_pending oi) = Suc room" by (metis Suc_diff_Suc)
    moreover from this pend True have "7 - length (oi_pending oi1) = room" by simp
    ultimately show ?thesis using IH oks pend True by simp
  next
    case False
    with Cons.prems(2) have "length (oi_pending oi) = 7" by simp
    with IH oks pend show ?thesis by simp
  qed
qed simp

subsection \<open>Properties\<close>

text \<open>
  Further property (invariant): after any run of the observer the mode and the interval agree: 10 ms in
  stress mode, 500 or 2000 ms in normal mode; and an iteration leaves the stress mode on only
  while its deadline has not been reached.
\<close>

theorem observer_modes:
  assumes "oi_new alloc_ok = Inr oi0" and "oi_run inputs 0 oi0 = Some (sends, count, oi)"
  shows "(case oi_mode oi of Stress \<Rightarrow> oi_interval oi = 10 | Normal \<Rightarrow> oi_interval oi \<in> {500, 2000}) \<and>
    (inputs \<noteq> [] \<and> oi_mode oi = Stress \<longrightarrow> at_stress (snd (last inputs)) < oi_stressUntil oi)"
proof -
  have "oi_modes_ok oi0" using oi_new_ok [OF assms(1)] by simp
  from oi_run_modes [OF assms(2) this] show ?thesis by (simp add: oi_modes_ok_def)
qed

definition readings_at :: "int \<Rightarrow> readings" where
  "readings_at now = \<lparr>at_command = now, at_stress = now, at_pause = now, at_event = now\<rparr>"

definition oi_plain :: Observer where
  "oi_plain = \<lparr>oi_next = Some (sender_to AO), oi_directToProcessing = Some (sender_to PT),
     oi_cmdBuffer = rb_new, oi_pauseUntil = 0, oi_stressUntil = 0, oi_mode = Normal, oi_interval = 2000\<rparr>"

theorem observer_modes_witness:
  "\<exists>oi0 sends count oi. oi_new (\<lambda>_. True) = Inr oi0 \<and>
     oi_run [(Some \<lparr>command_type = StressMode, durationSec = 0\<rparr>, readings_at 5)] 0 oi0 =
       Some (sends, count, oi) \<and> oi_mode oi = Stress \<and> oi_interval oi = 10"
proof -
  let ?i = "[(Some \<lparr>command_type = StressMode, durationSec = 0\<rparr>, readings_at 5)]"
  obtain oi0 where new: "oi_new (\<lambda>_. True) = Inr oi0" using oi_new_exists by blast
  obtain sends count oi where run: "oi_run ?i 0 oi0 = Some (sends, count, oi)" and "oi_mode oi = Stress"
    using oi_new_ok [OF new]
    by (auto simp: oi_iteration_def Let_def oi_applyCommand_def oi_leaveStress_def readings_at_def
        int_succ_def int_max_def seconds_def)
  with observer_modes [OF new run] new show ?thesis by auto
qed

text \<open>
  Property C32 (functional): a \<open>StressMode\<close> command handled at time \<open>t\<close> sets the interval to 10 ms
  for thirty seconds: as long as no other mode command comes, the observer stays in stress mode
  exactly until the first iteration whose clock reads \<open>t\<close> plus 30 s or more, and that iteration
  sets the normal mode with an interval of 2000 ms.
\<close>

theorem observer_stress_period:
  assumes "oi_run ((Some cmd, t) # inputs) count oi = Some (sends, count', oi')"
    and "command_type cmd = StressMode" and "\<forall>(cmd, t) \<in> set inputs. \<not> changes_mode cmd"
  shows "if \<forall>t' \<in> set (map snd ((Some cmd, t) # inputs)). at_stress t' < at_command t + seconds 30
    then oi_mode oi' = Stress \<and> oi_interval oi' = 10
    else oi_mode oi' = Normal \<and> oi_interval oi' = 2000"
  using assms(1)
proof (rule oi_runE)
  fix s1 count1 oi1 s2
  assume it: "oi_iteration (Some cmd) t count oi = Some (s1, count1, oi1)"
    and run: "oi_run inputs count1 oi1 = Some (s2, count', oi')"
  from oi_iteration_state(1) [OF it] assms(2)
  have oi1: "oi_stressUntil oi1 = at_command t + seconds 30"
    "if at_command t + seconds 30 \<le> at_stress t then oi_mode oi1 = Normal \<and> oi_interval oi1 = 2000
     else oi_mode oi1 = Stress \<and> oi_interval oi1 = 10"
    by (auto simp: oi_after_def oi_leaveStress_def oi_applyCommand_def)
  show ?thesis
  proof (cases "at_command t + seconds 30 \<le> at_stress t")
    case True
    with oi1 oi_run_normal [OF run assms(3)] show ?thesis by simp
  next
    case False
    with oi1 oi_run_stress [OF run assms(3)] show ?thesis by (simp add: case_prod_beta)
  qed
qed

theorem observer_stress_period_witness:
  "\<exists>sends count oi. oi_run [(Some \<lparr>command_type = StressMode, durationSec = 0\<rparr>, readings_at 5),
       (None, readings_at (5 + seconds 30))] 0 oi_plain = Some (sends, count, oi) \<and>
     oi_mode oi = Normal \<and> oi_interval oi = 2000"
proof -
  let ?t = "readings_at (5 + seconds 30)"
  let ?i = "[(Some \<lparr>command_type = StressMode, durationSec = 0\<rparr>, readings_at 5), (None, ?t)]"
  obtain sends count oi where run: "oi_run ?i 0 oi_plain = Some (sends, count, oi)"
    by (auto simp: oi_iteration_def Let_def oi_applyCommand_def oi_leaveStress_def readings_at_def
        int_succ_def int_max_def seconds_def oi_plain_def)
  have "\<forall>(cmd, t) \<in> set [(None, ?t)]. \<not> changes_mode cmd" by (simp add: changes_mode_def)
  from observer_stress_period [OF run _ this] run show ?thesis by (simp add: readings_at_def)
qed

text \<open>
  Further property (functional): \<open>StopObserving\<close> and \<open>StartObserving\<close> with a duration, handled at time
  \<open>t\<close>, do the same: as long as no other of them comes, exactly the iterations whose clock reads
  \<open>t\<close> plus the duration or more generate an event. The last of these commands decides.
\<close>

theorem observer_pause:
  assumes "oi_run ((Some cmd, t) # inputs) count oi = Some (sends, count', oi')"
    and "command_type cmd \<in> {StopObserving, StartObserving}"
    and "\<forall>(cmd, t) \<in> set inputs. \<not> changes_pause cmd"
  shows "count' = count + int (length (filter
      (\<lambda>(_, t'). at_command t + seconds (durationSec cmd) \<le> at_pause t') ((Some cmd, t) # inputs)))"
  using assms(1)
proof (rule oi_runE)
  fix s1 count1 oi1 s2
  assume it: "oi_iteration (Some cmd) t count oi = Some (s1, count1, oi1)"
    and run: "oi_run inputs count1 oi1 = Some (s2, count', oi')"
  from oi_iteration_state(1) [OF it] assms(2)
  have "oi_pauseUntil oi1 = at_command t + seconds (durationSec cmd)"
    by (auto simp: oi_after_def oi_leaveStress_def oi_applyCommand_def)
  with oi_run_pause [OF run assms(3)] oi_iteration_state(2) [OF it] show ?thesis by simp
qed

theorem observer_pause_witness:
  "\<exists>sends oi. oi_run [(Some \<lparr>command_type = StopObserving, durationSec = 60\<rparr>, readings_at 5),
       (None, readings_at 6), (None, readings_at (5 + seconds 60))] 0 oi_plain = Some (sends, 1, oi)"
proof -
  let ?rest = "[(None, readings_at 6), (None, readings_at (5 + seconds 60))] :: (ObserverCommand option \<times> readings) list"
  let ?i = "(Some \<lparr>command_type = StopObserving, durationSec = 60\<rparr>, readings_at 5) # ?rest"
  obtain sends count oi where run: "oi_run ?i 0 oi_plain = Some (sends, count, oi)"
    by (auto simp: oi_iteration_def Let_def oi_applyCommand_def oi_leaveStress_def readings_at_def
        int_succ_def int_max_def seconds_def oi_plain_def)
  have "\<forall>(cmd, t) \<in> set ?rest. \<not> changes_pause cmd" by (simp add: changes_pause_def)
  from observer_pause [OF run _ this] have "count = 1" by (simp add: readings_at_def seconds_def)
  with run show ?thesis by blast
qed

text \<open>
  Further property (functional, bounds): the events of a run are numbered one after the other: the file
  events have the distinct names \<open>file_1.txt\<close>, \<open>file_2.txt\<close> and so on and 1024 bytes for each
  number, and for each of them there is one direct event with the same number and nothing else.
\<close>

theorem observer_events_numbered:
  assumes "oi_run inputs 0 oi = Some (sends, count, oi')"
    and "oi_next oi = Some s" and "oi_directToProcessing oi = Some d"
  shows "map fileName (pick as_FileEvent (map snd sends)) =
      map (\<lambda>k. ''file_'' @ decimal_int k @ ''.txt'') [1..count] \<and>
    distinct (map fileName (pick as_FileEvent (map snd sends))) \<and>
    map (unat \<circ> fileSize) (pick as_FileEvent (map snd sends)) = map (\<lambda>k. 1024 * nat k) [1..count] \<and>
    filter (\<lambda>m. as_FileEvent m = None) (map snd sends) =
      map (\<lambda>k. DirectMsg \<lparr>direct_counter = k\<rparr>) [1..count]"
proof -
  have "(0 :: int) \<le> int_max" by (simp add: int_max_def)
  from oi_run_numbering [OF assms this] have count: "0 \<le> count" "count \<le> int_max"
    and names: "map fileName (pick as_FileEvent (map snd sends)) =
      map (\<lambda>k. ''file_'' @ decimal_int k @ ''.txt'') [1..count]"
    and sizes: "map fileSize (pick as_FileEvent (map snd sends)) =
      map (\<lambda>k. 1024 * word_of_int k) [1..count]"
    and direct: "filter (\<lambda>m. as_FileEvent m = None) (map snd sends) =
      map (\<lambda>k. DirectMsg \<lparr>direct_counter = k\<rparr>) [1..count]"
    by simp_all
  have "distinct (map (\<lambda>k. ''file_'' @ decimal_int k @ ''.txt'') [1..count])"
    by (auto simp: distinct_map intro: inj_onI)
  moreover have "unat (1024 * word_of_int k :: u64) = 1024 * nat k" if "k \<in> set [1..count]" for k
  proof -
    from that count have "0 \<le> k" "1024 * k < 2 ^ 64" by (auto simp: int_max_def)
    then have "uint (1024 * word_of_int k :: u64) = 1024 * k"
      by (simp add: uint_word_ariths uint_word_of_int mod_pos_pos_trivial mod_mult_right_eq)
    then show ?thesis using \<open>0 \<le> k\<close> by (simp add: unat_eq_nat_uint nat_mult_distrib)
  qed
  then have "map unat (map fileSize (pick as_FileEvent (map snd sends))) = map (\<lambda>k. 1024 * nat k) [1..count]"
    unfolding sizes by simp
  ultimately show ?thesis using names direct by simp
qed

theorem observer_events_numbered_witness:
  "\<exists>sends oi. oi_run [(None, readings_at 5), (None, readings_at 6)] 0 oi_plain = Some (sends, 2, oi) \<and>
     map fileName (pick as_FileEvent (map snd sends)) = [''file_1.txt'', ''file_2.txt'']"
proof -
  obtain sends oi where run: "oi_run [(None, readings_at 5), (None, readings_at 6)] 0 oi_plain =
      Some (sends, 2, oi)"
    by (auto simp: oi_iteration_def Let_def oi_leaveStress_def readings_at_def int_succ_def int_max_def
        oi_plain_def)
  have "[1..2 :: int] = [1, 2]" by (simp add: upto_rec1)
  moreover have "decimal_int 1 = ''1''" "decimal_int 2 = ''2''" by code_simp+
  ultimately show ?thesis
    using observer_events_numbered [OF run, of "sender_to AO" "sender_to PT"] run
    by (auto simp: oi_plain_def)
qed

text \<open>
  Further property (bounds): while the observer takes no command from its buffer, commands sent to it
  are accepted until seven are pending and refused from then on; the accepted ones are pending in
  order and nothing is overwritten.
\<close>

theorem observer_command_buffer:
  assumes "oi_new alloc_ok = Inr oi" and "oi_send_all cmds oi = (oks, oi')"
  shows "oks = replicate (min 7 (length cmds)) True @ replicate (length cmds - 7) False \<and>
    oi_pending oi' = take 7 cmds"
  using oi_new_ok [OF assms(1)] oi_send_all_correct [OF _ _ assms(2)] by (simp add: Let_def)

theorem observer_command_buffer_witness:
  "\<exists>oi oks oi'. oi_new (\<lambda>_. True) = Inr oi \<and>
     oi_send_all (replicate 9 \<lparr>command_type = StressMode, durationSec = 0\<rparr>) oi = (oks, oi') \<and>
     length (oi_pending oi') = 7"
proof -
  let ?cmds = "replicate 9 \<lparr>command_type = StressMode, durationSec = 0\<rparr>"
  obtain oi where new: "oi_new (\<lambda>_. True) = Inr oi" using oi_new_exists by blast
  obtain oks oi' where send: "oi_send_all ?cmds oi = (oks, oi')" by fastforce
  from observer_command_buffer [OF new send] new send show ?thesis by auto
qed

end
