(* ===== verification/Chain.thy ===== *)
theory Chain
  imports Observer
begin

text \<open>
  The chain of five threads as \<open>initTestChain\<close> of \<open>src/include/threadManager.hpp\<close> wires it, with the
  \<open>run\<close> loops of \<open>src/include/testThreads.hpp\<close> interleaved at the grain of the queue operations.

  \<^item> A thread that got a command or a message computes its sends (one iteration of \<open>TestThreads\<close>)
    into its outbox and performs them one by one; it waits again when the outbox is empty.
  \<^item> \<open>chain_step\<close> is one action of one thread, or a command sent by the main thread. An action that
    is not possible in a state leaves it as it is, so every list of actions is a schedule.
  \<^item> Dangling queues, faults of the command buffer and overflows of the counters are faults of the
    step. \<open>ch_events\<close> and \<open>ch_received\<close> record the events generated and the results received.

  The invariants follow the pipeline: what is between two threads (\<open>in_flight\<close>) is the queue of the
  second followed by the outbox of the first.
\<close>

record chain =
  ch_world :: "(tid, payload) send_world"
  ch_outbox :: "tid \<Rightarrow> (tid Sender \<times> payload) list"
  ch_oi :: Observer
  ch_count :: int
  ch_ao :: AppObserver
  ch_mirrorCounter :: int
  ch_pt_next :: "tid Sender option"
  ch_tt_next :: "tid Sender option"
  ch_log :: "(string \<times> rat \<times> int) list"
  ch_events :: "FileEvent list"
  ch_received :: "TransformedData list"

datatype chain_fault = SendFault "tid send_fault" | RingFault rb_fault | CounterOverflow

datatype chain_action = Command ObserverCommand | Tick readings | Take tid int | Flush tid

definition initTestChain :: "Observer \<Rightarrow> chain" where
  "initTestChain oi =
     \<lparr>ch_world = \<lparr>sw_queues = \<lambda>_. Some mq_new, sw_errors = 0, sw_hooked = []\<rparr>,
      ch_outbox = \<lambda>_. [],
      ch_oi = oi_setDirectToProcessing (makeSender False PT) (oi_setNext (makeSender False AO) oi),
      ch_count = 0,
      ch_ao = ao_setMirror (makeSender False OI) (ao_setNext (makeSender False PT) ao_new),
      ch_mirrorCounter = 0,
      ch_pt_next = pt_setNext (makeSender False TT) None,
      ch_tt_next = tt_setNext (makeSender False RT) None,
      ch_log = [], ch_events = [], ch_received = []\<rparr>"

abbreviation set_outbox :: "tid \<Rightarrow> (tid Sender \<times> payload) list \<Rightarrow> chain \<Rightarrow> chain" where
  "set_outbox u sends s \<equiv> s\<lparr>ch_outbox := (ch_outbox s)(u := sends)\<rparr>"

definition chain_tick :: "readings \<Rightarrow> chain \<Rightarrow> chain_fault + chain" where
  "chain_tick t s =
     (case rb_pop (oi_cmdBuffer (ch_oi s)) of
        Inl fault \<Rightarrow> Inl (RingFault fault)
      | Inr (cmd, rb) \<Rightarrow>
          (case oi_iteration cmd t (ch_count s) (ch_oi s\<lparr>oi_cmdBuffer := rb\<rparr>) of
             None \<Rightarrow> Inl CounterOverflow
           | Some (sends, count, oi) \<Rightarrow>
               Inr (set_outbox OI sends s\<lparr>ch_count := count, ch_oi := oi,
                      ch_events := ch_events s @ pick as_FileEvent (map snd sends)\<rparr>)))"

definition chain_handle :: "tid \<Rightarrow> int \<Rightarrow> payload option \<Rightarrow> chain \<Rightarrow> chain_fault + chain" where
  "chain_handle u now msg s = (case u of
     OI \<Rightarrow> Inr s
   | AO \<Rightarrow>
       (case ao_iteration msg (ch_ao s) (ch_mirrorCounter s) of
          None \<Rightarrow> Inl CounterOverflow
        | Some (sends, n) \<Rightarrow> Inr (set_outbox AO sends s\<lparr>ch_mirrorCounter := n\<rparr>))
   | PT \<Rightarrow> Inr (set_outbox PT (pt_iteration msg (ch_pt_next s)) s)
   | TT \<Rightarrow> Inr (set_outbox TT (tt_iteration msg (ch_tt_next s)) s)
   | RT \<Rightarrow>
       (case rt_iteration msg now of
          None \<Rightarrow> Inr s
        | Some line \<Rightarrow> Inr (s\<lparr>ch_log := ch_log s @ [line],
            ch_received := ch_received s @ (case pointer_cast as_TransformedData msg of
               None \<Rightarrow> [] | Some td \<Rightarrow> [td])\<rparr>)))"

definition chain_take :: "tid \<Rightarrow> int \<Rightarrow> chain \<Rightarrow> chain_fault + chain" where
  "chain_take u now s =
     (case sw_queues (ch_world s) u of
        None \<Rightarrow> Inl (SendFault (DanglingQueue u))
      | Some mq \<Rightarrow>
          (case mq_pop mq of (msg, mq') \<Rightarrow>
             chain_handle u now msg
               (s\<lparr>ch_world := (ch_world s)\<lparr>sw_queues := (sw_queues (ch_world s))(u \<mapsto> mq')\<rparr>\<rparr>)))"

fun chain_step :: "chain_action \<Rightarrow> chain \<Rightarrow> chain_fault + chain" where
  "chain_step (Command cmd) s =
     (case oi_sendCommand cmd (ch_oi s) of
        Inl fault \<Rightarrow> Inl (RingFault fault)
      | Inr (_, oi) \<Rightarrow> Inr (s\<lparr>ch_oi := oi\<rparr>))"
| "chain_step (Tick t) s = (if ch_outbox s OI \<noteq> [] then Inr s else chain_tick t s)"
| "chain_step (Take u now) s =
     (if u = OI \<or> ch_outbox s u \<noteq> [] then Inr s else chain_take u now s)"
| "chain_step (Flush u) s =
     (case ch_outbox s u of
        [] \<Rightarrow> Inr s
      | (sender, m) # rest \<Rightarrow>
          (case Send no_hook sender m (ch_world s) of
             Inl fault \<Rightarrow> Inl (SendFault fault)
           | Inr w \<Rightarrow> Inr (set_outbox u rest s\<lparr>ch_world := w\<rparr>)))"

fun chain_exec :: "chain_action list \<Rightarrow> chain \<Rightarrow> chain_fault + chain" where
  "chain_exec [] s = Inr s"
| "chain_exec (a # as) s = (case chain_step a s of Inl fault \<Rightarrow> Inl fault | Inr s' \<Rightarrow> chain_exec as s')"

subsection \<open>What is between two threads\<close>

definition pick_queue :: "(payload \<Rightarrow> 'a option) \<Rightarrow> payload option list \<Rightarrow> 'a list" where
  "pick_queue f q = List.map_filter (pointer_cast f) q"

lemma pick_queue_simps [simp]:
  "pick_queue f [] = []"
  "pick_queue f (x # q) = (case pointer_cast f x of None \<Rightarrow> [] | Some y \<Rightarrow> [y]) @ pick_queue f q"
  "pick_queue f (q @ [Some m]) = pick_queue f q @ pick f [m]"
  by (simp_all add: pick_queue_def List.map_filter_def pointer_cast_def split: option.split)

definition in_flight :: "(payload \<Rightarrow> 'a option) \<Rightarrow> tid \<Rightarrow> tid \<Rightarrow> chain \<Rightarrow> 'a list" where
  "in_flight f u t s = pick_queue f (queued (ch_world s) u) @ pick f (map snd (ch_outbox s t))"

fun route :: "payload \<Rightarrow> tid" where
  "route (FileMsg _) = AO"
| "route (DirectMsg _) = PT"
| "route (AppMsg _) = PT"
| "route (MirrorMsg _) = OI"
| "route (ProcessedMsg _) = TT"
| "route (TransformedMsg _) = RT"

fun origin :: "payload \<Rightarrow> tid" where
  "origin (FileMsg _) = OI"
| "origin (DirectMsg _) = OI"
| "origin (AppMsg _) = AO"
| "origin (MirrorMsg _) = AO"
| "origin (ProcessedMsg _) = PT"
| "origin (TransformedMsg _) = TT"

fun as_MirrorEvent :: "payload \<Rightarrow> MirrorEvent option" where
  "as_MirrorEvent (MirrorMsg e) = Some e"
| "as_MirrorEvent _ = None"

lemma cast_routes:
  "as_FileEvent m = Some x1 \<Longrightarrow> route m = AO \<and> origin m = OI"
  "as_AppEvent m = Some x2 \<Longrightarrow> route m = PT \<and> origin m = AO"
  "as_ProcessedData m = Some x3 \<Longrightarrow> route m = TT \<and> origin m = PT"
  "as_TransformedData m = Some x4 \<Longrightarrow> route m = RT \<and> origin m = TT"
  "as_MirrorEvent m = Some x5 \<Longrightarrow> route m = OI \<and> origin m = AO"
  by (cases m; simp)+

abbreviation "files s \<equiv> in_flight as_FileEvent AO OI s"
abbreviation "apps s \<equiv> in_flight as_AppEvent PT AO s"
abbreviation "processed s \<equiv> in_flight as_ProcessedData TT PT s"
abbreviation "transformed s \<equiv> in_flight as_TransformedData RT TT s"
abbreviation "mirrored s \<equiv> in_flight as_MirrorEvent OI AO s"

definition result_of :: "FileEvent \<Rightarrow> TransformedData" where
  "result_of fe = transformed_data (processed_data (app_event fe))"

subsection \<open>Invariants\<close>

definition inv_wired :: "chain \<Rightarrow> bool" where
  "inv_wired s \<longleftrightarrow> oi_next (ch_oi s) = Some (sender_to AO) \<and>
     oi_directToProcessing (ch_oi s) = Some (sender_to PT) \<and>
     ao_next (ch_ao s) = Some (sender_to PT) \<and> ao_mirror (ch_ao s) = Some (sender_to OI) \<and>
     ch_pt_next s = Some (sender_to TT) \<and> ch_tt_next s = Some (sender_to RT) \<and>
     (\<forall>u. sw_queues (ch_world s) u \<noteq> None) \<and> oi_cmds_ok (ch_oi s)"

definition inv_routed :: "chain \<Rightarrow> bool" where
  "inv_routed s \<longleftrightarrow> (\<forall>u. \<forall>x \<in> set (ch_outbox s u). fst x = sender_to (route (snd x)) \<and> origin (snd x) = u)"

definition inv_flow :: "chain \<Rightarrow> bool" where
  "inv_flow s \<longleftrightarrow> map result_of (ch_events s) =
     ch_received s @ transformed s @ map transformed_data (processed s) @
     map (\<lambda>ae. transformed_data (processed_data ae)) (apps s) @ map result_of (files s)"

definition inv_mirror :: "chain \<Rightarrow> bool" where
  "inv_mirror s \<longleftrightarrow> length (mirrored s) + length (files s) = length (ch_events s) \<and>
     length (queued (ch_world s) OI) = length (pick_queue as_MirrorEvent (queued (ch_world s) OI))"

text \<open>The local counters start at zero whenever a loop is entered, so they only lag behind.\<close>

definition inv_counts :: "chain \<Rightarrow> bool" where
  "inv_counts s \<longleftrightarrow> 0 \<le> ch_count s \<and> ch_count s \<le> int (length (ch_events s)) \<and>
     0 \<le> ch_mirrorCounter s \<and> ch_mirrorCounter s + int (length (files s)) \<le> int (length (ch_events s))"

definition inv_log :: "chain \<Rightarrow> bool" where
  "inv_log s \<longleftrightarrow> map (\<lambda>(name, val, _). (name, val)) (ch_log s) =
     map (\<lambda>td. (fileName (originalFile (originalAppEvent (originalData td))), transformed_value td))
       (ch_received s)"

definition chain_inv :: "chain \<Rightarrow> bool" where
  "chain_inv s \<longleftrightarrow> inv_wired s \<and> inv_routed s \<and> inv_flow s \<and> inv_mirror s \<and> inv_counts s \<and> inv_log s"

lemmas chain_inv_defs = inv_wired_def inv_routed_def inv_flow_def inv_mirror_def inv_counts_def inv_log_def

subsection \<open>Every action preserves the invariants\<close>

lemma in_flight_step [simp]:
  "in_flight f u t (s\<lparr>ch_world := w, ch_outbox := ob\<rparr>) = pick_queue f (queued w u) @ pick f (map snd (ob t))"
  "in_flight f u t (s\<lparr>ch_outbox := ob\<rparr>) = pick_queue f (queued (ch_world s) u) @ pick f (map snd (ob t))"
  "in_flight f u t (s\<lparr>ch_world := w\<rparr>) = pick_queue f (queued w u) @ pick f (map snd (ch_outbox s t))"
  "in_flight f u t (s\<lparr>ch_oi := oi\<rparr>) = in_flight f u t s"
  "in_flight f u t (s\<lparr>ch_count := n\<rparr>) = in_flight f u t s"
  "in_flight f u t (s\<lparr>ch_mirrorCounter := n\<rparr>) = in_flight f u t s"
  "in_flight f u t (s\<lparr>ch_events := es\<rparr>) = in_flight f u t s"
  "in_flight f u t (s\<lparr>ch_received := rs\<rparr>) = in_flight f u t s"
  "in_flight f u t (s\<lparr>ch_log := lines\<rparr>) = in_flight f u t s"
  by (simp_all add: in_flight_def)

text \<open>A flush moves one message from the outbox of its origin to the queue of its target.\<close>

lemma flush_moves:
  assumes inv: "chain_inv s" and ob: "ch_outbox s u = (sd, m) # rest"
  obtains w' where "origin m = u"
    and "chain_step (Flush u) s = Inr (set_outbox u rest s\<lparr>ch_world := w'\<rparr>)"
    and "queued w' (route m) = queued (ch_world s) (route m) @ [Some m]"
    and "\<And>v. v \<noteq> route m \<Longrightarrow> queued w' v = queued (ch_world s) v"
    and "dom (sw_queues w') = dom (sw_queues (ch_world s))"
proof -
  have "(sd, m) \<in> set (ch_outbox s u)" using ob by simp
  with inv have "fst (sd, m) = sender_to (route (snd (sd, m))) \<and> origin (snd (sd, m)) = u"
    unfolding chain_inv_def inv_routed_def by blast
  then have sd: "sd = sender_to (route m)" and u: "origin m = u" by simp_all
  from inv have "sw_queues (ch_world s) (route m) \<noteq> None" by (simp add: chain_inv_def inv_wired_def)
  then obtain w' where "Send no_hook (sender_to (route m)) m (ch_world s) = Inr w'"
    and "queued w' (route m) = queued (ch_world s) (route m) @ [Some m]"
    and "\<And>v. v \<noteq> route m \<Longrightarrow> queued w' v = queued (ch_world s) v"
    and "dom (sw_queues w') = dom (sw_queues (ch_world s))"
    by (rule send_plain [of "ch_world s" "route m" m]) auto
  with sd u ob show ?thesis by (intro that [of w']) simp_all
qed

lemma flush_in_flight:
  assumes "queued w' (route m) = queued (ch_world s) (route m) @ [Some m]"
    and "\<And>v. v \<noteq> route m \<Longrightarrow> queued w' v = queued (ch_world s) v"
    and "ch_outbox s (origin m) = (sd, m) # rest"
    and "\<And>y. f m = Some y \<Longrightarrow> route m = q \<and> origin m = t"
  shows "in_flight f q t (set_outbox (origin m) rest s\<lparr>ch_world := w'\<rparr>) = in_flight f q t s"
proof (cases "f m")
  case None
  then have "pick_queue f (queued w' q) = pick_queue f (queued (ch_world s) q)"
    using assms(1,2) by (cases "q = route m") simp_all
  moreover have "pick f (map snd (if t = origin m then rest else ch_outbox s t)) =
      pick f (map snd (ch_outbox s t))"
    using assms(3) None by simp
  ultimately show ?thesis by (simp add: in_flight_def)
next
  case (Some y)
  with assms show ?thesis by (auto simp: in_flight_def)
qed

lemma chain_flush_inv:
  assumes inv: "chain_inv s"
  shows "\<exists>s'. chain_step (Flush u) s = Inr s' \<and> chain_inv s'"
proof (cases "ch_outbox s u")
  case Nil
  with inv show ?thesis by simp
next
  case (Cons x rest)
  then obtain sd m where Cons: "ch_outbox s u = (sd, m) # rest" by (cases x) simp
  with inv obtain w' where u: "origin m = u"
    and step: "chain_step (Flush u) s = Inr (set_outbox u rest s\<lparr>ch_world := w'\<rparr>)"
    and to: "queued w' (route m) = queued (ch_world s) (route m) @ [Some m]"
    and other: "\<And>v. v \<noteq> route m \<Longrightarrow> queued w' v = queued (ch_world s) v"
    and dom: "dom (sw_queues w') = dom (sw_queues (ch_world s))"
    by (rule flush_moves) (rule that)
  let ?s = "set_outbox u rest s\<lparr>ch_world := w'\<rparr>"
  have ob: "ch_outbox s (origin m) = (sd, m) # rest" using Cons u by simp
  note same = flush_in_flight [OF to other ob, unfolded u]
  have flow: "files ?s = files s" "apps ?s = apps s" "processed ?s = processed s"
    "transformed ?s = transformed s" "mirrored ?s = mirrored s"
    by (rule same; use u in \<open>blast dest: cast_routes\<close>)+
  have "inv_wired ?s"
  proof -
    have "sw_queues w' v \<noteq> None" for v
      using dom inv by (metis chain_inv_def inv_wired_def domIff)
    then show ?thesis using inv by (simp add: chain_inv_def inv_wired_def)
  qed
  moreover have "inv_routed ?s"
  proof -
    from inv have "\<forall>x \<in> set (ch_outbox s v). fst x = sender_to (route (snd x)) \<and> origin (snd x) = v" for v
      unfolding chain_inv_def inv_routed_def by blast
    from this this [of u] show ?thesis by (simp add: inv_routed_def Cons)
  qed
  moreover have "length (queued w' OI) = length (pick_queue as_MirrorEvent (queued w' OI))"
  proof (cases "route m = OI")
    case True
    then obtain e where "m = MirrorMsg e" by (cases m) auto
    with True to inv show ?thesis by (simp add: chain_inv_def inv_mirror_def)
  next
    case False
    with other [of OI] inv show ?thesis by (simp add: chain_inv_def inv_mirror_def)
  qed
  ultimately have "chain_inv ?s"
    using inv flow unfolding chain_inv_def inv_flow_def inv_mirror_def inv_counts_def inv_log_def
    by (simp del: in_flight_step)
  with step show ?thesis by blast
qed

lemma oi_sendCommand_frame:
  assumes "oi_cmds_ok oi"
  obtains ok oi' where "oi_sendCommand cmd oi = Inr (ok, oi')" and "oi_cmds_ok oi'"
    and "oi_next oi' = oi_next oi" and "oi_directToProcessing oi' = oi_directToProcessing oi"
proof -
  from assms obtain oi' where send: "oi_sendCommand cmd oi = Inr (length (oi_pending oi) < 7, oi')"
    and "oi_cmds_ok oi'"
    by (rule oi_sendCommand_correct)
  moreover from send have "oi_next oi' = oi_next oi" "oi_directToProcessing oi' = oi_directToProcessing oi"
    by (auto simp: oi_sendCommand_def split: sum.splits if_splits)
  ultimately show ?thesis by (rule that)
qed

lemma chain_command_inv:
  assumes "chain_inv s"
  shows "\<exists>s'. chain_step (Command cmd) s = Inr s' \<and> chain_inv s'"
proof -
  from assms have "oi_cmds_ok (ch_oi s)" by (simp add: chain_inv_def inv_wired_def)
  then obtain ok oi' where "oi_sendCommand cmd (ch_oi s) = Inr (ok, oi')" and "oi_cmds_ok oi'"
    and "oi_next oi' = oi_next (ch_oi s)" and "oi_directToProcessing oi' = oi_directToProcessing (ch_oi s)"
    by (rule oi_sendCommand_frame)
  with assms show ?thesis by (simp add: chain_inv_def chain_inv_defs)
qed

text \<open>The iteration of the wired observer: nothing while paused, else a file and a direct event.\<close>

lemma wired_iteration:
  assumes "oi_next oi = Some s" and "oi_directToProcessing oi = Some d"
    and "oi_iteration cmd t count oi = Some (sends, count', oi')"
  shows "oi_next oi' = Some s \<and> oi_directToProcessing oi' = Some d \<and> oi_cmdBuffer oi' = oi_cmdBuffer oi \<and>
    (count' = count \<and> sends = [] \<or> count' = count + 1 \<and> count < int_max \<and>
       sends = [(s, FileMsg (file_event count' (at_event t))), (d, DirectMsg \<lparr>direct_counter = count'\<rparr>)])"
  using assms
  by (auto simp: oi_iteration_def Let_def int_succ_Some oi_applyCommand_def oi_leaveStress_def
      split: if_splits option.splits command_type.splits)

lemma chain_tick_inv:
  assumes inv: "chain_inv s"
  shows "(\<exists>s'. chain_step (Tick t) s = Inr s' \<and> chain_inv s') \<or>
    chain_step (Tick t) s = Inl CounterOverflow \<and> int_max \<le> ch_count s"
proof (cases "ch_outbox s OI")
  case (Cons x rest)
  with inv show ?thesis by simp
next
  case Nil
  let ?rb = "oi_cmdBuffer (ch_oi s)"
  from inv have "rb_inv ?rb" by (simp add: chain_inv_def inv_wired_def oi_cmds_ok_def)
  then obtain cmd rb where pop: "rb_pop ?rb = Inr (cmd, rb)" and rb: "rb_inv rb" "rb_bound rb = rb_bound ?rb"
    by (rule rb_pop_correct)
  let ?oi = "ch_oi s\<lparr>oi_cmdBuffer := rb\<rparr>"
  show ?thesis
  proof (cases "oi_iteration cmd t (ch_count s) ?oi")
    case None
    then have "\<not> ch_count s < int_max"
      by (auto simp: oi_iteration_def Let_def int_succ_def split: if_splits option.splits)
    with inv None Nil pop show ?thesis by (simp add: chain_tick_def chain_inv_def inv_counts_def)
  next
    case (Some r)
    obtain sends count oi where r: "r = (sends, count, oi)" by (cases r)
    from wired_iteration [OF _ _ Some [unfolded r], of "sender_to AO" "sender_to PT"] inv
    have oi: "oi_next oi = Some (sender_to AO)" "oi_directToProcessing oi = Some (sender_to PT)"
      "oi_cmdBuffer oi = rb"
      and out: "count = ch_count s \<and> sends = [] \<or> count = ch_count s + 1 \<and> ch_count s < int_max \<and>
       sends = [(sender_to AO, FileMsg (file_event count (at_event t))),
                (sender_to PT, DirectMsg \<lparr>direct_counter = count\<rparr>)]"
      by (auto simp: chain_inv_def inv_wired_def)
    let ?s = "set_outbox OI sends s\<lparr>ch_count := count, ch_oi := oi,
      ch_events := ch_events s @ pick as_FileEvent (map snd sends)\<rparr>"
    have step: "chain_step (Tick t) s = Inr ?s"
      using Nil pop Some r by (simp add: chain_tick_def)
    from out have "chain_inv ?s"
    proof
      assume "count = ch_count s \<and> sends = []"
      with inv oi rb Nil show ?thesis
        by (simp add: chain_inv_def chain_inv_defs oi_cmds_ok_def in_flight_def)
    next
      assume "count = ch_count s + 1 \<and> ch_count s < int_max \<and>
       sends = [(sender_to AO, FileMsg (file_event count (at_event t))),
                (sender_to PT, DirectMsg \<lparr>direct_counter = count\<rparr>)]"
      with inv oi rb Nil show ?thesis
        by (auto simp: chain_inv_def chain_inv_defs oi_cmds_ok_def in_flight_def)
    qed
    with step show ?thesis by blast
  qed
qed

text \<open>What a thread finds in its queue: the head leaves the queue, a null pointer stands for none.\<close>

lemma pop_queue:
  assumes "sw_queues w u = Some mq" and "mq_pop mq = (msg, mq')"
    and "w' = w\<lparr>sw_queues := (sw_queues w)(u \<mapsto> mq')\<rparr>"
  shows "pick_queue f (queued w u) =
      (case pointer_cast f msg of None \<Rightarrow> [] | Some y \<Rightarrow> [y]) @ pick_queue f (queued w' u)"
    and "\<And>v. v \<noteq> u \<Longrightarrow> queued w' v = queued w v"
    and "sw_queues w' v \<noteq> None \<longleftrightarrow> sw_queues w v \<noteq> None"
  using assms by (auto simp: mq_pop_def queued_def pointer_cast_def split: list.splits option.splits)

lemma pointer_cast_exclusive:
  assumes "pointer_cast f msg = Some y" and "\<And>m. f m = Some y \<Longrightarrow> g m = None"
  shows "pointer_cast g msg = None"
  using assms by (cases msg) (auto simp: pointer_cast_def)

lemma take_frame:
  assumes inv: "chain_inv s" and q: "sw_queues (ch_world s) u = Some mq" and pop: "mq_pop mq = (msg, mq')"
    and w': "w' = (ch_world s)\<lparr>sw_queues := (sw_queues (ch_world s))(u \<mapsto> mq')\<rparr>"
    and routed: "\<forall>x \<in> set sends. fst x = sender_to (route (snd x)) \<and> origin (snd x) = u"
  shows "inv_wired (set_outbox u sends (s\<lparr>ch_world := w'\<rparr>))"
    and "inv_routed (set_outbox u sends (s\<lparr>ch_world := w'\<rparr>))"
  using inv routed pop_queue(3) [OF q pop w'] unfolding chain_inv_def
  by (simp_all add: inv_wired_def inv_routed_def)

text \<open>One lemma for each consumer: the message it takes moves on, and nothing else changes.\<close>

lemma handle_PT:
  assumes inv: "chain_inv s" and idle: "ch_outbox s PT = []"
    and q: "sw_queues (ch_world s) PT = Some mq" and pop: "mq_pop mq = (msg, mq')"
    and w': "w' = (ch_world s)\<lparr>sw_queues := (sw_queues (ch_world s))(PT \<mapsto> mq')\<rparr>"
  shows "chain_inv (set_outbox PT (pt_iteration msg (ch_pt_next s)) (s\<lparr>ch_world := w'\<rparr>))"
    (is "chain_inv ?s")
proof -
  have nxt: "ch_pt_next s = Some (sender_to TT)" using inv by (simp add: chain_inv_def inv_wired_def)
  note head = pop_queue(1) [OF q pop w', of as_AppEvent]
  have other: "files ?s = files s" "transformed ?s = transformed s" "mirrored ?s = mirrored s"
    "queued w' OI = queued (ch_world s) OI"
    using pop_queue(2) [OF q pop w'] by (simp_all add: in_flight_def)
  have routed: "inv_wired ?s" "inv_routed ?s"
    by (rule take_frame [OF inv q pop w']; auto simp: pt_iteration_def nxt split: option.splits)+
  have "map (\<lambda>ae. transformed_data (processed_data ae)) (apps s) = X @
        map (\<lambda>ae. transformed_data (processed_data ae)) (apps ?s) \<and>
      map transformed_data (processed ?s) = map transformed_data (processed s) @ X"
    if "X = (case pointer_cast as_AppEvent msg of None \<Rightarrow> [] | Some ae \<Rightarrow> [transformed_data (processed_data ae)])"
    for X
    using that head idle pop_queue(2) [OF q pop w', of TT]
    by (auto simp: in_flight_def pt_iteration_def nxt split: option.splits)
  then have "inv_flow ?s" using inv other by (simp add: chain_inv_def inv_flow_def del: in_flight_step)
  with inv other routed show ?thesis
    unfolding chain_inv_def inv_mirror_def inv_counts_def inv_log_def by (simp del: in_flight_step)
qed

lemma handle_TT:
  assumes inv: "chain_inv s" and idle: "ch_outbox s TT = []"
    and q: "sw_queues (ch_world s) TT = Some mq" and pop: "mq_pop mq = (msg, mq')"
    and w': "w' = (ch_world s)\<lparr>sw_queues := (sw_queues (ch_world s))(TT \<mapsto> mq')\<rparr>"
  shows "chain_inv (set_outbox TT (tt_iteration msg (ch_tt_next s)) (s\<lparr>ch_world := w'\<rparr>))"
    (is "chain_inv ?s")
proof -
  have nxt: "ch_tt_next s = Some (sender_to RT)" using inv by (simp add: chain_inv_def inv_wired_def)
  note head = pop_queue(1) [OF q pop w', of as_ProcessedData]
  have other: "files ?s = files s" "apps ?s = apps s" "mirrored ?s = mirrored s"
    "queued w' OI = queued (ch_world s) OI"
    using pop_queue(2) [OF q pop w'] by (simp_all add: in_flight_def)
  have routed: "inv_wired ?s" "inv_routed ?s"
    by (rule take_frame [OF inv q pop w']; auto simp: tt_iteration_def nxt split: option.splits)+
  have "map transformed_data (processed s) = X @ map transformed_data (processed ?s) \<and>
      transformed ?s = transformed s @ X"
    if "X = (case pointer_cast as_ProcessedData msg of None \<Rightarrow> [] | Some pd \<Rightarrow> [transformed_data pd])" for X
    using that head idle pop_queue(2) [OF q pop w', of RT]
    by (auto simp: in_flight_def tt_iteration_def nxt split: option.splits)
  then have "inv_flow ?s" using inv other by (simp add: chain_inv_def inv_flow_def del: in_flight_step)
  with inv other routed show ?thesis
    unfolding chain_inv_def inv_mirror_def inv_counts_def inv_log_def by (simp del: in_flight_step)
qed

lemma handle_RT:
  assumes inv: "chain_inv s" and idle: "ch_outbox s RT = []"
    and q: "sw_queues (ch_world s) RT = Some mq" and pop: "mq_pop mq = (msg, mq')"
    and w': "w' = (ch_world s)\<lparr>sw_queues := (sw_queues (ch_world s))(RT \<mapsto> mq')\<rparr>"
  shows "\<exists>s'. chain_handle RT now msg (s\<lparr>ch_world := w'\<rparr>) = Inr s' \<and> chain_inv s'"
proof -
  note head = pop_queue(1) [OF q pop w', of as_TransformedData]
  let ?s = "s\<lparr>ch_world := w'\<rparr>"
  have other: "files ?s = files s" "apps ?s = apps s" "processed ?s = processed s"
    "mirrored ?s = mirrored s" "queued w' OI = queued (ch_world s) OI"
    using pop_queue(2) [OF q pop w'] by (simp_all add: in_flight_def)
  have "set_outbox RT [] ?s = ?s" using idle by (simp add: fun_upd_idem)
  then have routed: "inv_wired ?s" "inv_routed ?s"
    using take_frame [OF inv q pop w', of "[]"] by simp_all
  have flow: "transformed s = (case pointer_cast as_TransformedData msg of None \<Rightarrow> [] | Some td \<Rightarrow> [td]) @ transformed ?s"
    using head by (simp add: in_flight_def)
  show ?thesis
  proof (cases "pointer_cast as_TransformedData msg")
    case None
    with inv other routed flow have "chain_inv ?s"
      unfolding chain_inv_def inv_flow_def inv_mirror_def inv_counts_def inv_log_def
      by (simp del: in_flight_step)
    with None show ?thesis by (simp add: chain_handle_def rt_iteration_def)
  next
    case (Some td)
    let ?line = "(fileName (originalFile (originalAppEvent (originalData td))), transformed_value td,
      tdiv (now - sendTime (originalFile (originalAppEvent (originalData td)))) 1000)"
    let ?t = "?s\<lparr>ch_log := ch_log s @ [?line], ch_received := ch_received s @ [td]\<rparr>"
    have "chain_handle RT now msg ?s = Inr ?t"
      using Some by (simp add: chain_handle_def rt_iteration_def Let_def)
    moreover have "inv_wired ?t" "inv_routed ?t" using routed by (simp_all add: inv_wired_def inv_routed_def)
    then have "chain_inv ?t"
      using inv other flow Some in_flight_step(8,9)
      unfolding chain_inv_def inv_flow_def inv_mirror_def inv_counts_def inv_log_def
      by (simp del: in_flight_step(1-3))
    ultimately show ?thesis by blast
  qed
qed

lemma handle_AO:
  assumes inv: "chain_inv s" and idle: "ch_outbox s AO = []"
    and q: "sw_queues (ch_world s) AO = Some mq" and pop: "mq_pop mq = (msg, mq')"
    and w': "w' = (ch_world s)\<lparr>sw_queues := (sw_queues (ch_world s))(AO \<mapsto> mq')\<rparr>"
  shows "(\<exists>s'. chain_handle AO now msg (s\<lparr>ch_world := w'\<rparr>) = Inr s' \<and> chain_inv s') \<or>
    chain_handle AO now msg (s\<lparr>ch_world := w'\<rparr>) = Inl CounterOverflow \<and>
      int_max < int (length (ch_events s))"
proof -
  have nxt: "ao_next (ch_ao s) = Some (sender_to PT)" "ao_mirror (ch_ao s) = Some (sender_to OI)"
    using inv by (simp_all add: chain_inv_def inv_wired_def)
  note head = pop_queue(1) [OF q pop w', of as_FileEvent]
  note rest = pop_queue(2) [OF q pop w']
  show ?thesis
  proof (cases "pointer_cast as_FileEvent msg")
    case None
    let ?s = "s\<lparr>ch_world := w'\<rparr>"
    have idle_s: "set_outbox AO [] ?s = ?s" using idle by (simp add: fun_upd_idem)
    then have "inv_wired ?s" "inv_routed ?s"
      using take_frame [OF inv q pop w', of "[]"] by simp_all
    moreover have "files ?s = files s" "apps ?s = apps s" "processed ?s = processed s"
      "transformed ?s = transformed s" "mirrored ?s = mirrored s" "queued w' OI = queued (ch_world s) OI"
      using rest head None by (simp_all add: in_flight_def)
    ultimately have "chain_inv ?s"
      using inv unfolding chain_inv_def inv_flow_def inv_mirror_def inv_counts_def inv_log_def
      by (simp del: in_flight_step)
    with None idle_s show ?thesis by (simp add: chain_handle_def ao_iteration_def)
  next
    case (Some fe)
    let ?n = "ch_mirrorCounter s + 1"
    let ?sends = "[(sender_to OI, MirrorMsg \<lparr>mirror_counter = ?n, mirror_message = fileName fe\<rparr>),
      (sender_to PT, AppMsg (app_event fe))]"
    let ?s = "set_outbox AO ?sends (s\<lparr>ch_world := w'\<rparr>)\<lparr>ch_mirrorCounter := ?n\<rparr>"
    have files: "files s = fe # files ?s" using head Some rest by (simp add: in_flight_def)
    have other: "apps ?s = apps s @ [app_event fe]" "processed ?s = processed s"
      "transformed ?s = transformed s" "queued w' OI = queued (ch_world s) OI"
      "length (mirrored ?s) = Suc (length (mirrored s))"
      using rest idle by (simp_all add: in_flight_def)
    show ?thesis
    proof (cases "ch_mirrorCounter s < int_max")
      case False
      moreover from inv files have "ch_mirrorCounter s < int (length (ch_events s))"
        by (simp add: chain_inv_def inv_counts_def)
      ultimately show ?thesis
        using Some nxt by (simp add: chain_handle_def ao_iteration_def int_succ_def)
    next
      case True
      with Some nxt have step: "chain_handle AO now msg (s\<lparr>ch_world := w'\<rparr>) = Inr ?s"
        by (simp add: chain_handle_def ao_iteration_def int_succ_def)
      have "inv_wired ?s" "inv_routed ?s"
        using take_frame [OF inv q pop w', of ?sends] by (simp_all add: inv_wired_def inv_routed_def)
      moreover have "inv_flow ?s"
        using inv files other unfolding chain_inv_def inv_flow_def result_of_def by (simp del: in_flight_step)
      moreover have "inv_mirror ?s" "inv_counts ?s" "inv_log ?s"
        using inv files other unfolding chain_inv_def inv_mirror_def inv_counts_def inv_log_def
        by (simp_all del: in_flight_step)
      ultimately have "chain_inv ?s" by (simp add: chain_inv_def)
      with step show ?thesis by blast
    qed
  qed
qed

lemma chain_take_inv:
  assumes inv: "chain_inv s"
  shows "(\<exists>s'. chain_step (Take u now) s = Inr s' \<and> chain_inv s') \<or>
    chain_step (Take u now) s = Inl CounterOverflow \<and> int_max < int (length (ch_events s))"
proof (cases "u = OI \<or> ch_outbox s u \<noteq> []")
  case True
  with inv show ?thesis by simp
next
  case False
  then have u: "u \<noteq> OI" and idle: "ch_outbox s u = []" by simp_all
  from inv obtain mq where q: "sw_queues (ch_world s) u = Some mq"
    by (auto simp: chain_inv_def inv_wired_def)
  obtain msg mq' where pop: "mq_pop mq = (msg, mq')" by fastforce
  show ?thesis
  proof (cases u)
    case AO
    with handle_AO [OF inv _ _ pop refl] idle q pop show ?thesis by (simp add: chain_take_def)
  next
    case PT
    with handle_PT [OF inv _ _ pop refl] idle q pop show ?thesis
      by (simp add: chain_take_def chain_handle_def)
  next
    case TT
    with handle_TT [OF inv _ _ pop refl] idle q pop show ?thesis
      by (simp add: chain_take_def chain_handle_def)
  next
    case RT
    with handle_RT [OF inv _ _ pop refl] idle q pop show ?thesis by (simp add: chain_take_def)
  qed (use u in simp)
qed

definition is_tick :: "chain_action \<Rightarrow> bool" where
  "is_tick a \<longleftrightarrow> (case a of Tick _ \<Rightarrow> True | _ \<Rightarrow> False)"

lemma chain_step_inv:
  assumes "chain_inv s"
  shows "(\<exists>s'. chain_step a s = Inr s' \<and> chain_inv s') \<or>
    chain_step a s = Inl CounterOverflow \<and>
      int_max < int (length (ch_events s)) + (if is_tick a then 1 else 0)"
proof (cases a)
  case (Command cmd)
  with chain_command_inv [OF assms] show ?thesis by blast
next
  case (Tick t)
  have "ch_count s \<le> int (length (ch_events s))" using assms by (simp add: chain_inv_def inv_counts_def)
  with Tick chain_tick_inv [OF assms, of t] show ?thesis by (auto simp: is_tick_def)
next
  case (Take u now)
  with chain_take_inv [OF assms, of u now] show ?thesis by (simp add: is_tick_def)
next
  case (Flush u)
  with chain_flush_inv [OF assms] show ?thesis by blast
qed

lemma chain_step_bounded:
  assumes "chain_inv s" and "int (length (ch_events s)) + (if is_tick a then 1 else 0) \<le> int_max"
  obtains s' where "chain_step a s = Inr s'" and "chain_inv s'"
  using chain_step_inv [OF assms(1), of a] assms(2) by auto

lemma chain_init_inv:
  assumes "oi_new alloc_ok = Inr oi"
  shows "chain_inv (initTestChain oi)"
  using oi_new_ok [OF assms]
  by (simp add: chain_inv_def chain_inv_defs initTestChain_def oi_setNext_def oi_setDirectToProcessing_def
      makeSender_def in_flight_def queued_def mq_new_def oi_cmds_ok_def int_max_def)

lemma chain_exec_inv:
  "chain_inv s \<Longrightarrow> (\<exists>s'. chain_exec as s = Inr s' \<and> chain_inv s') \<or> chain_exec as s = Inl CounterOverflow"
proof (induction as arbitrary: s)
  case (Cons a as)
  from chain_step_inv [OF Cons.prems, of a] show ?case
  proof
    assume "\<exists>s'. chain_step a s = Inr s' \<and> chain_inv s'"
    then obtain s' where "chain_step a s = Inr s'" and "chain_inv s'" by blast
    with Cons.IH [of s'] show ?thesis by simp
  qed simp
qed simp

lemma chain_reach_inv:
  assumes "oi_new alloc_ok = Inr oi" and "chain_exec as (initTestChain oi) = Inr s"
  shows "chain_inv s"
  using chain_exec_inv [OF chain_init_inv [OF assms(1)], of as] assms(2) by auto

subsection \<open>Draining the chain\<close>

text \<open>The actions still owed: a message weighs more the earlier in the chain it is.\<close>

fun msg_weight :: "payload \<Rightarrow> nat" where
  "msg_weight (FileMsg _) = 9"
| "msg_weight (DirectMsg _) = 1"
| "msg_weight (AppMsg _) = 5"
| "msg_weight (MirrorMsg _) = 0"
| "msg_weight (ProcessedMsg _) = 3"
| "msg_weight (TransformedMsg _) = 1"

fun head_weight :: "payload option \<Rightarrow> nat" where
  "head_weight None = 1"
| "head_weight (Some m) = 1 + msg_weight m"

fun outbox_weight :: "(tid Sender \<times> payload) list \<Rightarrow> nat" where
  "outbox_weight [] = 0"
| "outbox_weight ((_, m) # sends) = 2 + msg_weight m + outbox_weight sends"

definition queue_weight :: "payload option list \<Rightarrow> nat" where
  "queue_weight q = sum_list (map head_weight q)"

definition consumer_weight :: "chain \<Rightarrow> tid \<Rightarrow> nat" where
  "consumer_weight s u = (if u = OI then 0 else queue_weight (queued (ch_world s) u)) + outbox_weight (ch_outbox s u)"

definition chain_weight :: "chain \<Rightarrow> nat" where
  "chain_weight s = (\<Sum>u \<in> {OI, AO, PT, TT, RT}. consumer_weight s u)"

lemma queue_weight_simps [simp]:
  "queue_weight [] = 0" "queue_weight (x # q) = head_weight x + queue_weight q"
  "queue_weight (q @ q') = queue_weight q + queue_weight q'"
  by (simp_all add: queue_weight_def)

lemma head_weight_pos [simp]: "0 < head_weight x" "head_weight x \<noteq> 0"
  by (cases x; simp)+

text \<open>A sum over the threads changes where its terms do.\<close>

lemma weight_less:
  assumes "consumer_weight s' t + consumer_weight s' u < consumer_weight s t + consumer_weight s u" and "t \<noteq> u"
    and "\<And>v. v \<noteq> t \<Longrightarrow> v \<noteq> u \<Longrightarrow> consumer_weight s' v = consumer_weight s v"
  shows "chain_weight s' < chain_weight s"
  using assms(1,2) assms(3) [of OI] assms(3) [of AO] assms(3) [of PT] assms(3) [of TT] assms(3) [of RT]
  unfolding chain_weight_def by (cases t; cases u; simp)

lemma weight_less_one:
  assumes "consumer_weight s' u < consumer_weight s u"
    and "\<And>v. v \<noteq> u \<Longrightarrow> consumer_weight s' v = consumer_weight s v"
  shows "chain_weight s' < chain_weight s"
  using assms(1) assms(2) [of OI] assms(2) [of AO] assms(2) [of PT] assms(2) [of TT] assms(2) [of RT]
  unfolding chain_weight_def by (cases u; simp)

lemma route_not_origin: "route m \<noteq> origin m"
  by (cases m) simp_all

lemma flush_decreases:
  assumes inv: "chain_inv s" and ob: "ch_outbox s u = x # rest"
  shows "\<exists>s'. chain_step (Flush u) s = Inr s' \<and> chain_weight s' < chain_weight s \<and> ch_events s' = ch_events s"
proof -
  obtain sd m where x: "x = (sd, m)" by fastforce
  with ob have ob': "ch_outbox s u = (sd, m) # rest" by simp
  from inv ob' obtain w' where u: "origin m = u"
    and step: "chain_step (Flush u) s = Inr (set_outbox u rest s\<lparr>ch_world := w'\<rparr>)"
    and to: "queued w' (route m) = queued (ch_world s) (route m) @ [Some m]"
    and other: "\<And>v. v \<noteq> route m \<Longrightarrow> queued w' v = queued (ch_world s) v"
    and "dom (sw_queues w') = dom (sw_queues (ch_world s))"
    by (rule flush_moves) (rule that)
  let ?s = "set_outbox u rest s\<lparr>ch_world := w'\<rparr>"
  have ne: "route m \<noteq> u" using route_not_origin [of m] u by simp
  have "chain_weight ?s < chain_weight s"
  proof (rule weight_less [OF _ ne])
    show "consumer_weight ?s (route m) + consumer_weight ?s u <
        consumer_weight s (route m) + consumer_weight s u"
      using to other ne ob x by (simp add: consumer_weight_def)
    show "consumer_weight ?s v = consumer_weight s v" if "v \<noteq> route m" "v \<noteq> u" for v
      using that other by (simp add: consumer_weight_def)
  qed
  with step show ?thesis by simp
qed

lemma iteration_weights:
  "ao_iteration msg ao n = Some (sends, n') \<Longrightarrow> outbox_weight sends < head_weight msg"
  "outbox_weight (pt_iteration msg pt) < head_weight msg"
  "outbox_weight (tt_iteration msg tt) < head_weight msg"
proof -
  show "outbox_weight sends < head_weight msg" if "ao_iteration msg ao n = Some (sends, n')"
  proof (cases msg)
    case (Some m)
    with that show ?thesis
      by (cases m) (auto simp: ao_iteration_def pointer_cast_def Let_def split: option.splits)
  qed (use that in \<open>auto simp: ao_iteration_def pointer_cast_def\<close>)
  show "outbox_weight (pt_iteration msg pt) < head_weight msg"
  proof (cases msg)
    case (Some m)
    then show ?thesis
      by (cases m) (auto simp: pt_iteration_def pointer_cast_def split: option.splits)
  qed (simp add: pt_iteration_def pointer_cast_def)
  show "outbox_weight (tt_iteration msg tt) < head_weight msg"
  proof (cases msg)
    case (Some m)
    then show ?thesis
      by (cases m) (auto simp: tt_iteration_def pointer_cast_def split: option.splits)
  qed (simp add: tt_iteration_def pointer_cast_def)
qed

lemma handle_sends:
  assumes "chain_handle u now msg s = Inr s'" and "ch_outbox s u = []" and "u \<noteq> OI"
  shows "\<exists>sends. ch_world s' = ch_world s \<and> ch_outbox s' = (ch_outbox s)(u := sends) \<and>
    outbox_weight sends < head_weight msg \<and> ch_events s' = ch_events s"
proof (cases u)
  case AO
  with assms iteration_weights(1) show ?thesis by (auto simp: chain_handle_def split: option.splits)
next
  case PT
  with assms iteration_weights(2) show ?thesis by (auto simp: chain_handle_def)
next
  case TT
  with assms iteration_weights(3) show ?thesis by (auto simp: chain_handle_def)
next
  case RT
  with assms head_weight_pos have "ch_world s' = ch_world s \<and> ch_outbox s' = (ch_outbox s)(RT := []) \<and>
      outbox_weight [] < head_weight msg \<and> ch_events s' = ch_events s"
    by (auto simp: chain_handle_def fun_upd_idem split: option.splits)
  with RT show ?thesis by blast
qed (use assms in simp)

lemma take_decreases:
  assumes inv: "chain_inv s" and u: "u \<noteq> OI" and idle: "ch_outbox s u = []"
    and busy: "queued (ch_world s) u \<noteq> []" and few: "int (length (ch_events s)) \<le> int_max"
  shows "\<exists>s'. chain_step (Take u now) s = Inr s' \<and> chain_inv s' \<and> chain_weight s' < chain_weight s \<and>
    ch_events s' = ch_events s"
proof -
  obtain s' where step: "chain_step (Take u now) s = Inr s'" and inv': "chain_inv s'"
    using chain_take_inv [OF inv, of u now] few by auto
  from inv obtain mq where q: "sw_queues (ch_world s) u = Some mq"
    by (auto simp: chain_inv_def inv_wired_def)
  with busy obtain msg rest where items: "m_queue mq = msg # rest"
    by (cases "m_queue mq") (auto simp: queued_def)
  let ?w = "(ch_world s)\<lparr>sw_queues := (sw_queues (ch_world s))(u \<mapsto> mq\<lparr>m_queue := rest\<rparr>)\<rparr>"
  from step u idle q items have "chain_handle u now msg (s\<lparr>ch_world := ?w\<rparr>) = Inr s'"
    by (simp add: chain_take_def mq_pop_def)
  from handle_sends [OF this _ u] idle obtain sends where s': "ch_world s' = ?w"
    "ch_outbox s' = (ch_outbox s)(u := sends)" "outbox_weight sends < head_weight msg"
    "ch_events s' = ch_events s" by auto
  have "chain_weight s' < chain_weight s"
  proof (rule weight_less_one)
    show "consumer_weight s' u < consumer_weight s u"
      using s' u idle q items by (simp add: consumer_weight_def queued_def)
    show "consumer_weight s' v = consumer_weight s v" if "v \<noteq> u" for v
      using that s' by (simp add: consumer_weight_def queued_def)
  qed
  with step inv' s' show ?thesis by blast
qed

definition passing_on :: "chain_action \<Rightarrow> bool" where
  "passing_on a \<longleftrightarrow> (case a of Take _ _ \<Rightarrow> True | Flush _ \<Rightarrow> True | _ \<Rightarrow> False)"

lemma weight_progress:
  assumes inv: "chain_inv s" and "chain_weight s \<noteq> 0" and few: "int (length (ch_events s)) \<le> int_max"
  shows "\<exists>a s'. passing_on a \<and> chain_step a s = Inr s' \<and> chain_inv s' \<and>
    chain_weight s' < chain_weight s \<and> ch_events s' = ch_events s"
proof -
  from assms(2) obtain u where u: "consumer_weight s u \<noteq> 0" by (auto simp: chain_weight_def)
  show ?thesis
  proof (cases "ch_outbox s u")
    case (Cons x rest)
    with flush_decreases [OF inv Cons] chain_flush_inv [OF inv, of u] show ?thesis
      by (intro exI [of _ "Flush u"]) (auto simp: passing_on_def)
  next
    case Nil
    with u have "u \<noteq> OI" "queued (ch_world s) u \<noteq> []" by (auto simp: consumer_weight_def split: if_splits)
    with take_decreases [OF inv _ Nil _ few, of 0] show ?thesis
      by (intro exI [of _ "Take u 0"]) (auto simp: passing_on_def simp del: chain_step.simps)
  qed
qed

lemma chain_drain:
  "chain_inv s \<Longrightarrow> int (length (ch_events s)) \<le> int_max \<Longrightarrow> \<exists>as s'. (\<forall>a \<in> set as. passing_on a) \<and> chain_exec as s = Inr s' \<and> chain_inv s' \<and>
     chain_weight s' = 0 \<and> ch_events s' = ch_events s"
proof (induction "chain_weight s" arbitrary: s rule: less_induct)
  case less
  show ?case
  proof (cases "chain_weight s = 0")
    case True
    with less.prems show ?thesis by (intro exI [of _ "[]"] exI [of _ s]) simp
  next
    case False
    from weight_progress [OF less.prems(1) this less.prems(2)] obtain a s1 where a: "passing_on a" "chain_step a s = Inr s1"
      "chain_inv s1" "chain_weight s1 < chain_weight s" "ch_events s1 = ch_events s" by blast
    from less.hyps [OF a(4,3)] a(5) less.prems(2) obtain as s' where "\<forall>a \<in> set as. passing_on a" "chain_exec as s1 = Inr s'"
      "chain_inv s'" "chain_weight s' = 0" "ch_events s' = ch_events s1" by auto
    with a show ?thesis by (intro exI [of _ "a # as"] exI [of _ s']) simp
  qed
qed

lemma drained_empty:
  assumes "chain_weight s = 0"
  shows "ch_outbox s u = []" and "u \<noteq> OI \<Longrightarrow> queued (ch_world s) u = []"
proof -
  have zero: "consumer_weight s u = 0" using assms by (cases u) (simp_all add: chain_weight_def)
  then show "ch_outbox s u = []" by (cases "ch_outbox s u") (auto simp: consumer_weight_def)
  show "queued (ch_world s) u = []" if "u \<noteq> OI"
    using zero that by (cases "queued (ch_world s) u") (auto simp: consumer_weight_def)
qed

subsection \<open>Overflow and the feedback queue\<close>

lemma chain_step_count:
  assumes inv: "chain_inv s" and step: "chain_step a s = Inr s'"
  shows "\<exists>n. ch_count s' = ch_count s + int n \<and> length (ch_events s') = length (ch_events s) + n \<and>
    n \<le> (if is_tick a then 1 else 0) \<and> (n \<noteq> 0 \<longrightarrow> ch_count s' \<le> int_max)"
proof (cases a)
  case (Tick t)
  show ?thesis
  proof (cases "ch_outbox s OI = []")
    case True
    with step Tick have "chain_tick t s = Inr s'" by simp
    then obtain cmd rb sends count oi where
      iter: "oi_iteration cmd t (ch_count s) (ch_oi s\<lparr>oi_cmdBuffer := rb\<rparr>) = Some (sends, count, oi)"
      and s': "s' = set_outbox OI sends s\<lparr>ch_count := count, ch_oi := oi,
        ch_events := ch_events s @ pick as_FileEvent (map snd sends)\<rparr>"
      by (auto simp: chain_tick_def split: sum.splits option.splits prod.splits)
    from wired_iteration [OF _ _ iter, of "sender_to AO" "sender_to PT"] inv
    have "count = ch_count s \<and> sends = [] \<or> count = ch_count s + 1 \<and> ch_count s < int_max \<and>
        sends = [(sender_to AO, FileMsg (file_event count (at_event t))),
                 (sender_to PT, DirectMsg \<lparr>direct_counter = count\<rparr>)]"
      by (auto simp: chain_inv_def inv_wired_def)
    with s' Tick show ?thesis
      by (intro exI [of _ "length (pick as_FileEvent (map snd sends))"]) (auto simp: is_tick_def)
  next
    case False
    with step Tick show ?thesis by (intro exI [of _ 0]) (auto split: list.splits)
  qed
next
  case (Take u now)
  with step show ?thesis
    by (cases u) (auto simp: is_tick_def chain_take_def chain_handle_def
        split: if_splits option.splits prod.splits)
next
  case (Flush u)
  with step show ?thesis by (auto simp: is_tick_def split: list.splits sum.splits)
next
  case (Command cmd)
  with step show ?thesis by (auto simp: is_tick_def split: sum.splits)
qed

text \<open>As long as no loop is entered again, the observer has counted every event.\<close>

lemma chain_exec_count:
  "chain_exec as s = Inr s' \<Longrightarrow> chain_inv s \<Longrightarrow> ch_count s = int (length (ch_events s)) \<Longrightarrow>
     ch_count s \<le> int_max \<Longrightarrow> ch_count s' = int (length (ch_events s')) \<and> ch_count s' \<le> int_max"
proof (induction as arbitrary: s)
  case (Cons a as)
  from Cons.prems(1) obtain s1 where s1: "chain_step a s = Inr s1" "chain_exec as s1 = Inr s'"
    by (auto split: sum.splits)
  moreover have "chain_inv s1" using chain_step_inv [OF Cons.prems(2), of a] s1(1) by auto
  moreover from chain_step_count [OF Cons.prems(2) s1(1)] Cons.prems(3,4)
  have "ch_count s1 = int (length (ch_events s1))" "ch_count s1 \<le> int_max" by (auto split: if_splits)
  ultimately show ?case by (intro Cons.IH)
qed simp

lemma chain_reach_count:
  assumes "oi_new alloc_ok = Inr oi" and "chain_exec as (initTestChain oi) = Inr s"
  shows "ch_count s = int (length (ch_events s))" and "int (length (ch_events s)) \<le> int_max"
  using chain_exec_count [OF assms(2) chain_init_inv [OF assms(1)]]
  by (simp_all add: initTestChain_def int_max_def)

lemma chain_exec_ticks:
  "chain_inv s \<Longrightarrow> int (length (ch_events s)) + int (length (filter is_tick as)) \<le> int_max \<Longrightarrow>
     \<exists>s'. chain_exec as s = Inr s'"
proof (induction as arbitrary: s)
  case (Cons a as)
  have "int (length (ch_events s)) + (if is_tick a then 1 else 0) \<le> int_max"
    using Cons.prems(2) by (auto split: if_splits)
  with Cons.prems(1) obtain s' where s': "chain_step a s = Inr s'" "chain_inv s'"
    by (rule chain_step_bounded)
  from chain_step_count [OF Cons.prems(1) s'(1)] Cons.prems(2)
  have "int (length (ch_events s')) + int (length (filter is_tick as)) \<le> int_max" by (auto split: if_splits)
  with Cons.IH [OF s'(2)] s'(1) show ?case by simp
qed simp

lemma prefix_of_queue:
  assumes inv: "chain_inv s" and step: "chain_step a s = Inr s'"
  shows "prefix (queued (ch_world s) OI) (queued (ch_world s') OI)"
proof (cases a)
  case (Tick t)
  with step show ?thesis
    by (auto simp: chain_tick_def split: if_splits sum.splits option.splits)
next
  case (Take u now)
  show ?thesis
  proof (cases "u = OI \<or> ch_outbox s u \<noteq> []")
    case True
    with step Take show ?thesis by auto
  next
    case False
    with step Take have "queued (ch_world s') OI = queued (ch_world s) OI"
      by (cases u) (auto simp: chain_take_def chain_handle_def queued_def
          split: if_splits option.splits prod.splits)
    then show ?thesis by simp
  qed
next
  case (Flush u)
  show ?thesis
  proof (cases "ch_outbox s u")
    case Nil
    with step Flush show ?thesis by simp
  next
    case (Cons x rest)
    obtain sd m where "x = (sd, m)" by fastforce
    with Cons have ob: "ch_outbox s u = (sd, m) # rest" by simp
    with inv obtain w' where
      flush: "chain_step (Flush u) s = Inr (set_outbox u rest s\<lparr>ch_world := w'\<rparr>)"
      and to: "queued w' (route m) = queued (ch_world s) (route m) @ [Some m]"
      and other: "\<And>v. v \<noteq> route m \<Longrightarrow> queued w' v = queued (ch_world s) v"
      by (rule flush_moves) (rule that)
    from step Flush flush have "s' = set_outbox u rest s\<lparr>ch_world := w'\<rparr>" by simp
    with to other [of OI] show ?thesis by (cases "OI = route m") simp_all
  qed
next
  case (Command cmd)
  with step show ?thesis by (auto split: sum.splits)
qed

lemma received_prefix:
  assumes "chain_inv s"
  shows "ch_received s = take (length (ch_received s)) (map result_of (ch_events s))"
  using assms by (simp add: chain_inv_def inv_flow_def)

lemma result_line:
  "fileName (originalFile (originalAppEvent (originalData (result_of fe)))) = fileName fe"
  "transformed_value (result_of fe) = 63"
  by (simp_all add: result_of_def transformed_data_def processed_data_def app_event_def)

subsection \<open>Properties\<close>

text \<open>
  Further property (safety, functional): whatever the schedule of the five threads and of the commands,
  the results that arrive at the end of the chain are the results of the first events generated,
  each exactly once and in the order of their generation; and the lines printed are, in that
  order, the names of those events with the value 63.
\<close>

theorem chain_exactly_once_in_order:
  assumes "oi_new alloc_ok = Inr oi" and "chain_exec as (initTestChain oi) = Inr s"
  shows "ch_received s = take (length (ch_received s)) (map result_of (ch_events s)) \<and>
    map (\<lambda>(name, val, _). (name, val)) (ch_log s) =
      map (\<lambda>fe. (fileName fe, 63)) (take (length (ch_received s)) (ch_events s))"
proof -
  from chain_reach_inv [OF assms] have inv: "chain_inv s" .
  note received = received_prefix [OF inv]
  have "map (\<lambda>(name, val, _). (name, val)) (ch_log s) =
      map (\<lambda>td. (fileName (originalFile (originalAppEvent (originalData td))), transformed_value td))
        (map result_of (take (length (ch_received s)) (ch_events s)))"
    using inv received by (simp add: chain_inv_def inv_log_def take_map)
  also have "\<dots> = map (\<lambda>fe. (fileName fe, 63)) (take (length (ch_received s)) (ch_events s))"
    by (simp add: result_line)
  finally show ?thesis using received by simp
qed

definition demo_run :: "chain_action list" where
  "demo_run = [Tick (readings_at 5), Flush OI, Flush OI, Take AO 0, Flush AO, Flush AO, Take PT 0,
     Take PT 0, Flush PT, Take TT 0, Flush TT, Take RT 2005]"

definition demo_chain :: chain where
  "demo_chain = (case oi_new (\<lambda>_. True) of Inr oi \<Rightarrow> initTestChain oi)"

theorem chain_exactly_once_in_order_witness:
  "\<exists>s. chain_exec demo_run demo_chain = Inr s \<and> map fst (ch_log s) = [''file_1.txt''] \<and>
     ch_received s = take 1 (map result_of (ch_events s))"
proof -
  obtain oi where new: "oi_new (\<lambda>_. True) = Inr oi" using oi_new_exists by blast
  then have demo: "demo_chain = initTestChain oi" by (simp add: demo_chain_def)
  have "(case chain_exec demo_run demo_chain of
      Inr s \<Rightarrow> map fst (ch_log s) = [''file_1.txt''] \<and> length (ch_received s) = 1 | _ \<Rightarrow> False)"
    by code_simp
  then obtain s where s: "chain_exec demo_run demo_chain = Inr s" "map fst (ch_log s) = [''file_1.txt'']"
    "length (ch_received s) = 1" by (auto split: sum.splits)
  from chain_exactly_once_in_order [OF new s(1) [unfolded demo]] s show ?thesis by auto
qed

text \<open>
  Further property (safety): no schedule makes the wired chain fault: no send goes to a missing queue, no
  command reaches a slot out of range, and no counter overflows, as long as the observer goes
  through fewer than 2 to the 31 iterations.
\<close>

theorem chain_never_faults:
  assumes "oi_new alloc_ok = Inr oi" and "int (length (filter is_tick as)) \<le> int_max"
  shows "\<exists>s. chain_exec as (initTestChain oi) = Inr s"
proof -
  have "ch_events (initTestChain oi) = []" by (simp add: initTestChain_def)
  with chain_exec_ticks [OF chain_init_inv [OF assms(1)]] assms(2) show ?thesis by simp
qed

theorem chain_never_faults_witness:
  "\<exists>s. chain_exec [Tick (readings_at 5), Flush OI, Take AO 0, Flush RT] demo_chain = Inr s"
proof -
  obtain oi where new: "oi_new (\<lambda>_. True) = Inr oi" using oi_new_exists by blast
  then have "demo_chain = initTestChain oi" by (simp add: demo_chain_def)
  with chain_never_faults [OF new, of "[Tick (readings_at 5), Flush OI, Take AO 0, Flush RT]"]
  show ?thesis by (simp add: is_tick_def int_max_def del: chain_exec.simps)
qed



text \<open>
  Further property (bounds): the feedback queue leaks. The observer never takes a message from its own
  queue: no step removes anything from it, and once what is in the chain has been passed on it
  holds one mirror event for every file event ever generated.
\<close>

theorem mirror_queue_only_grows:
  assumes "oi_new alloc_ok = Inr oi" and "chain_exec as (initTestChain oi) = Inr s"
  shows "(\<forall>a s'. chain_step a s = Inr s' \<longrightarrow>
      prefix (queued (ch_world s) OI) (queued (ch_world s') OI)) \<and>
    (ch_outbox s AO = [] \<and> ch_outbox s OI = [] \<and> queued (ch_world s) AO = [] \<longrightarrow>
       length (queued (ch_world s) OI) = length (ch_events s))"
proof -
  from chain_reach_inv [OF assms] have inv: "chain_inv s" .
  have "length (queued (ch_world s) OI) = length (ch_events s)"
    if "ch_outbox s AO = []" "ch_outbox s OI = []" "queued (ch_world s) AO = []"
    using inv that by (simp add: chain_inv_def inv_mirror_def in_flight_def)
  with prefix_of_queue [OF inv] show ?thesis by blast
qed

theorem mirror_queue_only_grows_witness:
  "\<exists>s. chain_exec demo_run demo_chain = Inr s \<and> length (queued (ch_world s) OI) = length (ch_events s) \<and>
     length (ch_events s) = 1"
proof -
  obtain oi where new: "oi_new (\<lambda>_. True) = Inr oi" using oi_new_exists by blast
  then have demo: "demo_chain = initTestChain oi" by (simp add: demo_chain_def)
  have "(case chain_exec demo_run demo_chain of
      Inr s \<Rightarrow> ch_outbox s AO = [] \<and> ch_outbox s OI = [] \<and> queued (ch_world s) AO = [] \<and>
        length (ch_events s) = 1 | _ \<Rightarrow> False)"
    by code_simp
  then obtain s where s: "chain_exec demo_run demo_chain = Inr s" "ch_outbox s AO = []"
    "ch_outbox s OI = []" "queued (ch_world s) AO = []" "length (ch_events s) = 1"
    by (auto split: sum.splits)
  from mirror_queue_only_grows [OF new s(1) [unfolded demo]] s show ?thesis by blast
qed

end
