(* ===== verification/WorkerBase.thy ===== *)
theory WorkerBase
  imports CondVar
begin

text \<open>
  The class \<open>workerBase\<close> of \<open>src/include/workerBase.hpp\<close>: the thread of a component, its stop
  tokens and its life cycle.

  \<^item> A \<open>std::stop_source\<close> is a number and its state an entry of \<open>stop_sources\<close>: whether a stop was
    requested and whether the source still exists. A \<open>std::stop_token\<close> is \<open>None\<close> (no state) or the
    number of its source.
  \<^item> The \<open>std::jthread\<close> member is the fields \<open>wb_joinable\<close>, \<open>wb_source\<close> (its own stop state, \<open>None\<close> as
    long as it was never started, else whether a stop was requested) and \<open>wb_phase\<close>, which says how
    far the function passed to the thread has come.
  \<^item> \<open>wb_join\<close> is \<open>None\<close> where the C++ call blocks. \<open>wb_settle\<close> lets the thread's function run as far
    as it gets, with the contract of every \<open>run\<close> in the sources: it returns when its token reports a
    stop request.
\<close>

record stop_state =
  ss_requested :: bool
  ss_exists :: bool

type_synonym stop_sources = "nat \<Rightarrow> stop_state"

definition stop_possible :: "stop_sources \<Rightarrow> nat option \<Rightarrow> bool" where
  "stop_possible src tok = (case tok of
     None \<Rightarrow> False
   | Some e \<Rightarrow> ss_requested (src e) \<or> ss_exists (src e))"

definition request_stop :: "nat \<Rightarrow> stop_sources \<Rightarrow> stop_sources" where
  "request_stop e src = src(e := (src e)\<lparr>ss_requested := True\<rparr>)"

datatype run_token = InternalToken | CombinedToken nat

datatype phase = NoThread | Spawned "nat option" | InRun run_token | Leaving | Finished

record workerBase =
  wb_running :: bool
  wb_joinable :: bool
  wb_source :: "bool option"
  wb_phase :: phase

definition wb_new :: workerBase where
  "wb_new = \<lparr>wb_running = False, wb_joinable = False, wb_source = None, wb_phase = NoThread\<rparr>"

text \<open>
  \<open>start\<close>: the arguments are the answer of \<open>isReadyToStart\<close>, whether the thread can be created,
  and the external token. Assigning the new \<open>jthread\<close> stops and joins the old one, which has
  set the running flag to false as its last action (\<open>wb_inv\<close> below), so \<open>start\<close> does not wait for \<open>run\<close>;
  \<open>WorkerCalls\<close> has these steps one by one.
\<close>

definition wb_start :: "bool \<Rightarrow> bool \<Rightarrow> nat option \<Rightarrow> workerBase \<Rightarrow> bool \<times> workerBase" where
  "wb_start ready spawn_ok externalToken w =
     (if \<not> ready then (False, w)
      else if wb_running w then (False, w)
      else
        let w = w\<lparr>wb_running := True\<rparr>
        in if \<not> spawn_ok then (False, w\<lparr>wb_running := False\<rparr>)
           else (True, w\<lparr>wb_joinable := True, wb_source := Some False,
                         wb_phase := Spawned externalToken\<rparr>))"

definition wb_body_begin :: "stop_sources \<Rightarrow> workerBase \<Rightarrow> workerBase" where
  "wb_body_begin src w = (case wb_phase w of
     Spawned ext \<Rightarrow> w\<lparr>wb_phase :=
       (case ext of
          Some e \<Rightarrow> if stop_possible src ext then InRun (CombinedToken e) else InRun InternalToken
        | None \<Rightarrow> InRun InternalToken)\<rparr>
   | _ \<Rightarrow> w)"

definition wb_body_return :: "workerBase \<Rightarrow> workerBase" where
  "wb_body_return w = (case wb_phase w of InRun _ \<Rightarrow> w\<lparr>wb_phase := Leaving\<rparr> | _ \<Rightarrow> w)"

definition wb_body_mark_stopped :: "workerBase \<Rightarrow> workerBase" where
  "wb_body_mark_stopped w = (case wb_phase w of
     Leaving \<Rightarrow> w\<lparr>wb_phase := Finished, wb_running := False\<rparr>
   | _ \<Rightarrow> w)"

definition own_stop_requested :: "workerBase \<Rightarrow> bool" where
  "own_stop_requested w \<longleftrightarrow> wb_source w = Some True"

text \<open>What \<open>stop_requested()\<close> of the token given to \<open>run\<close> answers.\<close>

definition token_requested :: "stop_sources \<Rightarrow> run_token \<Rightarrow> workerBase \<Rightarrow> bool" where
  "token_requested src tok w = (case tok of
     InternalToken \<Rightarrow> own_stop_requested w
   | CombinedToken e \<Rightarrow> own_stop_requested w \<or> ss_requested (src e))"

definition wb_stop :: "workerBase \<Rightarrow> workerBase" where
  "wb_stop w = (if wb_joinable w then w\<lparr>wb_source := map_option (\<lambda>_. True) (wb_source w)\<rparr> else w)"

text \<open>The hooks may change the worker and what else the caller holds.\<close>

definition wb_stopWithHooks ::
  "('c \<times> workerBase \<Rightarrow> 'c \<times> workerBase) \<Rightarrow> ('c \<times> workerBase \<Rightarrow> 'c \<times> workerBase) \<Rightarrow>
     'c \<times> workerBase \<Rightarrow> 'c \<times> workerBase"
where
  "wb_stopWithHooks beforeStop afterStop s = (case beforeStop s of (c, w) \<Rightarrow> afterStop (c, wb_stop w))"

definition wb_join :: "workerBase \<Rightarrow> workerBase option" where
  "wb_join w =
     (if \<not> wb_joinable w then Some w
      else if wb_phase w = Finished then Some (w\<lparr>wb_joinable := False\<rparr>)
      else None)"

definition wb_isRunning :: "workerBase \<Rightarrow> bool" where
  "wb_isRunning w = wb_running w"

definition wb_isStopRequested :: "workerBase \<Rightarrow> bool" where
  "wb_isStopRequested w = own_stop_requested w"

definition wb_settle :: "stop_sources \<Rightarrow> workerBase \<Rightarrow> workerBase" where
  "wb_settle src w =
     (let w = wb_body_begin src w;
          w = (case wb_phase w of
                 InRun tok \<Rightarrow> if token_requested src tok w then wb_body_return w else w
               | _ \<Rightarrow> w)
      in wb_body_mark_stopped w)"

definition wb_stopAndWait :: "stop_sources \<Rightarrow> workerBase \<Rightarrow> workerBase option" where
  "wb_stopAndWait src w = wb_join (wb_settle src (wb_stop w))"

text \<open>
  \<open>waitFor\<close>: the state of each wake-up is whether the stop token is requested and whether the
  caller's predicate holds.
\<close>

definition wb_waitFor :: "bool \<times> bool \<Rightarrow> (bool \<times> bool) wakeup list \<Rightarrow> bool option" where
  "wb_waitFor s wakes = map_option snd (cv_wait_for (\<lambda>(stop, pred). stop \<or> pred) s wakes)"

lemmas wb_defs = wb_new_def wb_start_def wb_body_begin_def wb_body_return_def
  wb_body_mark_stopped_def own_stop_requested_def token_requested_def wb_stop_def wb_join_def
  wb_isRunning_def wb_isStopRequested_def

subsection \<open>The life cycle\<close>

inductive wb_step :: "stop_sources \<times> workerBase \<Rightarrow> stop_sources \<times> workerBase \<Rightarrow> bool" where
  step_start: "wb_start ready spawn_ok ext w = (ok, w') \<Longrightarrow> wb_step (src, w) (src, w')"
| step_begin: "wb_step (src, w) (src, wb_body_begin src w)"
| step_return: "wb_step (src, w) (src, wb_body_return w)"
| step_mark: "wb_step (src, w) (src, wb_body_mark_stopped w)"
| step_stop: "wb_step (src, w) (src, wb_stop w)"
| step_join: "wb_join w = Some w' \<Longrightarrow> wb_step (src, w) (src, w')"
| step_sources: "wb_step (src, w) (src', w)"

inductive wb_reach :: "stop_sources \<times> workerBase \<Rightarrow> bool" where
  wb_reach_new: "wb_reach (src, wb_new)"
| wb_reach_step: "wb_reach s \<Longrightarrow> wb_step s s' \<Longrightarrow> wb_reach s'"

inductive_cases wb_stepE: "wb_step (src, w) s'"

fun body_active :: "phase \<Rightarrow> bool" where
  "body_active NoThread = False"
| "body_active Finished = False"
| "body_active _ = True"

definition wb_inv :: "workerBase \<Rightarrow> bool" where
  "wb_inv w \<longleftrightarrow>
     (wb_running w \<longleftrightarrow> body_active (wb_phase w)) \<and>
     (body_active (wb_phase w) \<longrightarrow> wb_joinable w) \<and>
     (wb_joinable w \<longrightarrow> wb_source w \<noteq> None \<and> wb_phase w \<noteq> NoThread)"

lemma wb_inv_new: "wb_inv wb_new"
  by (simp add: wb_inv_def wb_new_def)

lemma wb_inv_start: "wb_inv w \<Longrightarrow> wb_start ready spawn_ok ext w = (ok, w') \<Longrightarrow> wb_inv w'"
  by (auto simp: wb_inv_def wb_start_def Let_def split: if_splits)

lemma wb_inv_begin: "wb_inv w \<Longrightarrow> wb_inv (wb_body_begin src w)"
  by (auto simp: wb_inv_def wb_body_begin_def split: phase.splits option.splits)

lemma wb_inv_return: "wb_inv w \<Longrightarrow> wb_inv (wb_body_return w)"
  by (auto simp: wb_inv_def wb_body_return_def split: phase.splits)

lemma wb_inv_mark: "wb_inv w \<Longrightarrow> wb_inv (wb_body_mark_stopped w)"
  by (auto simp: wb_inv_def wb_body_mark_stopped_def split: phase.splits)

lemma wb_inv_stop: "wb_inv w \<Longrightarrow> wb_inv (wb_stop w)"
  by (auto simp: wb_inv_def wb_stop_def)

lemma wb_inv_join: "wb_inv w \<Longrightarrow> wb_join w = Some w' \<Longrightarrow> wb_inv w'"
  by (auto simp: wb_inv_def wb_join_def split: if_splits)

lemma wb_inv_settle: "wb_inv w \<Longrightarrow> wb_inv (wb_settle src w)"
  by (auto simp: wb_settle_def Let_def wb_inv_begin wb_inv_return wb_inv_mark split: phase.split)

lemmas wb_inv_intros = wb_inv_new wb_inv_start wb_inv_begin wb_inv_return wb_inv_mark wb_inv_stop
  wb_inv_join wb_inv_settle

lemma wb_inv_reach: "wb_reach s \<Longrightarrow> wb_inv (snd s)"
proof (induction rule: wb_reach.induct)
  case (wb_reach_step s s')
  obtain src w where s: "s = (src, w)" by fastforce
  with wb_reach_step.IH have inv: "wb_inv w" by simp
  from wb_reach_step.hyps(2) [unfolded s] show ?case
    by (rule wb_stepE) (use inv in \<open>auto intro: wb_inv_intros\<close>)
qed (simp add: wb_inv_new)

text \<open>What is left of a worker whose body can see a stop request.\<close>

lemma settle_finishes:
  assumes "wb_inv w" and "own_stop_requested w \<or> (\<exists>e. ss_requested (src e) \<and>
    (wb_phase w = Spawned (Some e) \<or> wb_phase w = InRun (CombinedToken e)))"
  shows "\<not> body_active (wb_phase (wb_settle src w)) \<and> wb_joinable (wb_settle src w) = wb_joinable w"
  using assms
  by (cases "wb_phase w")
    (auto simp: wb_settle_def Let_def wb_defs stop_possible_def split: run_token.splits option.splits)

lemma join_inactive:
  assumes "wb_inv w" and "\<not> body_active (wb_phase w)"
  shows "\<exists>w'. wb_join w = Some w' \<and> wb_inv w' \<and> \<not> wb_joinable w' \<and> \<not> wb_isRunning w'"
  using assms by (cases "wb_phase w") (auto simp: wb_join_def wb_isRunning_def wb_inv_def)

lemma settle_blocked:
  assumes "wb_phase w = InRun tok" and "\<not> token_requested src tok w"
  shows "wb_settle src w = w"
  using assms by (simp add: wb_settle_def Let_def wb_body_begin_def wb_body_mark_stopped_def)

lemma stopAndWait_returns:
  assumes inv: "wb_inv w"
  shows "\<exists>w'. wb_stopAndWait src w = Some w' \<and> wb_inv w' \<and> \<not> wb_isRunning w' \<and> \<not> wb_joinable w'"
proof -
  have "\<not> body_active (wb_phase (wb_settle src (wb_stop w)))"
  proof (cases "wb_joinable w")
    case True
    with inv have "own_stop_requested (wb_stop w)"
      by (auto simp: wb_stop_def own_stop_requested_def wb_inv_def)
    with settle_finishes [OF wb_inv_stop [OF inv]] show ?thesis by blast
  next
    case False
    with inv show ?thesis
      by (cases "wb_phase w") (auto simp: wb_inv_def wb_stop_def wb_settle_def Let_def wb_defs)
  qed
  with join_inactive wb_inv_settle [OF wb_inv_stop [OF inv], of src] show ?thesis
    unfolding wb_stopAndWait_def by blast
qed

subsection \<open>Properties\<close>

text \<open>
  Further property (invariant, functional): at every moment of a worker's life the running flag is set
  exactly while a thread function is on its way, so there are never two at once: \<open>start\<close> returns
  true exactly if the worker is ready, none is on its way and the thread can be created; and when
  it returns false it has changed nothing.
\<close>

theorem wb_at_most_one_body:
  assumes "wb_reach (src, w)" and "wb_start ready spawn_ok ext w = (ok, w')"
  shows "(wb_isRunning w \<longleftrightarrow> body_active (wb_phase w)) \<and>
    (ok \<longleftrightarrow> ready \<and> \<not> body_active (wb_phase w) \<and> spawn_ok) \<and>
    (ok \<longrightarrow> wb_phase w' = Spawned ext \<and> wb_isRunning w' \<and> \<not> wb_isStopRequested w') \<and>
    (\<not> ok \<longrightarrow> w' = w)"
  using wb_inv_reach [OF assms(1)] assms(2)
  by (cases w) (auto simp: wb_inv_def wb_defs Let_def split: if_splits)

theorem wb_at_most_one_body_witness:
  "\<exists>w'. wb_start True True None wb_new = (True, w') \<and> wb_phase w' = Spawned None \<and> wb_isRunning w'"
proof -
  obtain ok w' where start: "wb_start True True None wb_new = (ok, w')" by fastforce
  from wb_at_most_one_body [OF wb_reach_new start] start show ?thesis by (auto simp: wb_new_def)
qed

text \<open>
  Property C31 (liveness): a stop request reaches the body. From every reachable state, if \<open>run\<close>
  returns when its token reports a stop, \<open>stopAndWait\<close> returns, and the worker is then neither
  running nor joinable, whichever token \<open>run\<close> was given. After a stop request on the external
  source alone the same holds for \<open>join\<close> of a worker that was started with that source's token.
\<close>

theorem wb_stop_reaches_body:
  assumes "wb_reach (src, w)"
  shows "(\<exists>w'. wb_stopAndWait src w = Some w' \<and> \<not> wb_isRunning w' \<and> \<not> wb_joinable w') \<and>
    (\<forall>e. wb_phase w = Spawned (Some e) \<or> wb_phase w = InRun (CombinedToken e) \<longrightarrow>
       (\<exists>w'. wb_join (wb_settle (request_stop e src) w) = Some w' \<and>
          \<not> wb_isRunning w' \<and> \<not> wb_joinable w'))"
proof -
  from wb_inv_reach [OF assms] have inv: "wb_inv w" by simp
  from stopAndWait_returns [OF inv]
  have "\<exists>w'. wb_stopAndWait src w = Some w' \<and> \<not> wb_isRunning w' \<and> \<not> wb_joinable w'" by blast
  moreover have "\<exists>w'. wb_join (wb_settle (request_stop e src) w) = Some w' \<and>
      \<not> wb_isRunning w' \<and> \<not> wb_joinable w'"
    if "wb_phase w = Spawned (Some e) \<or> wb_phase w = InRun (CombinedToken e)" for e
  proof -
    from that settle_finishes [OF inv, of "request_stop e src"]
    have "\<not> body_active (wb_phase (wb_settle (request_stop e src) w))"
      by (auto simp: request_stop_def)
    with join_inactive wb_inv_settle [OF inv] show ?thesis by blast
  qed
  ultimately show ?thesis by blast
qed

text \<open>A worker for the examples: started with the token of source 0, its body in \<open>run\<close>.\<close>

definition one_source :: stop_sources where
  "one_source = (\<lambda>e. \<lparr>ss_requested = False, ss_exists = (e = 0)\<rparr>)"

definition wb_in_run :: workerBase where
  "wb_in_run = \<lparr>wb_running = True, wb_joinable = True, wb_source = Some False,
     wb_phase = InRun (CombinedToken 0)\<rparr>"

lemma wb_in_run_reach: "wb_reach (one_source, wb_in_run)"
proof -
  have "wb_step (one_source, wb_new) (one_source, snd (wb_start True True (Some 0) wb_new))"
    by (rule step_start [of True True "Some 0" _ "fst (wb_start True True (Some 0) wb_new)"]) simp
  then have "wb_reach (one_source, wb_body_begin one_source (snd (wb_start True True (Some 0) wb_new)))"
    by (blast intro: wb_reach_new wb_reach_step step_begin)
  moreover have "wb_body_begin one_source (snd (wb_start True True (Some 0) wb_new)) = wb_in_run"
    by (simp add: wb_defs Let_def wb_in_run_def stop_possible_def one_source_def)
  ultimately show ?thesis by simp
qed

theorem wb_stop_reaches_body_witness:
  "\<exists>w'. wb_stopAndWait one_source wb_in_run = Some w' \<and> \<not> wb_isRunning w' \<and> \<not> wb_joinable w'"
  using wb_stop_reaches_body [OF wb_in_run_reach] by blast

text \<open>
  Further property (error): \<open>isStopRequested\<close> sees only the thread's own stop state. In every state a
  stop request on the external source, which the token of \<open>run\<close> reports, leaves its answer as it
  was: a worker that a manager has stopped denies that a stop was requested.
\<close>

theorem wb_isStopRequested_ignores_external:
  assumes "wb_phase w = InRun (CombinedToken e)"
  shows "token_requested (request_stop e src) (CombinedToken e) w \<and>
    (wb_isStopRequested w \<longleftrightarrow> own_stop_requested w) \<and>
    (wb_source w = Some False \<longrightarrow> \<not> wb_isStopRequested (wb_settle (request_stop e src) w))"
  using assms
  by (simp add: wb_defs request_stop_def wb_settle_def Let_def)

theorem wb_isStopRequested_ignores_external_witness:
  "token_requested (request_stop 0 one_source) (CombinedToken 0) wb_in_run \<and>
   \<not> wb_isStopRequested (wb_settle (request_stop 0 one_source) wb_in_run)"
  using wb_isStopRequested_ignores_external [of wb_in_run 0 one_source] by (simp add: wb_in_run_def)

text \<open>
  Further property (functional): \<open>waitFor\<close> returns once its timeout has expired or a wake-up finds a
  stop request or the predicate, and it returns false exactly when the timeout expired with
  neither: a stop request makes it return true, like the predicate.
\<close>

theorem wb_waitFor_functional:
  "(\<forall>stop pred. Expired (stop, pred) \<in> set wakes \<longrightarrow> wb_waitFor s wakes \<noteq> None) \<and>
   (\<forall>r. wb_waitFor s wakes = Some r \<longrightarrow>
      (\<exists>(stop, pred) \<in> set (s # map seen wakes). r \<longleftrightarrow> stop \<or> pred)) \<and>
   wb_waitFor (True, pred0) wakes = Some True \<and>
   (wb_waitFor s wakes = Some False \<longrightarrow> Expired (False, False) \<in> set wakes)"
proof (intro conjI allI impI)
  fix stop pred
  assume "Expired (stop, pred) \<in> set wakes"
  then show "wb_waitFor s wakes \<noteq> None"
    using cv_wait_for_expires [of "(stop, pred)" wakes "\<lambda>(stop, pred). stop \<or> pred" s]
    by (auto simp: wb_waitFor_def)
next
  fix r
  assume "wb_waitFor s wakes = Some r"
  then obtain s' where "cv_wait_for (\<lambda>(stop, pred). stop \<or> pred) s wakes = Some (s', r)"
    by (auto simp: wb_waitFor_def)
  from cv_wait_for_sound [OF this]
  show "\<exists>(stop, pred) \<in> set (s # map seen wakes). r \<longleftrightarrow> stop \<or> pred"
    by (intro bexI [of _ s']) (auto split: prod.splits)
next
  assume "wb_waitFor s wakes = Some False"
  then obtain s' where "cv_wait_for (\<lambda>(stop, pred). stop \<or> pred) s wakes = Some (s', False)"
    by (auto simp: wb_waitFor_def)
  from cv_wait_for_sound [OF this] show "Expired (False, False) \<in> set wakes"
    by (cases s') auto
qed (simp add: wb_waitFor_def)

theorem wb_waitFor_functional_witness:
  "wb_waitFor (False, False) [Notified (True, False)] = Some True \<and>
   wb_waitFor (False, False) [Expired (False, False)] \<noteq> None"
proof -
  have "wb_waitFor (False, False) [Expired (False, False)] \<noteq> None"
    using wb_waitFor_functional [of "[Expired (False, False)]" "(False, False)" True] by auto
  moreover have "wb_waitFor (False, False) [Notified (True, False)] = Some True"
    by (simp add: wb_waitFor_def cv_wait_for.simps)
  ultimately show ?thesis by simp
qed

text \<open>
  Further property (equivalence): with hooks that leave the worker alone, \<open>stopWithHooks\<close> stops it as
  \<open>stop\<close> does; a join afterwards ends as \<open>stopAndWait\<close> ends.
\<close>

theorem wb_stopWithHooks_stops:
  assumes "\<And>s. snd (beforeStop s) = snd s" and "\<And>s. snd (afterStop s) = snd s"
  shows "wb_join (wb_settle src (snd (wb_stopWithHooks beforeStop afterStop (c, w)))) = wb_stopAndWait src w"
  using assms(1) [of "(c, w)"] assms(2) by (auto simp: wb_stopWithHooks_def wb_stopAndWait_def split: prod.split)

theorem wb_stopWithHooks_stops_witness:
  "wb_join (wb_settle (\<lambda>_. \<lparr>ss_requested = False, ss_exists = False\<rparr>)
     (snd (wb_stopWithHooks (map_prod Suc id) (map_prod Suc id) (0 :: nat, wb_new)))) = Some wb_new"
proof -
  have "wb_stopAndWait (\<lambda>_. \<lparr>ss_requested = False, ss_exists = False\<rparr>) wb_new = Some wb_new" by code_simp
  then show ?thesis
    by (subst wb_stopWithHooks_stops) simp_all
qed

end
