(* ===== verification/ThreadManager.thy ===== *)
theory ThreadManager
  imports Chain WorkerBase
begin

text \<open>
  The class \<open>ThreadManager\<close> of \<open>src/include/threadManager.hpp\<close>: the tasks it manages and their
  stop source. The wiring of \<open>initTestChain\<close> is in \<open>Chain\<close>; here is what the manager does with the
  threads themselves.

  \<^item> A task is a name of type \<open>'i\<close> and its worker an entry of \<open>tm_workers\<close>; \<open>tm_tasks\<close> is the vector
    \<open>m_tasks\<close>. The stop source in use is \<open>tm_current\<close>; assigning a new one destroys the old.
  \<^item> An operation that joins a thread lets it run as far as it gets (\<open>wb_settle\<close>) and is \<open>None\<close> if the
    join blocks forever.
  \<^item> The virtual \<open>isReadyToStart\<close> of the tasks and the success of creating a thread are the arguments
    \<open>ready\<close> and \<open>spawn_ok\<close>.
\<close>

record 'i ThreadManager =
  tm_sources :: stop_sources
  tm_current :: nat
  tm_workers :: "'i \<Rightarrow> workerBase"
  tm_tasks :: "'i list"

definition tm_new :: "'i ThreadManager" where
  "tm_new = \<lparr>tm_sources = (\<lambda>e. \<lparr>ss_requested = False, ss_exists = (e = 0)\<rparr>), tm_current = 0,
     tm_workers = (\<lambda>_. wb_new), tm_tasks = []\<rparr>"

definition tm_start :: "('i \<Rightarrow> bool) \<Rightarrow> ('i \<Rightarrow> bool) \<Rightarrow> 'i \<Rightarrow> 'i ThreadManager \<Rightarrow> bool \<times> 'i ThreadManager" where
  "tm_start ready spawn_ok i tm =
     (case wb_start (ready i) (spawn_ok i) (Some (tm_current tm)) (tm_workers tm i) of
        (ok, w) \<Rightarrow> (ok, tm\<lparr>tm_workers := (tm_workers tm)(i := w)\<rparr>))"

definition tm_addTask ::
  "('i \<Rightarrow> bool) \<Rightarrow> ('i \<Rightarrow> bool) \<Rightarrow> 'i option \<Rightarrow> 'i ThreadManager \<Rightarrow> 'i ThreadManager"
where
  "tm_addTask ready spawn_ok task tm = (case task of
     None \<Rightarrow> tm
   | Some i \<Rightarrow>
       (case tm_start ready spawn_ok i tm of
          (ok, tm') \<Rightarrow> if ok then tm'\<lparr>tm_tasks := tm_tasks tm' @ [i]\<rparr> else tm'))"

text \<open>
  The overload of \<open>addTask\<close> for a run function makes a \<open>Task\<close>, which is ready if the function is not
  empty, and returns it whether or not it was started.
\<close>

definition tm_addTask_run ::
  "('i \<Rightarrow> bool) \<Rightarrow> 'i \<Rightarrow> (('i, 'p) send_world \<Rightarrow> ('i, 'p) send_world) option \<Rightarrow> 'i ThreadManager \<Rightarrow>
     ('i, 'p) Task \<times> 'i ThreadManager"
where
  "tm_addTask_run spawn_ok this runFunc tm =
     (let task = task_new this runFunc None
      in (task, tm_addTask (\<lambda>_. task_isReadyToStart task) spawn_ok (Some this) tm))"

definition tm_initTestChain :: "(tid \<Rightarrow> bool) \<Rightarrow> tid ThreadManager \<Rightarrow> tid ThreadManager" where
  "tm_initTestChain spawn_ok tm =
     fold (\<lambda>i. tm_addTask isReadyToStart spawn_ok (Some i)) [OI, AO, PT, TT, RT] tm"

fun tm_restart_tasks ::
  "('i \<Rightarrow> bool) \<Rightarrow> ('i \<Rightarrow> bool) \<Rightarrow> 'i list \<Rightarrow> 'i ThreadManager \<Rightarrow> 'i ThreadManager"
where
  "tm_restart_tasks ready spawn_ok [] tm = tm"
| "tm_restart_tasks ready spawn_ok (i # is) tm =
     tm_restart_tasks ready spawn_ok is
       (if \<not> wb_isRunning (tm_workers tm i) then snd (tm_start ready spawn_ok i tm) else tm)"

text \<open>Assigning a new source to \<open>m_stopSource\<close> destroys the old one.\<close>

definition tm_new_source :: "'i ThreadManager \<Rightarrow> 'i ThreadManager" where
  "tm_new_source tm =
     (let old = tm_current tm; src = tm_sources tm
      in tm\<lparr>tm_sources := src(old := (src old)\<lparr>ss_exists := False\<rparr>,
                              Suc old := \<lparr>ss_requested = False, ss_exists = True\<rparr>),
            tm_current := Suc old\<rparr>)"

definition tm_restartAllThreads ::
  "('i \<Rightarrow> bool) \<Rightarrow> ('i \<Rightarrow> bool) \<Rightarrow> 'i ThreadManager \<Rightarrow> 'i ThreadManager"
where
  "tm_restartAllThreads ready spawn_ok tm =
     (let tm = tm_new_source tm in tm_restart_tasks ready spawn_ok (tm_tasks tm) tm)"

fun tm_join_tasks :: "'i list \<Rightarrow> 'i ThreadManager \<Rightarrow> 'i ThreadManager option" where
  "tm_join_tasks [] tm = Some tm"
| "tm_join_tasks (i # is) tm =
     (case wb_join (wb_settle (tm_sources tm) (tm_workers tm i)) of
        None \<Rightarrow> None
      | Some w \<Rightarrow> tm_join_tasks is (tm\<lparr>tm_workers := (tm_workers tm)(i := w)\<rparr>))"

definition tm_stopAllThreads :: "'i ThreadManager \<Rightarrow> 'i ThreadManager option" where
  "tm_stopAllThreads tm =
     (let tm = tm\<lparr>tm_sources := request_stop (tm_current tm) (tm_sources tm)\<rparr>
      in tm_join_tasks (tm_tasks tm) tm)"

definition tm_terminateAllThreads :: "'i ThreadManager \<Rightarrow> 'i ThreadManager option" where
  "tm_terminateAllThreads tm =
     (case tm_stopAllThreads tm of None \<Rightarrow> None | Some tm' \<Rightarrow> Some (tm'\<lparr>tm_tasks := []\<rparr>))"

definition tm_stopLastThread :: "'i ThreadManager \<Rightarrow> 'i ThreadManager option" where
  "tm_stopLastThread tm =
     (if tm_tasks tm = [] then Some tm
      else let i = last (tm_tasks tm)
           in case wb_stopAndWait (tm_sources tm) (tm_workers tm i) of
                None \<Rightarrow> None
              | Some w \<Rightarrow> Some (tm\<lparr>tm_workers := (tm_workers tm)(i := w), tm_tasks := butlast (tm_tasks tm)\<rparr>))"

definition tm_destructor :: "'i ThreadManager \<Rightarrow> 'i ThreadManager option" where
  "tm_destructor tm = tm_terminateAllThreads tm"

lemma tm_destructor_same [simp]: "tm_destructor tm = tm_terminateAllThreads tm"
  by (simp add: tm_destructor_def)

definition tm_stopSource :: "'i ThreadManager \<Rightarrow> nat" where
  "tm_stopSource tm = tm_current tm"

text \<open>
  The manager is a worker too. Its \<open>run\<close> only sleeps: here the number of its sleeps for the answers
  of \<open>stop_requested\<close>, \<open>None\<close> while none of them is true.
\<close>

fun tm_run :: "bool list \<Rightarrow> nat option" where
  "tm_run [] = None"
| "tm_run (stop # stops) = (if stop then Some 0 else map_option Suc (tm_run stops))"

definition tm_getThreadCount :: "'i ThreadManager \<Rightarrow> nat" where
  "tm_getThreadCount tm = length (tm_tasks tm)"

text \<open>The commands to the observer; \<open>None\<close> is a manager whose chain was not initialised.\<close>

definition tm_sendObserverCommand ::
  "ObserverCommand \<Rightarrow> Observer option \<Rightarrow> rb_fault + (bool \<times> Observer option)"
where
  "tm_sendObserverCommand cmd observer = (case observer of
     None \<Rightarrow> Inr (False, None)
   | Some oi \<Rightarrow>
       (case oi_sendCommand cmd oi of
          Inl fault \<Rightarrow> Inl fault
        | Inr (ok, oi') \<Rightarrow> Inr (ok, Some oi')))"

definition tm_sendStressModeCommand :: "Observer option \<Rightarrow> rb_fault + (bool \<times> Observer option)" where
  "tm_sendStressModeCommand = tm_sendObserverCommand \<lparr>command_type = StressMode, durationSec = 0\<rparr>"

definition tm_sendNormalModeCommand :: "Observer option \<Rightarrow> rb_fault + (bool \<times> Observer option)" where
  "tm_sendNormalModeCommand = tm_sendObserverCommand \<lparr>command_type = SetNormalMode, durationSec = 0\<rparr>"

subsection \<open>Operations and threads together\<close>

text \<open>
  What happens to a manager: the operations of the main thread, and the progress of the thread of
  one task, whose function begins or, once it has left \<open>run\<close>, ends.
\<close>

datatype 'i tm_op = AddTask "'i option" | RestartAll | StopAll | TerminateAll | StopLast | Progress 'i

fun tm_step :: "('i \<Rightarrow> bool) \<Rightarrow> ('i \<Rightarrow> bool) \<Rightarrow> 'i tm_op \<Rightarrow> 'i ThreadManager \<Rightarrow> 'i ThreadManager option" where
  "tm_step ready spawn_ok (AddTask task) tm = Some (tm_addTask ready spawn_ok task tm)"
| "tm_step ready spawn_ok RestartAll tm = Some (tm_restartAllThreads ready spawn_ok tm)"
| "tm_step ready spawn_ok StopAll tm = tm_stopAllThreads tm"
| "tm_step ready spawn_ok TerminateAll tm = tm_terminateAllThreads tm"
| "tm_step ready spawn_ok StopLast tm = tm_stopLastThread tm"
| "tm_step ready spawn_ok (Progress i) tm =
     Some (tm\<lparr>tm_workers := (tm_workers tm)(i := wb_settle (tm_sources tm) (tm_workers tm i))\<rparr>)"

fun tm_exec :: "('i \<Rightarrow> bool) \<Rightarrow> ('i \<Rightarrow> bool) \<Rightarrow> 'i tm_op list \<Rightarrow> 'i ThreadManager \<Rightarrow> 'i ThreadManager option" where
  "tm_exec ready spawn_ok [] tm = Some tm"
| "tm_exec ready spawn_ok (op # ops) tm =
     (case tm_step ready spawn_ok op tm of None \<Rightarrow> None | Some tm' \<Rightarrow> tm_exec ready spawn_ok ops tm')"

text \<open>The current stop source reaches every worker on its way, and these are all managed.\<close>

definition reached_by :: "nat \<Rightarrow> phase \<Rightarrow> bool" where
  "reached_by e ph \<longleftrightarrow> ph \<in> {NoThread, Finished, Leaving, Spawned (Some e), InRun (CombinedToken e)}"

definition tm_bound :: "'i ThreadManager \<Rightarrow> bool" where
  "tm_bound tm \<longleftrightarrow> ss_exists (tm_sources tm (tm_current tm)) \<and>
     (\<forall>i. wb_inv (tm_workers tm i) \<and> reached_by (tm_current tm) (wb_phase (tm_workers tm i)) \<and>
        (body_active (wb_phase (tm_workers tm i)) \<longrightarrow> i \<in> set (tm_tasks tm)))"

definition tm_idle :: "'i ThreadManager \<Rightarrow> bool" where
  "tm_idle tm \<longleftrightarrow> (\<forall>i \<in> set (tm_tasks tm). \<not> wb_isRunning (tm_workers tm i))"

fun restarts_when_idle ::
  "('i \<Rightarrow> bool) \<Rightarrow> ('i \<Rightarrow> bool) \<Rightarrow> 'i tm_op list \<Rightarrow> 'i ThreadManager \<Rightarrow> bool"
where
  "restarts_when_idle ready spawn_ok [] tm = True"
| "restarts_when_idle ready spawn_ok (op # ops) tm =
     ((op = RestartAll \<longrightarrow> tm_idle tm) \<and>
      (case tm_step ready spawn_ok op tm of None \<Rightarrow> True | Some tm' \<Rightarrow> restarts_when_idle ready spawn_ok ops tm'))"

lemma running_active: "wb_inv w \<Longrightarrow> wb_isRunning w \<longleftrightarrow> body_active (wb_phase w)"
  by (simp add: wb_inv_def wb_isRunning_def)

lemma settle_inactive: "\<not> body_active (wb_phase w) \<Longrightarrow> wb_settle src w = w"
  by (cases "wb_phase w") (simp_all add: wb_settle_def wb_body_begin_def wb_body_mark_stopped_def)

lemma settle_reached:
  assumes "reached_by e (wb_phase w)" and "ss_exists (src e)"
  shows "reached_by e (wb_phase (wb_settle src w))"
  using assms
  by (cases "wb_phase w") (auto simp: reached_by_def wb_settle_def Let_def wb_defs stop_possible_def)

lemma settle_not_more_active: "body_active (wb_phase (wb_settle src w)) \<Longrightarrow> body_active (wb_phase w)"
  using settle_inactive by metis

text \<open>Once its source has been asked to stop, a reached worker can be joined.\<close>

lemma join_reached:
  assumes inv: "wb_inv w" and reached: "reached_by e (wb_phase w)" and req: "ss_requested (src e)"
  shows "\<exists>w'. wb_join (wb_settle src w) = Some w' \<and> wb_inv w' \<and> \<not> body_active (wb_phase w') \<and>
    \<not> wb_isRunning w' \<and> \<not> wb_joinable w'"
proof -
  have inv': "wb_inv (wb_settle src w)" using inv by (rule wb_inv_settle)
  have "\<not> body_active (wb_phase (wb_settle src w))"
  proof (cases "wb_phase w = Spawned (Some e) \<or> wb_phase w = InRun (CombinedToken e)")
    case True
    with settle_finishes [OF inv, of src] req show ?thesis by blast
  next
    case False
    with reached show ?thesis
      by (cases "wb_phase w")
        (auto simp: reached_by_def wb_settle_def Let_def wb_body_begin_def wb_body_mark_stopped_def)
  qed
  from join_inactive [OF inv' this] obtain w' where "wb_join (wb_settle src w) = Some w'" "wb_inv w'"
    "\<not> wb_joinable w'" "\<not> wb_isRunning w'" by blast
  with running_active show ?thesis by blast
qed

lemma tm_join_tasks_bound:
  assumes "ss_requested (tm_sources tm e)"
    and "\<forall>i. wb_inv (tm_workers tm i) \<and> reached_by e (wb_phase (tm_workers tm i))"
  shows "\<exists>ws. tm_join_tasks is tm = Some (tm\<lparr>tm_workers := ws\<rparr>) \<and>
    (\<forall>i. wb_inv (ws i) \<and> reached_by e (wb_phase (ws i))) \<and>
    (\<forall>i \<in> set is. \<not> body_active (wb_phase (ws i)) \<and> \<not> wb_joinable (ws i)) \<and>
    (\<forall>i. i \<notin> set is \<longrightarrow> ws i = tm_workers tm i)"
  using assms
proof (induction "is" arbitrary: tm)
  case Nil
  then show ?case by (intro exI [of _ "tm_workers tm"]) simp
next
  case (Cons i "is")
  from join_reached [of "tm_workers tm i" e "tm_sources tm"] Cons.prems obtain w where
    w: "wb_join (wb_settle (tm_sources tm) (tm_workers tm i)) = Some w" "wb_inv w"
      "\<not> body_active (wb_phase w)" "\<not> wb_joinable w" by blast
  let ?tm = "tm\<lparr>tm_workers := (tm_workers tm)(i := w)\<rparr>"
  have "reached_by e (wb_phase w)" using w(3) by (cases "wb_phase w") (simp_all add: reached_by_def)
  with Cons.prems w(2) have "\<forall>j. wb_inv (tm_workers ?tm j) \<and> reached_by e (wb_phase (tm_workers ?tm j))"
    by simp
  from Cons.IH [OF _ this] Cons.prems(1) obtain ws where
    ws: "tm_join_tasks is ?tm = Some (?tm\<lparr>tm_workers := ws\<rparr>)"
      "\<forall>i. wb_inv (ws i) \<and> reached_by e (wb_phase (ws i))"
      "\<forall>i \<in> set is. \<not> body_active (wb_phase (ws i)) \<and> \<not> wb_joinable (ws i)"
      "\<forall>j. j \<notin> set is \<longrightarrow> ws j = tm_workers ?tm j" by auto
  then have "\<not> body_active (wb_phase (ws i)) \<and> \<not> wb_joinable (ws i)"
    using w by (cases "i \<in> set is") auto
  with ws w(1) show ?case by (intro exI [of _ ws]) auto
qed

lemma tm_stopAll_bound:
  assumes "tm_bound tm"
  obtains tm' where "tm_stopAllThreads tm = Some tm'" "tm_bound tm'" "tm_tasks tm' = tm_tasks tm"
    "tm_current tm' = tm_current tm" "\<forall>i. \<not> body_active (wb_phase (tm_workers tm' i))" "tm_idle tm'"
    "\<forall>i \<in> set (tm_tasks tm). \<not> wb_joinable (tm_workers tm' i)"
proof -
  let ?tm = "tm\<lparr>tm_sources := request_stop (tm_current tm) (tm_sources tm)\<rparr>"
  have "ss_requested (tm_sources ?tm (tm_current tm))" by (simp add: request_stop_def)
  from tm_join_tasks_bound [OF this, of "tm_tasks tm"] assms obtain ws where
    ws: "tm_join_tasks (tm_tasks tm) ?tm = Some (?tm\<lparr>tm_workers := ws\<rparr>)"
      "\<forall>i. wb_inv (ws i) \<and> reached_by (tm_current tm) (wb_phase (ws i))"
      "\<forall>i \<in> set (tm_tasks tm). \<not> body_active (wb_phase (ws i)) \<and> \<not> wb_joinable (ws i)"
      "\<forall>i. i \<notin> set (tm_tasks tm) \<longrightarrow> ws i = tm_workers tm i"
    by (auto simp: tm_bound_def)
  let ?tm' = "?tm\<lparr>tm_workers := ws\<rparr>"
  have quiet: "\<not> body_active (wb_phase (ws i))" for i
    using ws(3,4) assms by (cases "i \<in> set (tm_tasks tm)") (auto simp: tm_bound_def)
  show ?thesis
  proof (rule that [of ?tm'])
    show "tm_stopAllThreads tm = Some ?tm'" using ws(1) by (simp add: tm_stopAllThreads_def)
    show "tm_bound ?tm'" using assms ws(2) quiet by (simp add: tm_bound_def request_stop_def)
    show "tm_idle ?tm'" using ws(2) quiet running_active by (auto simp: tm_idle_def)
  qed (use ws(3) quiet in simp_all)
qed

lemma start_bound:
  assumes "tm_start ready spawn_ok i tm = (ok, tm')" and "wb_inv (tm_workers tm i)"
  shows "(ok \<longleftrightarrow> ready i \<and> spawn_ok i \<and> \<not> body_active (wb_phase (tm_workers tm i))) \<and>
    tm_sources tm' = tm_sources tm \<and> tm_current tm' = tm_current tm \<and> tm_tasks tm' = tm_tasks tm \<and>
    (\<forall>j. j \<noteq> i \<longrightarrow> tm_workers tm' j = tm_workers tm j) \<and> wb_inv (tm_workers tm' i) \<and>
    (if ok then wb_phase (tm_workers tm' i) = Spawned (Some (tm_current tm))
     else tm_workers tm' i = tm_workers tm i)"
proof -
  obtain w where w: "wb_start (ready i) (spawn_ok i) (Some (tm_current tm)) (tm_workers tm i) = (ok, w)"
    and tm': "tm' = tm\<lparr>tm_workers := (tm_workers tm)(i := w)\<rparr>"
    using assms(1) by (auto simp: tm_start_def split: prod.splits)
  have "wb_inv w" using wb_inv_start [OF assms(2) w] .
  moreover have "wb_running (tm_workers tm i) \<longleftrightarrow> body_active (wb_phase (tm_workers tm i))"
    using assms(2) by (simp add: wb_inv_def)
  ultimately show ?thesis
    using w tm' by (auto simp: wb_start_def Let_def split: if_splits)
qed

lemma addTask_bound:
  assumes "tm_bound tm"
  shows "tm_bound (tm_addTask ready spawn_ok task tm)"
proof (cases task)
  case (Some i)
  obtain ok tm' where start: "tm_start ready spawn_ok i tm = (ok, tm')" by fastforce
  from assms have "wb_inv (tm_workers tm i)" by (simp add: tm_bound_def)
  from start_bound [OF start this]
  have same: "tm_sources tm' = tm_sources tm" "tm_current tm' = tm_current tm" "tm_tasks tm' = tm_tasks tm"
    and others: "\<And>j. j \<noteq> i \<Longrightarrow> tm_workers tm' j = tm_workers tm j" and inv: "wb_inv (tm_workers tm' i)"
    and here: "if ok then wb_phase (tm_workers tm' i) = Spawned (Some (tm_current tm))
      else tm_workers tm' i = tm_workers tm i" by blast+
  have "wb_inv (tm_workers tm' j) \<and> reached_by (tm_current tm) (wb_phase (tm_workers tm' j)) \<and>
      (body_active (wb_phase (tm_workers tm' j)) \<longrightarrow> j \<in> set (tm_tasks tm) \<or> ok \<and> j = i)" for j
    using assms others [of j] inv here
    by (cases "j = i") (auto simp: tm_bound_def reached_by_def split: if_splits)
  with assms same start Some show ?thesis
    by (auto simp: tm_bound_def tm_addTask_def)
qed (use assms in \<open>simp add: tm_addTask_def\<close>)

text \<open>What the restart loop does to the worker of one task, however often the task is listed.\<close>

definition restarted :: "bool \<Rightarrow> bool \<Rightarrow> nat \<Rightarrow> workerBase \<Rightarrow> workerBase" where
  "restarted rdy spawn e w = (if \<not> wb_isRunning w then snd (wb_start rdy spawn (Some e) w) else w)"

lemma restarted_idem [simp]: "restarted r s e (restarted r s e w) = restarted r s e w"
  by (cases w) (simp add: restarted_def wb_start_def wb_isRunning_def Let_def)

lemma restarted_inv: "wb_inv w \<Longrightarrow> wb_inv (restarted r s e w)"
  using wb_inv_start [of w r s "Some e" "fst (wb_start r s (Some e) w)" "snd (wb_start r s (Some e) w)"]
  by (simp add: restarted_def)

lemma restarted_phase:
  "wb_inv w \<Longrightarrow> wb_phase (restarted r s e w) =
     (if \<not> body_active (wb_phase w) \<and> r \<and> s then Spawned (Some e) else wb_phase w)"
  by (cases w) (auto simp: restarted_def wb_start_def wb_isRunning_def wb_inv_def Let_def)

lemma restart_tasks_effect:
  "tm_restart_tasks ready spawn_ok is tm = tm\<lparr>tm_workers := (\<lambda>j. if j \<in> set is
     then restarted (ready j) (spawn_ok j) (tm_current tm) (tm_workers tm j) else tm_workers tm j)\<rparr>"
proof (induction "is" arbitrary: tm)
  case (Cons i "is")
  have "(if \<not> wb_isRunning (tm_workers tm i) then snd (tm_start ready spawn_ok i tm) else tm) =
      tm\<lparr>tm_workers := (tm_workers tm)(i := restarted (ready i) (spawn_ok i) (tm_current tm) (tm_workers tm i))\<rparr>"
    by (auto simp: restarted_def tm_start_def split: prod.split)
  then show ?case by (auto simp: Cons.IH intro!: arg_cong [where f = "\<lambda>ws. tm\<lparr>tm_workers := ws\<rparr>"])
qed simp

lemma restartAll_effect:
  "\<exists>src. tm_restartAllThreads ready spawn_ok tm = tm\<lparr>tm_sources := src, tm_current := Suc (tm_current tm),
     tm_workers := (\<lambda>j. if j \<in> set (tm_tasks tm)
       then restarted (ready j) (spawn_ok j) (Suc (tm_current tm)) (tm_workers tm j) else tm_workers tm j)\<rparr> \<and>
   src (Suc (tm_current tm)) = \<lparr>ss_requested = False, ss_exists = True\<rparr> \<and>
   (\<forall>e. e \<noteq> Suc (tm_current tm) \<longrightarrow> ss_requested (src e) = ss_requested (tm_sources tm e))"
  unfolding tm_restartAllThreads_def tm_new_source_def Let_def restart_tasks_effect
  by (rule exI [of _ "(tm_sources tm)(tm_current tm := (tm_sources tm (tm_current tm))\<lparr>ss_exists := False\<rparr>,
      Suc (tm_current tm) := \<lparr>ss_requested = False, ss_exists = True\<rparr>)"]) (simp cong: if_cong)

lemma restartAll_bound:
  assumes bound: "tm_bound tm" and idle: "tm_idle tm"
  shows "tm_bound (tm_restartAllThreads ready spawn_ok tm)"
proof -
  obtain src where tm': "tm_restartAllThreads ready spawn_ok tm = tm\<lparr>tm_sources := src,
      tm_current := Suc (tm_current tm),
      tm_workers := (\<lambda>j. if j \<in> set (tm_tasks tm)
       then restarted (ready j) (spawn_ok j) (Suc (tm_current tm)) (tm_workers tm j) else tm_workers tm j)\<rparr>"
    and src: "src (Suc (tm_current tm)) = \<lparr>ss_requested = False, ss_exists = True\<rparr>"
    using restartAll_effect by blast
  have quiet: "\<not> body_active (wb_phase (tm_workers tm j))" for j
    using bound idle running_active by (auto simp: tm_bound_def tm_idle_def)
  have "reached_by (Suc (tm_current tm)) ph" if "\<not> body_active ph" for ph
    using that by (cases ph) (simp_all add: reached_by_def)
  with quiet have reached: "reached_by (Suc (tm_current tm)) (wb_phase (tm_workers tm j))" for j by blast
  show ?thesis
    unfolding tm' tm_bound_def
    using bound quiet reached src
    by (auto simp: tm_bound_def restarted_inv restarted_phase) (simp_all add: reached_by_def)
qed

lemma stopLast_bound:
  assumes bound: "tm_bound tm"
  shows "\<exists>tm'. tm_stopLastThread tm = Some tm' \<and> tm_bound tm'"
proof (cases "tm_tasks tm = []")
  case False
  let ?i = "last (tm_tasks tm)" and ?src = "tm_sources tm"
  let ?w = "tm_workers tm ?i"
  from bound have inv: "wb_inv ?w" and reached: "reached_by (tm_current tm) (wb_phase ?w)"
    by (simp_all add: tm_bound_def)
  from stopAndWait_returns [OF inv] obtain w where w: "wb_stopAndWait ?src ?w = Some w" "wb_inv w"
    "\<not> wb_isRunning w" by blast
  then have quiet: "\<not> body_active (wb_phase w)" using running_active by blast
  then have "reached_by (tm_current tm) (wb_phase w)" by (cases "wb_phase w") (simp_all add: reached_by_def)
  moreover have "j \<in> set (butlast (tm_tasks tm))" if "j \<in> set (tm_tasks tm)" "j \<noteq> ?i" for j
    using that False by (metis append_butlast_last_id in_set_butlast_appendI rotate1.simps(2) set_ConsD set_rotate1)
  ultimately show ?thesis
    using bound w quiet False by (auto simp: tm_stopLastThread_def tm_bound_def Let_def)
qed (use bound in \<open>simp add: tm_stopLastThread_def\<close>)

lemma progress_bound:
  assumes "tm_bound tm"
  shows "tm_bound (tm\<lparr>tm_workers := (tm_workers tm)(i := wb_settle (tm_sources tm) (tm_workers tm i))\<rparr>)"
  using assms settle_not_more_active [of "tm_sources tm" "tm_workers tm i"]
  by (auto simp: tm_bound_def wb_inv_settle settle_reached)

lemma tm_step_bound:
  assumes bound: "tm_bound tm" and idle: "op = RestartAll \<longrightarrow> tm_idle tm"
  shows "\<exists>tm'. tm_step ready spawn_ok op tm = Some tm' \<and> tm_bound tm'"
proof (cases op)
  case TerminateAll
  from bound obtain tm' where "tm_stopAllThreads tm = Some tm'" "tm_bound tm'"
    "\<forall>i. \<not> body_active (wb_phase (tm_workers tm' i))" by (rule tm_stopAll_bound)
  with TerminateAll show ?thesis by (simp add: tm_terminateAllThreads_def tm_bound_def)
next
  case StopAll
  from bound obtain tm' where "tm_stopAllThreads tm = Some tm'" "tm_bound tm'" by (rule tm_stopAll_bound)
  with StopAll show ?thesis by simp
qed (use assms addTask_bound restartAll_bound stopLast_bound progress_bound in auto)

lemma tm_exec_bound:
  "tm_bound tm \<Longrightarrow> restarts_when_idle ready spawn_ok ops tm \<Longrightarrow>
     \<exists>tm'. tm_exec ready spawn_ok ops tm = Some tm' \<and> tm_bound tm'"
proof (induction ops arbitrary: tm)
  case (Cons op ops)
  from Cons.prems(2) have "op = RestartAll \<longrightarrow> tm_idle tm" by simp
  from tm_step_bound [OF Cons.prems(1) this, of ready spawn_ok] obtain tm' where
    "tm_step ready spawn_ok op tm = Some tm'" "tm_bound tm'" by blast
  with Cons.IH [of tm'] Cons.prems(2) show ?case by simp
qed simp

lemma tm_bound_new: "tm_bound tm_new"
  by (simp add: tm_bound_def tm_new_def wb_inv_new) (simp add: reached_by_def wb_new_def)

text \<open>A join that cannot return blocks the whole loop.\<close>

lemma join_tasks_blocked:
  assumes "i \<in> set is" and "wb_phase (tm_workers tm i) = InRun tok"
    and "\<not> token_requested (tm_sources tm) tok (tm_workers tm i)" and "wb_inv (tm_workers tm i)"
  shows "tm_join_tasks is tm = None"
  using assms
proof (induction "is" arbitrary: tm)
  case (Cons j "is")
  have stuck: "wb_join (wb_settle (tm_sources tm) (tm_workers tm i)) = None"
    using Cons.prems settle_blocked [OF Cons.prems(2,3)] by (simp add: wb_join_def wb_inv_def)
  show ?case
  proof (cases "wb_join (wb_settle (tm_sources tm) (tm_workers tm j))")
    case (Some w)
    with stuck have "j \<noteq> i" by auto
    with Some Cons.IH [of "tm\<lparr>tm_workers := (tm_workers tm)(j := w)\<rparr>"] Cons.prems show ?thesis by simp
  qed simp
qed simp

lemma stop_blocked:
  assumes "i \<in> set (tm_tasks tm)" and "wb_inv (tm_workers tm i)"
    and "wb_phase (tm_workers tm i) = InRun (CombinedToken e)" and "e \<noteq> tm_current tm"
    and "\<not> token_requested (tm_sources tm) (CombinedToken e) (tm_workers tm i)"
  shows "tm_stopAllThreads tm = None \<and> tm_terminateAllThreads tm = None"
proof -
  have "tm_stopAllThreads tm = None"
    unfolding tm_stopAllThreads_def Let_def
    by (rule join_tasks_blocked [where i = i and tok = "CombinedToken e"])
      (use assms in \<open>simp_all add: request_stop_def token_requested_def\<close>)
  then show ?thesis by (simp add: tm_terminateAllThreads_def)
qed

text \<open>A running worker survives a restart with the token it had.\<close>

lemma restart_keeps_running:
  assumes "i \<in> set (tm_tasks tm)" and "wb_inv (tm_workers tm i)"
    and "wb_phase (tm_workers tm i) = InRun (CombinedToken (tm_current tm))"
    and "\<not> token_requested (tm_sources tm) (CombinedToken (tm_current tm)) (tm_workers tm i)"
    and "tm' = tm_restartAllThreads ready spawn_ok tm"
  shows "i \<in> set (tm_tasks tm') \<and> tm_workers tm' i = tm_workers tm i \<and> tm_current tm' \<noteq> tm_current tm \<and>
    \<not> token_requested (tm_sources tm') (CombinedToken (tm_current tm)) (tm_workers tm i)"
proof -
  obtain src where eff: "tm_restartAllThreads ready spawn_ok tm = tm\<lparr>tm_sources := src,
      tm_current := Suc (tm_current tm),
      tm_workers := (\<lambda>j. if j \<in> set (tm_tasks tm)
       then restarted (ready j) (spawn_ok j) (Suc (tm_current tm)) (tm_workers tm j) else tm_workers tm j)\<rparr>"
    and src: "\<forall>e. e \<noteq> Suc (tm_current tm) \<longrightarrow> ss_requested (src e) = ss_requested (tm_sources tm e)"
    using restartAll_effect by blast
  have "wb_isRunning (tm_workers tm i)" using running_active [OF assms(2)] assms(3) by simp
  then have "restarted r s e (tm_workers tm i) = tm_workers tm i" for r s e by (simp add: restarted_def)
  with eff src assms show ?thesis by (simp add: token_requested_def)
qed

subsection \<open>The receivers of the managed tasks\<close>

text \<open>
  \<open>stopLastThread\<close> drops the last reference to the last task of the chain, the result thread, and
  with it its queue.
\<close>

definition chain_stopLast :: "chain \<Rightarrow> chain" where
  "chain_stopLast s = s\<lparr>ch_world := destroy_receiver RT (ch_world s)\<rparr>"

subsection \<open>Properties\<close>

text \<open>
  Further property (liveness, safety): in every sequence of manager operations and progress of the
  threads in which \<open>restartAllThreads\<close> is called only while no managed thread runs, no operation
  blocks: every stop, terminate and stop of the last thread returns. After a stop no managed
  thread runs or is left to join, and all tasks are still managed.
\<close>

theorem tm_operations_return:
  assumes "restarts_when_idle ready spawn_ok ops tm_new"
  shows "\<exists>tm. tm_exec ready spawn_ok ops tm_new = Some tm \<and>
    (\<exists>tm'. tm_stopAllThreads tm = Some tm' \<and> tm_getThreadCount tm' = tm_getThreadCount tm \<and>
       (\<forall>i \<in> set (tm_tasks tm'). \<not> wb_isRunning (tm_workers tm' i) \<and> \<not> wb_joinable (tm_workers tm' i)))"
proof -
  from tm_exec_bound [OF tm_bound_new assms] obtain tm where
    tm: "tm_exec ready spawn_ok ops tm_new = Some tm" "tm_bound tm" by blast
  from tm(2) obtain tm' where "tm_stopAllThreads tm = Some tm'" "tm_tasks tm' = tm_tasks tm" "tm_idle tm'"
    "\<forall>i \<in> set (tm_tasks tm). \<not> wb_joinable (tm_workers tm' i)" by (rule tm_stopAll_bound)
  with tm(1) show ?thesis by (auto simp: tm_getThreadCount_def tm_idle_def)
qed

definition chain_ops :: "tid tm_op list" where
  "chain_ops = map (AddTask \<circ> Some) [OI, AO, PT, TT, RT] @ map Progress [OI, AO, PT, TT, RT]"

theorem tm_operations_return_witness:
  "\<exists>tm. tm_exec (\<lambda>_. True) (\<lambda>_. True) (chain_ops @ [StopAll, RestartAll]) tm_new = Some tm \<and>
     (\<exists>tm'. tm_stopAllThreads tm = Some tm' \<and> tm_getThreadCount tm' = tm_getThreadCount tm)"
proof -
  have "restarts_when_idle (\<lambda>_. True) (\<lambda>_. True) (chain_ops @ [StopAll, RestartAll]) (tm_new :: tid ThreadManager)"
    by code_simp
  from tm_operations_return [OF this] show ?thesis by blast
qed

text \<open>
  Further property (functional): after \<open>stopAllThreads\<close>, \<open>restartAllThreads\<close> starts every managed task
  again that is ready and whose thread can be created, with a stop token that no earlier request
  has touched, and it changes neither the tasks nor their order.
\<close>

theorem tm_stop_then_restart:
  assumes "restarts_when_idle ready spawn_ok ops tm_new"
    and "tm_exec ready spawn_ok ops tm_new = Some tm" and "tm_stopAllThreads tm = Some tm'"
  shows "tm_tasks (tm_restartAllThreads ready spawn_ok tm') = tm_tasks tm \<and>
    (\<forall>i \<in> set (tm_tasks tm).
       wb_isRunning (tm_workers (tm_restartAllThreads ready spawn_ok tm') i) \<longleftrightarrow> ready i \<and> spawn_ok i) \<and>
    \<not> ss_requested (tm_sources (tm_restartAllThreads ready spawn_ok tm')
        (tm_current (tm_restartAllThreads ready spawn_ok tm')))"
proof -
  from tm_exec_bound [OF tm_bound_new assms(1)] assms(2) have bound: "tm_bound tm" by simp
  from bound obtain tm'' where "tm_stopAllThreads tm = Some tm''" "tm_bound tm''"
    "tm_tasks tm'' = tm_tasks tm" "\<forall>i. \<not> body_active (wb_phase (tm_workers tm'' i))"
    by (rule tm_stopAll_bound)
  with assms(3) have tm': "tm_bound tm'" "tm_tasks tm' = tm_tasks tm"
    "\<And>i. \<not> body_active (wb_phase (tm_workers tm' i))" by simp_all
  obtain src where eff: "tm_restartAllThreads ready spawn_ok tm' = tm'\<lparr>tm_sources := src,
      tm_current := Suc (tm_current tm'),
      tm_workers := (\<lambda>j. if j \<in> set (tm_tasks tm')
       then restarted (ready j) (spawn_ok j) (Suc (tm_current tm')) (tm_workers tm' j) else tm_workers tm' j)\<rparr>"
    and src: "src (Suc (tm_current tm')) = \<lparr>ss_requested = False, ss_exists = True\<rparr>"
    using restartAll_effect by blast
  have inv: "wb_inv (tm_workers tm' i)" for i using tm'(1) by (simp add: tm_bound_def)
  have "wb_isRunning (restarted (ready i) (spawn_ok i) e (tm_workers tm' i)) \<longleftrightarrow> ready i \<and> spawn_ok i" for i e
    using restarted_phase [OF inv] running_active [OF restarted_inv [OF inv]] tm'(3) by simp
  with eff src tm'(2) show ?thesis by simp
qed

theorem tm_stop_then_restart_witness:
  "\<exists>tm tm'. tm_exec (\<lambda>_. True) (\<lambda>_. True) chain_ops tm_new = Some tm \<and> tm_stopAllThreads tm = Some tm' \<and>
     tm_tasks (tm_restartAllThreads (\<lambda>_. True) (\<lambda>_. True) tm') = tm_tasks tm"
proof -
  have ops: "restarts_when_idle (\<lambda>_. True) (\<lambda>_. True) chain_ops (tm_new :: tid ThreadManager)"
    by code_simp
  from tm_exec_bound [OF tm_bound_new this] obtain tm where
    tm: "tm_exec (\<lambda>_. True) (\<lambda>_. True) chain_ops tm_new = Some tm" "tm_bound tm" by blast
  from tm(2) obtain tm' where stop: "tm_stopAllThreads tm = Some tm'" by (rule tm_stopAll_bound)
  from tm_stop_then_restart [OF ops tm(1) stop] tm(1) stop show ?thesis by blast
qed

text \<open>
  Further property (liveness): a restart while a managed thread runs makes it unstoppable. The running
  thread keeps the token of the old stop source, which nobody can reach any more, so afterwards
  \<open>stopAllThreads\<close> and \<open>terminateAllThreads\<close>, and with it the destructor of the manager, block
  forever in the join of that thread.
\<close>

theorem tm_restart_while_running_deadlocks:
  assumes "i \<in> set (tm_tasks tm)" and "wb_inv (tm_workers tm i)"
    and "wb_phase (tm_workers tm i) = InRun (CombinedToken (tm_current tm))"
    and "\<not> token_requested (tm_sources tm) (CombinedToken (tm_current tm)) (tm_workers tm i)"
  shows "tm_stopAllThreads (tm_restartAllThreads ready spawn_ok tm) = None \<and>
    tm_terminateAllThreads (tm_restartAllThreads ready spawn_ok tm) = None"
  using restart_keeps_running [OF assms refl, of ready spawn_ok] assms(2,3)
  by (intro stop_blocked [where i = i and e = "tm_current tm"]) simp_all

theorem tm_restart_while_running_deadlocks_witness:
  "\<exists>tm. tm_exec (\<lambda>_. True) (\<lambda>_. True) chain_ops tm_new = Some tm \<and>
     tm_stopAllThreads (tm_restartAllThreads (\<lambda>_. True) (\<lambda>_. True) tm) = None"
proof -
  have "(case tm_exec (\<lambda>_. True) (\<lambda>_. True) chain_ops (tm_new :: tid ThreadManager) of
      Some tm \<Rightarrow> OI \<in> set (tm_tasks tm) \<and> wb_phase (tm_workers tm OI) = InRun (CombinedToken (tm_current tm)) \<and>
        \<not> token_requested (tm_sources tm) (CombinedToken (tm_current tm)) (tm_workers tm OI)
    | None \<Rightarrow> False)" by code_simp
  then obtain tm where tm: "tm_exec (\<lambda>_. True) (\<lambda>_. True) chain_ops tm_new = Some tm"
    "OI \<in> set (tm_tasks tm)" "wb_phase (tm_workers tm OI) = InRun (CombinedToken (tm_current tm))"
    "\<not> token_requested (tm_sources tm) (CombinedToken (tm_current tm)) (tm_workers tm OI)"
    by (auto split: option.splits)
  have "restarts_when_idle (\<lambda>_. True) (\<lambda>_. True) chain_ops (tm_new :: tid ThreadManager)" by code_simp
  from tm_exec_bound [OF tm_bound_new this] tm(1) have "wb_inv (tm_workers tm OI)"
    by (simp add: tm_bound_def)
  from tm_restart_while_running_deadlocks [OF tm(2) this tm(3,4)] tm(1) show ?thesis by blast
qed

text \<open>
  Further property (safety): stopping the last thread of the chain leaves a dangling sender. In every
  reachable state of the chain in which the transformation thread has a result to send, its next
  send after \<open>stopLastThread\<close> goes to the destroyed queue of the result thread.
\<close>

theorem tm_stopLast_leaves_dangling_sender:
  assumes "oi_new alloc_ok = Inr oi" and "chain_exec as (initTestChain oi) = Inr s"
    and "ch_outbox s TT \<noteq> []"
  shows "chain_step (Flush TT) (chain_stopLast s) = Inl (SendFault (DanglingQueue RT))"
proof -
  from chain_reach_inv [OF assms(1,2)] have inv: "chain_inv s" .
  from assms(3) obtain sd m rest where ob: "ch_outbox s TT = (sd, m) # rest"
    by (cases "ch_outbox s TT") auto
  then have "(sd, m) \<in> set (ch_outbox s TT)" by simp
  with inv have "fst (sd, m) = sender_to (route (snd (sd, m))) \<and> origin (snd (sd, m)) = TT"
    unfolding chain_inv_def inv_routed_def by blast
  moreover from this have "route m = RT" by (cases m) simp_all
  ultimately show ?thesis
    using ob by (simp add: chain_stopLast_def destroy_receiver_def send_defs)
qed

theorem tm_stopLast_leaves_dangling_sender_witness:
  "\<exists>s. chain_exec (take 10 demo_run) demo_chain = Inr s \<and>
     chain_step (Flush TT) (chain_stopLast s) = Inl (SendFault (DanglingQueue RT))"
proof -
  obtain oi where new: "oi_new (\<lambda>_. True) = Inr oi" using oi_new_exists by blast
  then have demo: "demo_chain = initTestChain oi" by (simp add: demo_chain_def)
  have "(case chain_exec (take 10 demo_run) demo_chain of Inr s \<Rightarrow> ch_outbox s TT \<noteq> [] | _ \<Rightarrow> False)"
    by code_simp
  then obtain s where s: "chain_exec (take 10 demo_run) demo_chain = Inr s" "ch_outbox s TT \<noteq> []"
    by (auto split: sum.splits)
  from tm_stopLast_leaves_dangling_sender [OF new s(1) [unfolded demo] s(2)] s(1) show ?thesis by blast
qed

text \<open>
  Further property (error): a task made from a run function is returned even when it is not managed. With
  an empty function, or a thread that cannot be created, the caller gets a task that never runs and
  the manager is as before but for the worker of that task.
\<close>

theorem tm_addTask_run_may_not_start:
  assumes "\<not> wb_isRunning (tm_workers tm this)"
  shows "task_this (fst (tm_addTask_run spawn_ok this runFunc tm)) = this \<and>
    tm_tasks (snd (tm_addTask_run spawn_ok this runFunc tm)) =
      tm_tasks tm @ (if runFunc \<noteq> None \<and> spawn_ok this then [this] else []) \<and>
    (runFunc = None \<or> \<not> spawn_ok this \<longrightarrow>
       \<not> wb_isRunning (tm_workers (snd (tm_addTask_run spawn_ok this runFunc tm)) this))"
  using assms by (auto simp: tm_addTask_run_def tm_addTask_def tm_start_def wb_start_def wb_isRunning_def
      task_new_def task_isReadyToStart_def Let_def split: prod.split)

theorem tm_addTask_run_may_not_start_witness:
  "tm_getThreadCount (snd (tm_addTask_run (\<lambda>_. False) (7 :: nat) (Some (\<lambda>w :: (nat, nat) send_world. w)) tm_new)) = 0"
proof -
  have "\<not> wb_isRunning (tm_workers (tm_new :: nat ThreadManager) 7)"
    by (simp add: tm_new_def wb_new_def wb_isRunning_def)
  from tm_addTask_run_may_not_start [OF this, of "\<lambda>_. False" "Some (\<lambda>w :: (nat, nat) send_world. w)"] show ?thesis
    by (simp add: tm_getThreadCount_def tm_new_def)
qed

text \<open>
  Further property (termination): the manager's own \<open>run\<close> returns at the first test that sees a stop
  request, after one sleep for each test before it.
\<close>

theorem tm_run_returns:
  "tm_run stops = Some n \<longleftrightarrow> n < length stops \<and> stops ! n \<and> (\<forall>i < n. \<not> stops ! i)"
proof (induction stops arbitrary: n)
  case (Cons stop stops)
  show ?case
  proof (cases n)
    case 0
    then show ?thesis by auto
  next
    case (Suc m)
    with Cons.IH [of m] show ?thesis by (auto simp: All_less_Suc2)
  qed
qed simp

end
