(* ===== verification/System.thy ===== *)
theory System
  imports ThreadManager
begin

text \<open>
  The whole of \<open>ThreadManager\<close> of \<open>src/include/threadManager.hpp\<close> with the threads of
  \<open>src/include/testThreads.hpp\<close> inside it: the life cycle of \<open>WorkerBase\<close>, the messages of \<open>Chain\<close> and
  the operations of the main thread, interleaved at the grain of single tests, waits, sends, starts
  and joins.

  \<^item> A thread begins \<open>run\<close> with fresh local counters, tests its stop token at the top of its loop
    (\<open>AtTest\<close>, when everything it had to send is sent), and waits once for a command or a message
    (\<open>AtWait\<close>); between the two the stop may be requested.
  \<^item> The main thread adds the tasks one by one, and stops, terminates and restarts them one by one:
    \<open>sy_main\<close> says which are left. It calls an operation only when it is not inside another.
  \<^item> A task that is neither managed nor the observer has lost its last \<open>shared_ptr\<close>: its queue is gone.

  An action that is not possible in a state leaves it as it is, so every list is a schedule.
\<close>

datatype place = AtTest | AtWait

datatype main_place = MainIdle | Adding "tid list" | Joining bool "tid list" | Restarting "tid list"

record system =
  sy_chain :: chain
  sy_tm :: "tid ThreadManager"
  sy_place :: "tid \<Rightarrow> place"
  sy_main :: main_place

datatype sys_action =
    Begin tid | Test tid | Loop tid readings int | SendNext tid | Finish tid
  | AddNext bool | JoinNext | RestartNext bool
  | CallStop | CallTerminate | CallRestart | CallCommand ObserverCommand

definition sys_start :: "Observer \<Rightarrow> system" where
  "sys_start oi = \<lparr>sy_chain = initTestChain oi, sy_tm = tm_new, sy_place = \<lambda>_. AtTest,
     sy_main = Adding [OI, AO, PT, TT, RT]\<rparr>"

abbreviation worker :: "system \<Rightarrow> tid \<Rightarrow> workerBase" where
  "worker s u \<equiv> tm_workers (sy_tm s) u"

abbreviation set_worker :: "tid \<Rightarrow> workerBase \<Rightarrow> system \<Rightarrow> system" where
  "set_worker u w s \<equiv> s\<lparr>sy_tm := (sy_tm s)\<lparr>tm_workers := (tm_workers (sy_tm s))(u := w)\<rparr>\<rparr>"

abbreviation set_place :: "tid \<Rightarrow> place \<Rightarrow> system \<Rightarrow> system" where
  "set_place u p s \<equiv> s\<lparr>sy_place := (sy_place s)(u := p)\<rparr>"

subsection \<open>The threads\<close>

text \<open>The local variables of \<open>run\<close> when it is entered.\<close>

definition fresh_locals :: "tid \<Rightarrow> chain \<Rightarrow> chain" where
  "fresh_locals u ch = (case u of
     OI \<Rightarrow> ch\<lparr>ch_count := 0\<rparr>
   | AO \<Rightarrow> ch\<lparr>ch_mirrorCounter := 0\<rparr>
   | _ \<Rightarrow> ch)"

definition sys_begin :: "tid \<Rightarrow> system \<Rightarrow> system" where
  "sys_begin u s = (case wb_phase (worker s u) of
     Spawned _ \<Rightarrow> set_place u AtTest (set_worker u (wb_body_begin (tm_sources (sy_tm s)) (worker s u)) s)
       \<lparr>sy_chain := fresh_locals u (sy_chain s)\<rparr>
   | _ \<Rightarrow> s)"

definition sys_test :: "tid \<Rightarrow> system \<Rightarrow> system" where
  "sys_test u s = (case wb_phase (worker s u) of
     InRun tok \<Rightarrow>
       if sy_place s u = AtTest \<and> ch_outbox (sy_chain s) u = [] then
         if token_requested (tm_sources (sy_tm s)) tok (worker s u)
         then set_worker u (wb_body_return (worker s u)) s
         else set_place u AtWait s
       else s
   | _ \<Rightarrow> s)"

definition sys_loop :: "tid \<Rightarrow> readings \<Rightarrow> int \<Rightarrow> system \<Rightarrow> chain_fault + system" where
  "sys_loop u t now s = (case wb_phase (worker s u) of
     InRun _ \<Rightarrow>
       if sy_place s u = AtWait then
         (case chain_step (if u = OI then Tick t else Take u now) (sy_chain s) of
            Inl fault \<Rightarrow> Inl fault
          | Inr ch \<Rightarrow> Inr (set_place u AtTest s\<lparr>sy_chain := ch\<rparr>))
       else Inr s
   | _ \<Rightarrow> Inr s)"

definition sys_send :: "tid \<Rightarrow> system \<Rightarrow> chain_fault + system" where
  "sys_send u s = (case wb_phase (worker s u) of
     InRun _ \<Rightarrow> (case chain_step (Flush u) (sy_chain s) of
         Inl fault \<Rightarrow> Inl fault
       | Inr ch \<Rightarrow> Inr (s\<lparr>sy_chain := ch\<rparr>))
   | _ \<Rightarrow> Inr s)"

definition sys_finish :: "tid \<Rightarrow> system \<Rightarrow> system" where
  "sys_finish u s = set_worker u (wb_body_mark_stopped (worker s u)) s"

subsection \<open>The main thread\<close>

text \<open>The observer is kept alive by \<open>m_observerIncoming\<close>.\<close>

definition drop_unmanaged :: "system \<Rightarrow> system" where
  "drop_unmanaged s = s\<lparr>sy_chain := (sy_chain s)\<lparr>ch_world := (ch_world (sy_chain s))\<lparr>sw_queues :=
     (\<lambda>u. if u = OI \<or> u \<in> set (tm_tasks (sy_tm s)) then sw_queues (ch_world (sy_chain s)) u else None)\<rparr>\<rparr>\<rparr>"

lemma drop_unmanaged_same [simp]:
  "sy_tm (drop_unmanaged s) = sy_tm s" "sy_place (drop_unmanaged s) = sy_place s"
  "sy_main (drop_unmanaged s) = sy_main s"
  "ch_outbox (sy_chain (drop_unmanaged s)) = ch_outbox (sy_chain s)"
  "ch_events (sy_chain (drop_unmanaged s)) = ch_events (sy_chain s)"
  by (simp_all add: drop_unmanaged_def)

definition sys_add :: "bool \<Rightarrow> system \<Rightarrow> system" where
  "sys_add spawn_ok s = (case sy_main s of
     Adding (i # is) \<Rightarrow>
       s\<lparr>sy_tm := tm_addTask isReadyToStart (\<lambda>_. spawn_ok) (Some i) (sy_tm s), sy_main := Adding is\<rparr>
   | Adding [] \<Rightarrow> drop_unmanaged s\<lparr>sy_main := MainIdle\<rparr>
   | _ \<Rightarrow> s)"

definition sys_join :: "system \<Rightarrow> system" where
  "sys_join s = (case sy_main s of
     Joining clear (i # is) \<Rightarrow>
       (case wb_join (worker s i) of
          None \<Rightarrow> s
        | Some w \<Rightarrow> set_worker i w s\<lparr>sy_main := Joining clear is\<rparr>)
   | Joining clear [] \<Rightarrow>
       (if clear then drop_unmanaged (s\<lparr>sy_tm := (sy_tm s)\<lparr>tm_tasks := []\<rparr>\<rparr>)\<lparr>sy_main := MainIdle\<rparr>
        else s\<lparr>sy_main := MainIdle\<rparr>)
   | _ \<Rightarrow> s)"

definition sys_restart :: "bool \<Rightarrow> system \<Rightarrow> system" where
  "sys_restart spawn_ok s = (case sy_main s of
     Restarting (i # is) \<Rightarrow>
       s\<lparr>sy_tm := tm_restart_tasks isReadyToStart (\<lambda>_. spawn_ok) [i] (sy_tm s), sy_main := Restarting is\<rparr>
   | Restarting [] \<Rightarrow> s\<lparr>sy_main := MainIdle\<rparr>
   | _ \<Rightarrow> s)"

definition sys_call_stop :: "bool \<Rightarrow> system \<Rightarrow> system" where
  "sys_call_stop clear s =
     (if sy_main s \<noteq> MainIdle then s
      else s\<lparr>sy_tm := (sy_tm s)\<lparr>tm_sources := request_stop (tm_current (sy_tm s)) (tm_sources (sy_tm s))\<rparr>,
             sy_main := Joining clear (tm_tasks (sy_tm s))\<rparr>)"

definition sys_call_restart :: "system \<Rightarrow> system" where
  "sys_call_restart s =
     (if sy_main s \<noteq> MainIdle then s
      else s\<lparr>sy_tm := tm_new_source (sy_tm s), sy_main := Restarting (tm_tasks (sy_tm s))\<rparr>)"

definition sys_call_command :: "ObserverCommand \<Rightarrow> system \<Rightarrow> chain_fault + system" where
  "sys_call_command cmd s =
     (if sy_main s \<noteq> MainIdle then Inr s
      else (case chain_step (Command cmd) (sy_chain s) of
              Inl fault \<Rightarrow> Inl fault
            | Inr ch \<Rightarrow> Inr (s\<lparr>sy_chain := ch\<rparr>)))"

fun sys_step :: "sys_action \<Rightarrow> system \<Rightarrow> chain_fault + system" where
  "sys_step (Begin u) s = Inr (sys_begin u s)"
| "sys_step (Test u) s = Inr (sys_test u s)"
| "sys_step (Loop u t now) s = sys_loop u t now s"
| "sys_step (SendNext u) s = sys_send u s"
| "sys_step (Finish u) s = Inr (sys_finish u s)"
| "sys_step (AddNext spawn_ok) s = Inr (sys_add spawn_ok s)"
| "sys_step JoinNext s = Inr (sys_join s)"
| "sys_step (RestartNext spawn_ok) s = Inr (sys_restart spawn_ok s)"
| "sys_step CallStop s = Inr (sys_call_stop False s)"
| "sys_step CallTerminate s = Inr (sys_call_stop True s)"
| "sys_step CallRestart s = Inr (sys_call_restart s)"
| "sys_step (CallCommand cmd) s = sys_call_command cmd s"

fun sys_exec :: "sys_action list \<Rightarrow> system \<Rightarrow> chain_fault + system" where
  "sys_exec [] s = Inr s"
| "sys_exec (a # as) s = (case sys_step a s of Inl fault \<Rightarrow> Inl fault | Inr s' \<Rightarrow> sys_exec as s')"

lemma sys_exec_append:
  "sys_exec (as @ bs) s = (case sys_exec as s of Inl fault \<Rightarrow> Inl fault | Inr s' \<Rightarrow> sys_exec bs s')"
  by (induction as arbitrary: s) (auto split: sum.splits)

subsection \<open>Invariant\<close>

definition inv_workers :: "system \<Rightarrow> bool" where
  "inv_workers s \<longleftrightarrow> (\<forall>u. wb_inv (worker s u) \<and>
     (body_active (wb_phase (worker s u)) \<longrightarrow> u \<in> set (tm_tasks (sy_tm s))))"

definition inv_outbox :: "system \<Rightarrow> bool" where
  "inv_outbox s \<longleftrightarrow> (\<forall>u. ch_outbox (sy_chain s) u \<noteq> [] \<longrightarrow>
     (\<exists>tok. wb_phase (worker s u) = InRun tok) \<and> sy_place s u = AtTest)"

definition inv_main :: "system \<Rightarrow> bool" where
  "inv_main s \<longleftrightarrow> (case sy_main s of
     MainIdle \<Rightarrow> True
   | Adding is \<Rightarrow> tm_tasks (sy_tm s) @ is = [OI, AO, PT, TT, RT]
   | Joining clear is \<Rightarrow> set is \<subseteq> set (tm_tasks (sy_tm s)) \<and>
       (\<forall>u. body_active (wb_phase (worker s u)) \<longrightarrow> u \<in> set is)
   | Restarting is \<Rightarrow> set is \<subseteq> set (tm_tasks (sy_tm s)))"

text \<open>The chain is whole, or all tasks were terminated and their queues are gone.\<close>

definition chain_reported :: "chain \<Rightarrow> bool" where
  "chain_reported ch \<longleftrightarrow> oi_cmds_ok (ch_oi ch) \<and> inv_log ch \<and>
     ch_received ch = take (length (ch_received ch)) (map result_of (ch_events ch))"

definition torn_down :: "system \<Rightarrow> bool" where
  "torn_down s \<longleftrightarrow> tm_tasks (sy_tm s) = [] \<and> (\<forall>is. sy_main s \<noteq> Adding is) \<and> chain_reported (sy_chain s)"

definition sys_inv :: "system \<Rightarrow> bool" where
  "sys_inv s \<longleftrightarrow> inv_workers s \<and> inv_outbox s \<and> inv_main s \<and> (chain_inv (sy_chain s) \<or> torn_down s)"

lemmas sys_inv_defs = sys_inv_def inv_workers_def inv_outbox_def inv_main_def

lemma chain_inv_reported: "chain_inv ch \<Longrightarrow> chain_reported ch"
  using received_prefix [of ch] by (simp add: chain_reported_def chain_inv_def inv_wired_def)

lemma fresh_locals_inv: "chain_inv ch \<Longrightarrow> chain_inv (fresh_locals u ch)"
  by (cases u) (simp_all add: fresh_locals_def chain_inv_def chain_inv_defs)

lemma fresh_locals_same [simp]:
  "ch_outbox (fresh_locals u ch) = ch_outbox ch" "ch_events (fresh_locals u ch) = ch_events ch"
  "ch_received (fresh_locals u ch) = ch_received ch" "ch_world (fresh_locals u ch) = ch_world ch"
  "ch_oi (fresh_locals u ch) = ch_oi ch"
  by (cases u; simp add: fresh_locals_def)+

text \<open>Only the threads of managed tasks act, so in a system torn down none does.\<close>

lemma active_whole:
  assumes "sys_inv s" and "body_active (wb_phase (worker s u))"
  shows "chain_inv (sy_chain s)"
  using assms by (auto simp: sys_inv_defs torn_down_def)

lemma idle_outbox:
  assumes "sys_inv s" and "\<not> body_active (wb_phase (worker s u))"
  shows "ch_outbox (sy_chain s) u = []"
proof (rule ccontr)
  assume "ch_outbox (sy_chain s) u \<noteq> []"
  with assms(1) obtain tok where "wb_phase (worker s u) = InRun tok" by (auto simp: sys_inv_def inv_outbox_def)
  with assms(2) show False by simp
qed

lemma sys_start_inv:
  assumes "oi_new alloc_ok = Inr oi"
  shows "sys_inv (sys_start oi)"
  using chain_init_inv [OF assms]
  by (simp add: sys_inv_defs sys_start_def tm_new_def wb_inv_new)
    (simp add: wb_new_def initTestChain_def)

text \<open>What keeps the invariant: a worker that becomes less active, a move of a thread, an action.\<close>

lemma set_worker_inv:
  assumes "sys_inv s" and "wb_inv w" and "body_active (wb_phase w) \<Longrightarrow> body_active (wb_phase (worker s u))"
    and "ch_outbox (sy_chain s) u \<noteq> [] \<Longrightarrow> \<exists>tok. wb_phase w = InRun tok"
  shows "sys_inv (set_worker u w s)"
  using assms by (auto simp: sys_inv_defs torn_down_def split: main_place.splits)

lemma set_place_inv:
  assumes "sys_inv s" and "ch_outbox (sy_chain s) u \<noteq> [] \<Longrightarrow> p = AtTest"
  shows "sys_inv (set_place u p s)"
  using assms by (auto simp: sys_inv_defs torn_down_def split: main_place.splits)

lemma set_chain_inv:
  assumes "sys_inv s" and "chain_inv ch"
    and "\<And>v. ch_outbox ch v \<noteq> [] \<Longrightarrow> ch_outbox (sy_chain s) v \<noteq> [] \<or>
      (\<exists>tok. wb_phase (worker s v) = InRun tok) \<and> sy_place s v = AtTest"
  shows "sys_inv (s\<lparr>sy_chain := ch\<rparr>)"
  using assms by (fastforce simp: sys_inv_defs split: main_place.splits)

fun actor :: "chain_action \<Rightarrow> tid option" where
  "actor (Command _) = None"
| "actor (Tick _) = Some OI"
| "actor (Take u _) = Some u"
| "actor (Flush u) = Some u"

lemma chain_step_outbox:
  assumes "chain_step a s = Inr s'" and "actor a \<noteq> Some v"
  shows "ch_outbox s' v = ch_outbox s v"
proof (cases a)
  case (Take u now)
  with assms show ?thesis
    by (cases u) (auto simp: chain_take_def chain_handle_def split: if_splits option.splits prod.splits)
next
  case (Flush u)
  with assms show ?thesis by (auto split: list.splits sum.splits)
qed (use assms in \<open>auto simp: chain_tick_def split: if_splits sum.splits option.splits prod.splits\<close>)

lemma chain_step_keeps:
  assumes "chain_inv s" and "chain_step a s = Inr s'"
  shows "chain_inv s'"
  using chain_step_inv [OF assms(1), of a] assms(2) by auto

lemma sys_begin_inv:
  assumes "sys_inv s"
  shows "sys_inv (sys_begin u s)"
proof (cases "wb_phase (worker s u)")
  case (Spawned ext)
  let ?w = "wb_body_begin (tm_sources (sy_tm s)) (worker s u)"
  have "body_active (wb_phase (worker s u))" using Spawned by simp
  then have "chain_inv (fresh_locals u (sy_chain s))" using active_whole [OF assms] fresh_locals_inv by blast
  moreover have "ch_outbox (sy_chain s) u = []" using assms Spawned by (auto simp: sys_inv_def inv_outbox_def)
  with assms Spawned have "sys_inv (set_place u AtTest (set_worker u ?w s))"
    by (intro set_place_inv set_worker_inv) (auto simp: sys_inv_defs wb_inv_begin)
  ultimately have "sys_inv (set_place u AtTest (set_worker u ?w s)\<lparr>sy_chain := fresh_locals u (sy_chain s)\<rparr>)"
    by (intro set_chain_inv) auto
  with Spawned show ?thesis by (simp add: sys_begin_def)
qed (use assms in \<open>simp_all add: sys_begin_def\<close>)

lemma sys_test_inv:
  assumes inv: "sys_inv s"
  shows "sys_inv (sys_test u s)"
proof -
  have "wb_inv (worker s u)" using inv by (simp add: sys_inv_def inv_workers_def)
  then have "sys_inv (set_worker u (wb_body_return (worker s u)) s)"
    if "wb_phase (worker s u) = InRun tok" "ch_outbox (sy_chain s) u = []" for tok
    using inv that by (intro set_worker_inv wb_inv_return) auto
  moreover have "sys_inv (set_place u AtWait s)" if "ch_outbox (sy_chain s) u = []"
    using inv that by (intro set_place_inv) auto
  ultimately show ?thesis using inv by (auto simp: sys_test_def split: phase.split)
qed

lemma sys_finish_inv:
  assumes "sys_inv s"
  shows "sys_inv (sys_finish u s)"
proof -
  have "wb_inv (worker s u)" using assms by (simp add: sys_inv_def inv_workers_def)
  then show ?thesis
    using assms unfolding sys_finish_def
    by (intro set_worker_inv wb_inv_mark)
      (auto simp: wb_body_mark_stopped_def sys_inv_def inv_outbox_def split: phase.splits)
qed

text \<open>The actions of the threads on the chain fault only by overflow, after \<open>2 ^ 31\<close> events.\<close>

lemma sys_loop_inv:
  assumes inv: "sys_inv s"
  shows "(\<exists>s'. sys_loop u t now s = Inr s' \<and> sys_inv s') \<or> sys_loop u t now s = Inl CounterOverflow \<and>
    int_max < int (length (ch_events (sy_chain s))) + (if u = OI then 1 else 0)"
proof (cases "\<exists>tok. wb_phase (worker s u) = InRun tok \<and> sy_place s u = AtWait")
  case True
  then obtain tok where run: "wb_phase (worker s u) = InRun tok" and wait: "sy_place s u = AtWait" by blast
  let ?a = "if u = OI then Tick t else Take u now"
  have whole: "chain_inv (sy_chain s)" using active_whole [OF inv, of u] run by simp
  show ?thesis
  proof (cases "chain_step ?a (sy_chain s)")
    case (Inl fault)
    with chain_step_inv [OF whole, of ?a] run wait show ?thesis
      by (auto simp: sys_loop_def is_tick_def split: if_splits)
  next
    case (Inr ch)
    have "sys_inv (set_place u AtTest s)" using inv by (intro set_place_inv) auto
    moreover have "chain_inv ch" using chain_step_keeps [OF whole Inr] .
    moreover have "ch_outbox ch v = ch_outbox (sy_chain s) v" if "v \<noteq> u" for v
      using that by (intro chain_step_outbox [OF Inr]) auto
    ultimately have "sys_inv (set_place u AtTest s\<lparr>sy_chain := ch\<rparr>)"
      using run by (intro set_chain_inv) auto
    with Inr run wait show ?thesis by (simp add: sys_loop_def)
  qed
next
  case False
  with inv have "sys_loop u t now s = Inr s"
    by (auto simp: sys_loop_def split: phase.splits)
  with inv show ?thesis by simp
qed

lemma sys_send_inv:
  assumes inv: "sys_inv s"
  shows "\<exists>s'. sys_send u s = Inr s' \<and> sys_inv s'"
proof (cases "\<exists>tok. wb_phase (worker s u) = InRun tok")
  case True
  then obtain tok where run: "wb_phase (worker s u) = InRun tok" by blast
  have whole: "chain_inv (sy_chain s)" using active_whole [OF inv, of u] run by simp
  then obtain ch where flush: "chain_step (Flush u) (sy_chain s) = Inr ch" and ch: "chain_inv ch"
    using chain_flush_inv by blast
  have "ch_outbox (sy_chain s) v \<noteq> []" if "ch_outbox ch v \<noteq> []" for v
    using chain_step_outbox [OF flush, of v] flush that
    by (cases "v = u") (auto split: list.splits sum.splits)
  with inv ch have "sys_inv (s\<lparr>sy_chain := ch\<rparr>)" by (intro set_chain_inv) auto
  with run flush show ?thesis by (simp add: sys_send_def)
next
  case False
  with inv show ?thesis by (auto simp: sys_send_def split: phase.splits)
qed

text \<open>The steps of the main thread.\<close>

lemma addTask_effect:
  obtains (added) w where "tm_addTask (\<lambda>_. True) (\<lambda>_. True) (Some i) tm =
      tm\<lparr>tm_workers := (tm_workers tm)(i := w), tm_tasks := tm_tasks tm @ [i]\<rparr>"
    and "\<not> wb_isRunning (tm_workers tm i)" and "wb_start True True (Some (tm_current tm)) (tm_workers tm i) = (True, w)"
  | (running) "tm_addTask (\<lambda>_. True) (\<lambda>_. True) (Some i) tm = tm" and "wb_isRunning (tm_workers tm i)"
  by (cases "wb_isRunning (tm_workers tm i)")
    (auto simp: tm_addTask_def tm_start_def wb_start_def wb_isRunning_def Let_def)

lemma sys_add_inv:
  assumes inv: "sys_inv s"
  shows "sys_inv (sys_add True s)"
proof (cases "sy_main s")
  case (Adding "is")
  with inv have tasks: "tm_tasks (sy_tm s) @ is = [OI, AO, PT, TT, RT]" and whole: "chain_inv (sy_chain s)"
    by (auto simp: sys_inv_def inv_main_def torn_down_def)
  show ?thesis
  proof (cases "is")
    case Nil
    with tasks have "u \<in> set (tm_tasks (sy_tm s))" for u by (cases u) simp_all
    then have "drop_unmanaged s = s" by (simp add: drop_unmanaged_def)
    moreover have "sys_inv (s\<lparr>sy_main := MainIdle\<rparr>)" using inv whole by (simp add: sys_inv_defs)
    ultimately show ?thesis using Adding Nil by (simp add: sys_add_def)
  next
    case (Cons i js)
    have "distinct (tm_tasks (sy_tm s) @ is)" unfolding tasks by simp
    with Cons have "i \<notin> set (tm_tasks (sy_tm s))" by simp
    with inv have idle: "\<not> body_active (wb_phase (worker s i))" and wb: "wb_inv (worker s i)"
      by (auto simp: sys_inv_def inv_workers_def)
    show ?thesis
    proof (cases rule: addTask_effect [of i "sy_tm s"])
      case (added w)
      have "wb_inv w" using wb_inv_start [OF wb added(3)] .
      moreover have "ch_outbox (sy_chain s) i = []" using idle_outbox [OF inv idle] .
      ultimately show ?thesis
        using inv Adding Cons whole tasks added(1) by (auto simp: sys_add_def sys_inv_defs)
    next
      case running
      with idle wb running_active show ?thesis by blast
    qed
  qed
qed (use inv in \<open>simp_all add: sys_add_def\<close>)

lemma join_someD:
  assumes "wb_join w = Some w'" and "wb_inv w"
  shows "wb_inv w'" and "\<not> body_active (wb_phase w')" and "\<not> body_active (wb_phase w)"
  using assms by (auto simp: wb_join_def wb_inv_def split: if_splits)

lemma sys_join_inv:
  assumes inv: "sys_inv s"
  shows "sys_inv (sys_join s)"
proof (cases "sy_main s")
  case (Joining clear "is")
  show ?thesis
  proof (cases "is")
    case Nil
    with inv Joining have quiet: "\<not> body_active (wb_phase (worker s u))" for u
      by (auto simp: sys_inv_def inv_main_def)
    then have none: "ch_outbox (sy_chain s) u = []" for u using inv idle_outbox by blast
    have "chain_reported (sy_chain s)"
      using inv chain_inv_reported by (auto simp: sys_inv_def torn_down_def)
    then have "torn_down (drop_unmanaged (s\<lparr>sy_tm := (sy_tm s)\<lparr>tm_tasks := []\<rparr>\<rparr>)\<lparr>sy_main := MainIdle\<rparr>)"
      by (simp add: torn_down_def drop_unmanaged_def chain_reported_def inv_log_def)
    with inv Joining Nil quiet none show ?thesis
      by (auto simp: sys_join_def sys_inv_defs drop_unmanaged_def torn_down_def)
  next
    case (Cons i js)
    show ?thesis
    proof (cases "wb_join (worker s i)")
      case (Some w)
      have wb: "wb_inv (worker s i)" using inv by (simp add: sys_inv_def inv_workers_def)
      note w = join_someD [OF Some wb]
      have "sys_inv (set_worker i w s)"
        using inv w by (intro set_worker_inv) (auto simp: sys_inv_def inv_outbox_def)
      with Some Joining Cons w show ?thesis
        by (auto simp: sys_join_def sys_inv_defs torn_down_def split: if_splits)
    qed (use inv Joining Cons in \<open>simp add: sys_join_def\<close>)
  qed
qed (use inv in \<open>simp_all add: sys_join_def\<close>)

lemma restart_one_effect:
  "tm_restart_tasks (\<lambda>_. True) (\<lambda>_. ok) [i] tm =
     tm\<lparr>tm_workers := (tm_workers tm)(i := restarted True ok (tm_current tm) (tm_workers tm i))\<rparr>"
  unfolding restart_tasks_effect by (auto intro!: arg_cong [where f = "\<lambda>ws. tm\<lparr>tm_workers := ws\<rparr>"])

lemma sys_restart_inv:
  assumes inv: "sys_inv s"
  shows "sys_inv (sys_restart ok s)"
proof (cases "sy_main s")
  case (Restarting "is")
  show ?thesis
  proof (cases "is")
    case Nil
    with inv Restarting show ?thesis by (auto simp: sys_restart_def sys_inv_defs torn_down_def)
  next
    case (Cons i js)
    let ?w = "restarted True ok (tm_current (sy_tm s)) (worker s i)"
    have wb: "wb_inv (worker s i)" using inv by (simp add: sys_inv_def inv_workers_def)
    then have w: "wb_inv ?w" "wb_phase ?w = (if \<not> body_active (wb_phase (worker s i)) \<and> ok
        then Spawned (Some (tm_current (sy_tm s))) else wb_phase (worker s i))"
      by (simp_all add: restarted_inv restarted_phase)
    have "i \<in> set (tm_tasks (sy_tm s))" using inv Restarting Cons by (simp add: sys_inv_def inv_main_def)
    with inv Restarting Cons w show ?thesis
      by (auto simp: sys_restart_def restart_one_effect sys_inv_defs torn_down_def simp del: tm_restart_tasks.simps)
  qed
qed (use inv in \<open>simp_all add: sys_restart_def\<close>)

lemma new_source_same [simp]:
  "tm_tasks (tm_new_source tm) = tm_tasks tm" "tm_workers (tm_new_source tm) = tm_workers tm"
  by (simp_all add: tm_new_source_def Let_def)

lemma sys_call_inv:
  assumes inv: "sys_inv s"
  shows "sys_inv (sys_call_stop clear s)" and "sys_inv (sys_call_restart s)"
    and "\<exists>s'. sys_call_command cmd s = Inr s' \<and> sys_inv s'"
proof -
  show "sys_inv (sys_call_stop clear s)"
    using inv by (auto simp: sys_call_stop_def sys_inv_defs torn_down_def)
  show "sys_inv (sys_call_restart s)"
    using inv by (auto simp: sys_call_restart_def sys_inv_defs torn_down_def)
  have "oi_cmds_ok (ch_oi (sy_chain s))"
    using inv chain_inv_reported by (auto simp: sys_inv_def torn_down_def chain_reported_def)
  then obtain ok oi' where cmd: "oi_sendCommand cmd (ch_oi (sy_chain s)) = Inr (ok, oi')" and "oi_cmds_ok oi'"
    and "oi_next oi' = oi_next (ch_oi (sy_chain s))"
    and "oi_directToProcessing oi' = oi_directToProcessing (ch_oi (sy_chain s))"
    by (rule oi_sendCommand_frame)
  then have "chain_inv (sy_chain s) \<Longrightarrow> chain_inv (sy_chain s\<lparr>ch_oi := oi'\<rparr>)"
    and "torn_down s \<Longrightarrow> torn_down (s\<lparr>sy_chain := sy_chain s\<lparr>ch_oi := oi'\<rparr>\<rparr>)"
    by (simp_all add: chain_inv_def chain_inv_defs torn_down_def chain_reported_def)
  with inv cmd show "\<exists>s'. sys_call_command cmd s = Inr s' \<and> sys_inv s'"
    by (auto simp: sys_call_command_def sys_inv_defs)
qed

subsection \<open>Schedules\<close>

fun generates :: "sys_action \<Rightarrow> bool" where
  "generates (Loop u _ _) = (u = OI)"
| "generates _ = False"

lemma sys_step_inv:
  assumes "sys_inv s" and "a \<noteq> AddNext False"
  shows "(\<exists>s'. sys_step a s = Inr s' \<and> sys_inv s') \<or> sys_step a s = Inl CounterOverflow \<and>
    int_max < int (length (ch_events (sy_chain s))) + (if generates a then 1 else 0)"
proof (cases a)
  case (Loop u t now)
  with sys_loop_inv [OF assms(1), of u t now] show ?thesis by simp
next
  case (SendNext u)
  with sys_send_inv [OF assms(1)] show ?thesis by simp
next
  case (CallCommand cmd)
  with sys_call_inv(3) [OF assms(1)] show ?thesis by simp
qed (use assms in \<open>simp_all add: sys_begin_inv sys_test_inv sys_finish_inv sys_add_inv sys_join_inv
      sys_restart_inv sys_call_inv\<close>)

lemma sys_step_keeps:
  assumes "sys_inv s" and "a \<noteq> AddNext False" and "sys_step a s = Inr s'"
  shows "sys_inv s'"
  using sys_step_inv [OF assms(1,2)] assms(3) by auto

lemma sys_exec_keeps:
  "sys_inv s \<Longrightarrow> AddNext False \<notin> set as \<Longrightarrow> sys_exec as s = Inr s' \<Longrightarrow> sys_inv s'"
proof (induction as arbitrary: s)
  case (Cons a as)
  then show ?case using sys_step_keeps [of s a] by (auto split: sum.splits)
qed simp

lemma sys_reach_inv:
  assumes "oi_new alloc_ok = Inr oi" and "AddNext False \<notin> set as" and "sys_exec as (sys_start oi) = Inr s"
  shows "sys_inv s"
  using sys_exec_keeps [OF sys_start_inv [OF assms(1)] assms(2,3)] .

text \<open>Only the observer's loop generates events, one at a time.\<close>

lemma sys_step_events:
  assumes inv: "sys_inv s" and step: "sys_step a s = Inr s'"
  shows "length (ch_events (sy_chain s')) \<le> length (ch_events (sy_chain s)) + (if generates a then 1 else 0)"
proof (cases a)
  case (Loop u t now)
  show ?thesis
  proof (cases "\<exists>tok. wb_phase (worker s u) = InRun tok \<and> sy_place s u = AtWait")
    case True
    with active_whole [OF inv, of u] have "chain_inv (sy_chain s)" by auto
    with True Loop step chain_step_count [of "sy_chain s" "if u = OI then Tick t else Take u now"] show ?thesis
      by (fastforce simp: sys_loop_def is_tick_def simp del: chain_step.simps split: sum.splits if_splits)
  next
    case False
    with Loop step show ?thesis by (auto simp: sys_loop_def split: phase.splits if_splits)
  qed
next
  case (SendNext u)
  with step show ?thesis
    by (auto simp: sys_send_def split: phase.splits sum.splits list.splits)
next
  case (CallCommand cmd)
  with step show ?thesis by (auto simp: sys_call_command_def split: if_splits sum.splits)
qed (use step in \<open>auto simp: sys_begin_def sys_test_def sys_finish_def sys_add_def sys_join_def
      sys_restart_def sys_call_stop_def sys_call_restart_def drop_unmanaged_def
      split: phase.splits main_place.splits list.splits option.splits\<close>)

lemma sys_exec_total:
  "sys_inv s \<Longrightarrow> AddNext False \<notin> set as \<Longrightarrow>
   int (length (ch_events (sy_chain s))) + int (length (filter generates as)) \<le> int_max \<Longrightarrow>
     \<exists>s'. sys_exec as s = Inr s'"
proof (induction as arbitrary: s)
  case (Cons a as)
  then have "a \<noteq> AddNext False" by auto
  moreover from Cons.prems(3) have "\<not> int_max < int (length (ch_events (sy_chain s))) + (if generates a then 1 else 0)"
    by (auto split: if_splits)
  ultimately obtain s' where s': "sys_step a s = Inr s'" "sys_inv s'"
    using sys_step_inv [OF Cons.prems(1), of a] by blast
  from sys_step_events [OF Cons.prems(1) s'(1)] Cons.prems(3)
  have "int (length (ch_events (sy_chain s'))) + int (length (filter generates as)) \<le> int_max"
    by (auto split: if_splits)
  with Cons.IH [OF s'(2)] Cons.prems(2) s'(1) show ?case by simp
qed simp

subsection \<open>The numbers of the events\<close>

lemma chain_tick_event:
  assumes inv: "chain_inv s" and step: "chain_step (Tick t) s = Inr s'"
  shows "ch_count s' = ch_count s \<and> ch_events s' = ch_events s \<or>
    ch_count s' = ch_count s + 1 \<and> ch_events s' = ch_events s @ [file_event (ch_count s') (at_event t)]"
proof (cases "ch_outbox s OI = []")
  case True
  with step obtain cmd rb sends count oi where
    iter: "oi_iteration cmd t (ch_count s) (ch_oi s\<lparr>oi_cmdBuffer := rb\<rparr>) = Some (sends, count, oi)"
    and s': "ch_count s' = count" "ch_events s' = ch_events s @ pick as_FileEvent (map snd sends)"
    by (auto simp: chain_tick_def split: sum.splits option.splits prod.splits)
  from wired_iteration [OF _ _ iter, of "sender_to AO" "sender_to PT"] inv s' show ?thesis
    by (auto simp: chain_inv_def inv_wired_def)
next
  case False
  with step show ?thesis by (auto split: list.splits)
qed

text \<open>The events since the observer entered its loop are numbered from one.\<close>

definition events_at :: "int list \<Rightarrow> FileEvent list" where
  "events_at ts = map2 (\<lambda>k t. file_event (int k) t) [1..<Suc (length ts)] ts"

lemma events_at_snoc:
  "events_at (ts @ [t]) = events_at ts @ [file_event (int (length ts) + 1) t]"
  by (simp add: events_at_def upt_Suc_append add.commute del: upt_Suc)

definition numbered :: "chain \<Rightarrow> bool" where
  "numbered ch \<longleftrightarrow> (\<exists>earlier ts. ch_count ch = int (length ts) \<and>
     ch_events ch = earlier @ events_at ts)"

lemma numbered_snoc:
  assumes "numbered ch" and "ch_count ch' = ch_count ch + 1"
    and "ch_events ch' = ch_events ch @ [file_event (ch_count ch') t]"
  shows "numbered ch'"
proof -
  from assms(1) obtain earlier ts where "ch_count ch = int (length ts)"
    "ch_events ch = earlier @ events_at ts"
    by (auto simp: numbered_def)
  with assms(2,3) show ?thesis
    unfolding numbered_def by (intro exI [of _ earlier] exI [of _ "ts @ [t]"]) (simp add: events_at_snoc)
qed

lemma numbered_frame:
  "numbered ch \<Longrightarrow> ch_count ch' = ch_count ch \<Longrightarrow> ch_events ch' = ch_events ch \<Longrightarrow> numbered ch'"
  by (simp add: numbered_def)

lemma numbered_fresh: "ch_count ch = 0 \<Longrightarrow> numbered ch"
  unfolding numbered_def by (intro exI [of _ "ch_events ch"] exI [of _ "[]"]) (simp add: events_at_def)

lemma chain_step_not_tick:
  assumes "chain_step a s = Inr s'" and "\<not> is_tick a"
  shows "ch_count s' = ch_count s" and "ch_events s' = ch_events s"
  using assms
  by (cases a; auto simp: is_tick_def chain_take_def chain_handle_def
      split: if_splits option.splits prod.splits list.splits sum.splits tid.splits)+

lemma sys_step_numbered:
  assumes inv: "sys_inv s" and num: "numbered (sy_chain s)" and step: "sys_step a s = Inr s'"
  shows "numbered (sy_chain s')"
proof (cases a)
  case (Begin u)
  have "numbered (fresh_locals u (sy_chain s))"
    using num numbered_fresh by (cases u) (auto simp: fresh_locals_def intro: numbered_frame)
  with Begin step num show ?thesis by (auto simp: sys_begin_def split: phase.splits)
next
  case (Loop u t now)
  show ?thesis
  proof (cases "\<exists>tok. wb_phase (worker s u) = InRun tok \<and> sy_place s u = AtWait")
    case True
    with active_whole [OF inv, of u] have whole: "chain_inv (sy_chain s)" by auto
    from True Loop step obtain ch where ch: "chain_step (if u = OI then Tick t else Take u now) (sy_chain s) = Inr ch"
      and s': "sy_chain s' = ch" by (auto simp: sys_loop_def split: sum.splits)
    have "numbered ch"
    proof (cases "u = OI")
      case True
      with ch chain_tick_event [OF whole, of t ch] numbered_snoc [OF num] numbered_frame [OF num] show ?thesis
        by (auto simp del: chain_step.simps)
    next
      case False
      with ch chain_step_not_tick [OF ch] numbered_frame [OF num] show ?thesis by (simp add: is_tick_def)
    qed
    with s' show ?thesis by simp
  next
    case False
    with Loop step num show ?thesis by (auto simp: sys_loop_def split: phase.splits if_splits)
  qed
next
  case (SendNext u)
  with step num chain_step_not_tick [of "Flush u"] show ?thesis
    by (auto simp: sys_send_def is_tick_def simp del: chain_step.simps split: phase.splits sum.splits
        intro: numbered_frame)
next
  case (CallCommand cmd)
  with step num chain_step_not_tick [of "Command cmd"] show ?thesis
    by (auto simp: sys_call_command_def is_tick_def simp del: chain_step.simps split: if_splits sum.splits
        intro: numbered_frame)
qed (use step num in \<open>auto simp: sys_test_def sys_finish_def sys_add_def sys_join_def sys_restart_def
      sys_call_stop_def sys_call_restart_def drop_unmanaged_def intro: numbered_frame
      split: phase.splits main_place.splits list.splits option.splits\<close>)

lemma sys_exec_numbered:
  "sys_inv s \<Longrightarrow> numbered (sy_chain s) \<Longrightarrow> AddNext False \<notin> set as \<Longrightarrow> sys_exec as s = Inr s' \<Longrightarrow>
     numbered (sy_chain s')"
proof (induction as arbitrary: s)
  case (Cons a as)
  then obtain s1 where s1: "sys_step a s = Inr s1" "sys_exec as s1 = Inr s'" by (auto split: sum.splits)
  with Cons sys_step_keeps [OF Cons.prems(1) _ s1(1)] sys_step_numbered [OF Cons.prems(1,2) s1(1)] show ?case
    by auto
qed simp

subsection \<open>Properties\<close>


definition start_up :: "sys_action list" where
  "start_up = replicate 6 (AddNext True)"

definition one_round :: "sys_action list" where
  "one_round = [Begin OI, Test OI, Loop OI (readings_at 5) 0, SendNext OI, SendNext OI,
     Begin AO, Test AO, Loop AO (readings_at 0) 0, SendNext AO, SendNext AO,
     Begin PT, Test PT, Loop PT (readings_at 0) 0, Test PT, Loop PT (readings_at 0) 0, SendNext PT,
     Begin TT, Test TT, Loop TT (readings_at 0) 0, SendNext TT, Begin RT, Test RT, Loop RT (readings_at 0) 9]"

definition demo_system :: system where
  "demo_system = (case oi_new (\<lambda>_. True) of Inr oi \<Rightarrow> sys_start oi)"


text \<open>
  Property C3 (safety, functional): across any stops and restarts the results received are those of
  the first events generated, each once and in order, and the printed lines name those events; a
  termination may cut the sequence short but never reorders or repeats.
\<close>

theorem system_exactly_once:
  assumes "oi_new alloc_ok = Inr oi" and "AddNext False \<notin> set as" and "sys_exec as (sys_start oi) = Inr s"
  shows "ch_received (sy_chain s) =
      take (length (ch_received (sy_chain s))) (map result_of (ch_events (sy_chain s))) \<and>
    map (\<lambda>(name, val, _). (name, val)) (ch_log (sy_chain s)) =
      map (\<lambda>td. (fileName (originalFile (originalAppEvent (originalData td))), transformed_value td))
        (ch_received (sy_chain s))"
proof -
  from sys_reach_inv [OF assms] have "chain_reported (sy_chain s)"
    using chain_inv_reported by (auto simp: sys_inv_def torn_down_def)
  then show ?thesis by (simp add: chain_reported_def inv_log_def)
qed

theorem system_exactly_once_witness:
  "\<exists>s. sys_exec (start_up @ one_round) demo_system = Inr s \<and> length (ch_received (sy_chain s)) = 1 \<and>
     ch_received (sy_chain s) = take 1 (map result_of (ch_events (sy_chain s)))"
proof -
  obtain oi where new: "oi_new (\<lambda>_. True) = Inr oi" using oi_new_exists by blast
  then have demo: "demo_system = sys_start oi" by (simp add: demo_system_def)
  have "(case sys_exec (start_up @ one_round) demo_system of
      Inr s \<Rightarrow> length (ch_received (sy_chain s)) = 1 | _ \<Rightarrow> False)" by code_simp
  then obtain s where s: "sys_exec (start_up @ one_round) demo_system = Inr s"
    "length (ch_received (sy_chain s)) = 1" by (auto split: sum.splits)
  have "AddNext False \<notin> set (start_up @ one_round)" by code_simp
  from conjunct1 [OF system_exactly_once [OF new this s(1) [unfolded demo]]] s show ?thesis by auto
qed


definition two_runs :: "sys_action list" where
  "two_runs = [Begin OI, Test OI, Loop OI (readings_at 5) 0, SendNext OI, SendNext OI, CallStop, Test OI, Finish OI,
     Begin AO, Test AO, Finish AO, Begin PT, Test PT, Finish PT, Begin TT, Test TT, Finish TT,
     Begin RT, Test RT, Finish RT] @ replicate 6 JoinNext @ [CallRestart] @ replicate 6 (RestartNext True) @
     [Begin OI, Test OI, Loop OI (readings_at 8) 0]"


text \<open>
  Property C29 (error): a thread that cannot be created while the chain is set up leaves a dangling
  sender. \<open>addTask\<close> drops the task silently, its queue goes when \<open>initTestChain\<close> returns, and the
  observer, already started, sends its first event to it.
\<close>

theorem failed_start_leaves_dangling_sender:
  assumes "oi_new alloc_ok = Inr oi" and "0 \<le> at_pause t"
  shows "sys_exec [AddNext True, AddNext False, AddNext True, AddNext True, AddNext True, AddNext ok,
      Begin OI, Test OI, Loop OI t now, SendNext OI] (sys_start oi) = Inl (SendFault (DanglingQueue AO))"
proof -
  let ?adds = "[AddNext True, AddNext False, AddNext True, AddNext True, AddNext True, AddNext ok]"
  have rb: "rb_pop (oi_cmdBuffer oi) = Inr (None, oi_cmdBuffer oi)"
    and oi: "oi_pauseUntil oi = 0" "oi_mode oi = Normal"
    using assms(1) by (auto simp: oi_new_def rb_init_def rb_pop_def split: sum.splits if_splits option.splits)
  obtain s where adds: "sys_exec ?adds (sys_start oi) = Inr s" and main: "sy_main s = MainIdle"
    and worker: "worker s OI = \<lparr>wb_running = True, wb_joinable = True, wb_source = Some False,
      wb_phase = Spawned (Some 0)\<rparr>"
    and src: "tm_sources (sy_tm s) 0 = \<lparr>ss_requested = False, ss_exists = True\<rparr>"
    and chain: "sy_chain s = initTestChain oi\<lparr>ch_world := (ch_world (initTestChain oi))\<lparr>sw_queues :=
      (sw_queues (ch_world (initTestChain oi)))(AO := None)\<rparr>\<rparr>"
  proof
    show "sys_exec ?adds (sys_start oi) = Inr (sys_add ok (sys_add True (sys_add True (sys_add True
        (sys_add False (sys_add True (sys_start oi)))))))" by simp
  qed (auto simp: sys_start_def sys_add_def tm_addTask_def tm_start_def wb_start_def tm_new_def wb_new_def Let_def
      drop_unmanaged_def initTestChain_def fun_eq_iff intro: tid.exhaust)
  have running: "sys_exec [Begin OI, Test OI, Loop OI t now, SendNext OI] s = Inl (SendFault (DanglingQueue AO))"
    using assms(2) worker src chain rb oi
    by (simp add: sys_begin_def wb_body_begin_def stop_possible_def sys_test_def token_requested_def
        own_stop_requested_def sys_loop_def sys_send_def chain_tick_def oi_iteration_def oi_leaveStress_def
        initTestChain_def fresh_locals_def oi_setNext_def oi_setDirectToProcessing_def send_defs
        int_succ_def int_max_def)
  have "sys_exec (?adds @ [Begin OI, Test OI, Loop OI t now, SendNext OI]) (sys_start oi) =
      Inl (SendFault (DanglingQueue AO))"
    unfolding sys_exec_append adds by (simp only: sum.case running)
  then show ?thesis by (simp only: append_Cons append_Nil)
qed

theorem failed_start_leaves_dangling_sender_witness:
  "sys_exec [AddNext True, AddNext False, AddNext True, AddNext True, AddNext True, AddNext True,
      Begin OI, Test OI, Loop OI (readings_at 5) 0, SendNext OI] demo_system = Inl (SendFault (DanglingQueue AO))"
proof -
  obtain oi where new: "oi_new (\<lambda>_. True) = Inr oi" using oi_new_exists by blast
  have "0 \<le> at_pause (readings_at 5)" by code_simp
  from failed_start_leaves_dangling_sender [OF new this] new show ?thesis by (simp add: demo_system_def)
qed

end
