(* ===== verification/SystemTypes.thy ===== *)
theory SystemTypes
  imports System
begin

text \<open>
  The payload types of the messages, which C++ checks only at run time with \<open>dynamic_pointer_cast\<close>:
  in the wired system no thread ever finds a message in its queue that it does not handle.
\<close>

text \<open>The payload types whose cast succeeds in the loop of a thread, or that it drops on purpose.\<close>

fun handled :: "tid \<Rightarrow> payload \<Rightarrow> bool" where
  "handled OI m = (\<exists>e. m = MirrorMsg e)"
| "handled AO m = (as_FileEvent m \<noteq> None)"
| "handled PT m = (as_AppEvent m \<noteq> None \<or> (\<exists>e. m = DirectMsg e))"
| "handled TT m = (as_ProcessedData m \<noteq> None)"
| "handled RT m = (as_TransformedData m \<noteq> None)"

lemma handled_route: "handled u m \<longleftrightarrow> route m = u"
  by (cases u; cases m; simp)

definition queues_typed :: "chain \<Rightarrow> bool" where
  "queues_typed ch \<longleftrightarrow> (\<forall>u. \<forall>x \<in> set (queued (ch_world ch) u). \<exists>m. x = Some m \<and> handled u m)"

lemma queues_typed_sub:
  assumes "queues_typed ch" and "\<And>u. set (queued (ch_world ch') u) \<subseteq> set (queued (ch_world ch) u)"
  shows "queues_typed ch'"
  using assms unfolding queues_typed_def by blast

lemma chain_step_typed:
  assumes typed: "queues_typed ch" and inv: "chain_inv ch" and step: "chain_step a ch = Inr ch'"
  shows "queues_typed ch'"
proof (cases a)
  case (Command cmd)
  with step have "ch_world ch' = ch_world ch" by (auto split: sum.splits)
  with typed show ?thesis by (simp add: queues_typed_def)
next
  case (Tick t)
  with step have "ch_world ch' = ch_world ch"
    by (auto simp: chain_tick_def split: if_splits sum.splits option.splits)
  with typed show ?thesis by (simp add: queues_typed_def)
next
  case (Take u now)
  have "set (queued (ch_world ch') v) \<subseteq> set (queued (ch_world ch) v)" for v
    using step Take
    by (cases u) (auto simp: chain_take_def chain_handle_def queued_def mq_pop_def
        split: if_splits option.splits prod.splits list.splits)
  with typed show ?thesis by (rule queues_typed_sub)
next
  case (Flush u)
  show ?thesis
  proof (cases "ch_outbox ch u")
    case Nil
    with step Flush typed show ?thesis by simp
  next
    case (Cons x rest)
    obtain sd m where "x = (sd, m)" by fastforce
    with Cons have "ch_outbox ch u = (sd, m) # rest" by simp
    with inv obtain w' where flush: "chain_step (Flush u) ch = Inr (set_outbox u rest ch\<lparr>ch_world := w'\<rparr>)"
      and to: "queued w' (route m) = queued (ch_world ch) (route m) @ [Some m]"
      and other: "\<And>v. v \<noteq> route m \<Longrightarrow> queued w' v = queued (ch_world ch) v"
      by (rule flush_moves) (rule that)
    have "handled (route m) m" by (simp add: handled_route)
    with typed to other have "\<forall>x \<in> set (queued w' v). \<exists>m. x = Some m \<and> handled v m" for v
      by (cases "v = route m") (auto simp: queues_typed_def)
    with step Flush flush show ?thesis by (simp add: queues_typed_def)
  qed
qed

lemma sys_step_typed:
  assumes inv: "sys_inv s" and typed: "queues_typed (sy_chain s)" and step: "sys_step a s = Inr s'"
  shows "queues_typed (sy_chain s')"
proof (cases a)
  case (Loop u t now)
  with step typed chain_step_typed [OF typed active_whole [OF inv, of u]] show ?thesis
    by (auto simp: sys_loop_def simp del: chain_step.simps split: phase.splits sum.splits if_splits)
next
  case (SendNext u)
  with step typed chain_step_typed [OF typed active_whole [OF inv, of u]] show ?thesis
    by (auto simp: sys_send_def simp del: chain_step.simps split: phase.splits sum.splits)
next
  case (CallCommand cmd)
  with step typed show ?thesis by (auto simp: sys_call_command_def queues_typed_def split: if_splits sum.splits)
next
  case (Begin u)
  with step typed show ?thesis by (auto simp: sys_begin_def queues_typed_def split: phase.splits)
next
  case (AddNext ok)
  with step have "set (queued (ch_world (sy_chain s')) u) \<subseteq> set (queued (ch_world (sy_chain s)) u)" for u
    by (auto simp: sys_add_def drop_unmanaged_def queued_def split: main_place.splits list.splits if_splits)
  with typed show ?thesis by (rule queues_typed_sub)
next
  case JoinNext
  with step have "set (queued (ch_world (sy_chain s')) u) \<subseteq> set (queued (ch_world (sy_chain s)) u)" for u
    by (auto simp: sys_join_def drop_unmanaged_def queued_def split: main_place.splits list.splits option.splits if_splits)
  with typed show ?thesis by (rule queues_typed_sub)
qed (use step typed in \<open>auto simp: sys_test_def sys_finish_def sys_restart_def sys_call_stop_def sys_call_restart_def
    simp del: tm_restart_tasks.simps split: phase.splits if_splits main_place.splits list.splits\<close>)

lemma sys_exec_typed:
  "sys_inv s \<Longrightarrow> queues_typed (sy_chain s) \<Longrightarrow> AddNext False \<notin> set as \<Longrightarrow> sys_exec as s = Inr s' \<Longrightarrow>
     queues_typed (sy_chain s')"
proof (induction as arbitrary: s)
  case (Cons a as)
  then obtain s1 where s1: "sys_step a s = Inr s1" "sys_exec as s1 = Inr s'" by (auto split: sum.splits)
  moreover have "sys_inv s1" using sys_step_keeps [OF Cons.prems(1) _ s1(1)] Cons.prems(3) by auto
  ultimately show ?case using Cons.IH [of s1] sys_step_typed [OF Cons.prems(1,2) s1(1)] Cons.prems(3) by simp
qed simp

subsection \<open>Properties\<close>

text \<open>
  Property C24 (type): no cast of a message fails by surprise. In every reachable state, also between
  a stop and a restart and after a termination, each queue holds only messages that its thread handles
  (never a null pointer), and each message about to be sent goes through a sender whose thread handles it.
\<close>

theorem messages_well_typed:
  assumes "oi_new alloc_ok = Inr oi" and "AddNext False \<notin> set as" and "sys_exec as (sys_start oi) = Inr s"
  shows "(\<forall>u. \<forall>x \<in> set (queued (ch_world (sy_chain s)) u). \<exists>m. x = Some m \<and> handled u m) \<and>
    (\<forall>u. \<forall>(sender, m) \<in> set (ch_outbox (sy_chain s) u). \<exists>v. messageQueuePtr sender = Some v \<and> handled v m)"
proof
  have "queues_typed (sy_chain (sys_start oi))"
    by (simp add: queues_typed_def sys_start_def initTestChain_def queued_def mq_new_def)
  from sys_exec_typed [OF sys_start_inv [OF assms(1)] this assms(2,3)]
  show "\<forall>u. \<forall>x \<in> set (queued (ch_world (sy_chain s)) u). \<exists>m. x = Some m \<and> handled u m"
    by (simp add: queues_typed_def)
  have inv: "sys_inv s" using sys_reach_inv [OF assms] .
  show "\<forall>u. \<forall>(sender, m) \<in> set (ch_outbox (sy_chain s) u). \<exists>v. messageQueuePtr sender = Some v \<and> handled v m"
  proof (intro allI ballI)
    fix u x
    assume x: "x \<in> set (ch_outbox (sy_chain s) u)"
    with idle_outbox [OF inv, of u] have "body_active (wb_phase (worker s u))"
      by (cases "body_active (wb_phase (worker s u))") simp_all
    with active_whole [OF inv] have "inv_routed (sy_chain s)" by (simp add: chain_inv_def)
    with x have "fst x = sender_to (route (snd x))" by (auto simp: inv_routed_def)
    then show "case x of (sender, m) \<Rightarrow> \<exists>v. messageQueuePtr sender = Some v \<and> handled v m"
      by (auto simp: handled_route sender_to_def split: prod.split)
  qed
qed

theorem messages_well_typed_witness:
  "\<exists>s. sys_exec (start_up @ take 9 one_round) demo_system = Inr s \<and>
     length (queued (ch_world (sy_chain s)) PT) = 1 \<and>
     (\<forall>x \<in> set (queued (ch_world (sy_chain s)) PT). \<exists>m. x = Some m \<and> handled PT m)"
proof -
  obtain oi where new: "oi_new (\<lambda>_. True) = Inr oi" using oi_new_exists by blast
  then have demo: "demo_system = sys_start oi" by (simp add: demo_system_def)
  have "(case sys_exec (start_up @ take 9 one_round) demo_system of
      Inr s \<Rightarrow> length (queued (ch_world (sy_chain s)) PT) = 1 | _ \<Rightarrow> False)" by code_simp
  then obtain s where s: "sys_exec (start_up @ take 9 one_round) demo_system = Inr s"
    "length (queued (ch_world (sy_chain s)) PT) = 1" by (auto split: sum.splits)
  have "AddNext False \<notin> set (start_up @ take 9 one_round)" by code_simp
  from conjunct1 [OF messages_well_typed [OF new this s(1) [unfolded demo]]] s show ?thesis by blast
qed

end
