(* ===== verification/SystemStop.thy ===== *)
theory SystemStop
  imports System
begin

text \<open>
  Stopping the threads of the system: the stop request of the manager reaches every thread, every
  schedule of the stop ends, and what the threads have not passed on stays in their queues.
\<close>

subsection \<open>The stop request reaches the threads\<close>

definition inv_reached :: "system \<Rightarrow> bool" where
  "inv_reached s \<longleftrightarrow> ss_exists (tm_sources (sy_tm s) (tm_current (sy_tm s))) \<and>
     (\<forall>u. reached_by (tm_current (sy_tm s)) (wb_phase (worker s u))) \<and>
     (\<forall>clear is. sy_main s = Joining clear is \<longrightarrow> ss_requested (tm_sources (sy_tm s) (tm_current (sy_tm s))))"

definition sys_quiet :: "system \<Rightarrow> bool" where
  "sys_quiet s \<longleftrightarrow> (\<forall>u. \<not> body_active (wb_phase (worker s u)))"

text \<open>A restart is called only while no thread runs.\<close>

fun restarts_quiet :: "sys_action list \<Rightarrow> system \<Rightarrow> bool" where
  "restarts_quiet [] s = True"
| "restarts_quiet (a # as) s =
     ((a = CallRestart \<and> sy_main s = MainIdle \<longrightarrow> sys_quiet s) \<and>
      (case sys_step a s of Inl _ \<Rightarrow> True | Inr s' \<Rightarrow> restarts_quiet as s'))"

lemma reached_inactive: "\<not> body_active ph \<Longrightarrow> reached_by e ph"
  by (cases ph) (simp_all add: reached_by_def)

lemma reached_set_worker:
  assumes "inv_reached s" and "reached_by (tm_current (sy_tm s)) (wb_phase w)"
  shows "inv_reached (set_worker u w s)"
  using assms by (simp add: inv_reached_def)

lemma reached_frame [simp]:
  "inv_reached (s\<lparr>sy_chain := ch\<rparr>) = inv_reached s" "inv_reached (s\<lparr>sy_place := pl\<rparr>) = inv_reached s"
  "inv_reached (drop_unmanaged s) = inv_reached s"
  by (simp_all add: inv_reached_def drop_unmanaged_def)

lemma sys_threads_reached:
  assumes inv: "inv_reached s"
  shows "inv_reached (sys_begin u s)" and "inv_reached (sys_test u s)" and "inv_reached (sys_finish u s)"
proof -
  have reached: "reached_by (tm_current (sy_tm s)) (wb_phase (worker s u))"
    and ex: "ss_exists (tm_sources (sy_tm s) (tm_current (sy_tm s)))" using inv by (simp_all add: inv_reached_def)
  show "inv_reached (sys_begin u s)"
  proof (cases "wb_phase (worker s u)")
    case (Spawned ext)
    with reached have "ext = Some (tm_current (sy_tm s))" by (simp add: reached_by_def)
    with Spawned ex have "wb_phase (wb_body_begin (tm_sources (sy_tm s)) (worker s u)) =
        InRun (CombinedToken (tm_current (sy_tm s)))"
      by (simp add: wb_body_begin_def stop_possible_def)
    then have "inv_reached (set_worker u (wb_body_begin (tm_sources (sy_tm s)) (worker s u)) s)"
      using inv by (intro reached_set_worker) (simp_all add: reached_by_def)
    with Spawned show ?thesis by (simp add: sys_begin_def)
  qed (use inv in \<open>simp_all add: sys_begin_def\<close>)
  have "inv_reached (set_worker u (wb_body_return (worker s u)) s)"
    using inv reached by (intro reached_set_worker) (auto simp: wb_body_return_def reached_by_def split: phase.split)
  then show "inv_reached (sys_test u s)" using inv by (auto simp: sys_test_def split: phase.split)
  show "inv_reached (sys_finish u s)"
    unfolding sys_finish_def using inv reached
    by (intro reached_set_worker) (auto simp: wb_body_mark_stopped_def reached_by_def split: phase.split)
qed

lemma sys_main_reached:
  assumes inv: "inv_reached s"
  shows "inv_reached (sys_add ok s)" and "inv_reached (sys_join s)" and "inv_reached (sys_restart ok s)"
    and "inv_reached (sys_call_stop clear s)"
    and "(sy_main s = MainIdle \<Longrightarrow> sys_quiet s) \<Longrightarrow> inv_reached (sys_call_restart s)"
proof -
  show "inv_reached (sys_add ok s)"
    using inv by (auto simp: sys_add_def inv_reached_def tm_addTask_def tm_start_def wb_start_def Let_def
        reached_by_def split: main_place.split list.split prod.split)
  show "inv_reached (sys_join s)"
    using inv
    by (auto simp: sys_join_def inv_reached_def wb_join_def reached_inactive split: main_place.split list.split option.split)
  show "inv_reached (sys_restart ok s)"
    using inv by (auto simp: sys_restart_def restart_one_effect inv_reached_def restarted_def wb_start_def Let_def
        reached_by_def simp del: tm_restart_tasks.simps split: main_place.split list.split)
  show "inv_reached (sys_call_stop clear s)"
    using inv by (auto simp: sys_call_stop_def inv_reached_def request_stop_def)
  show "inv_reached (sys_call_restart s)" if "sy_main s = MainIdle \<Longrightarrow> sys_quiet s"
    using inv that
    by (auto simp: sys_call_restart_def inv_reached_def tm_new_source_def Let_def sys_quiet_def reached_inactive)
qed

lemma sys_step_reached:
  assumes inv: "inv_reached s" and step: "sys_step a s = Inr s'"
    and quiet: "a = CallRestart \<Longrightarrow> sy_main s = MainIdle \<Longrightarrow> sys_quiet s"
  shows "inv_reached s'"
proof (cases a)
  case (Loop u t now)
  with step inv show ?thesis by (auto simp: sys_loop_def split: phase.splits sum.splits if_splits)
next
  case (SendNext u)
  with step inv show ?thesis by (auto simp: sys_send_def simp del: chain_step.simps split: phase.splits sum.splits)
next
  case (CallCommand cmd)
  with step inv show ?thesis
    by (auto simp: sys_call_command_def simp del: chain_step.simps split: if_splits sum.splits)
qed (use inv step quiet sys_threads_reached sys_main_reached in auto)

lemma sys_exec_reached:
  "inv_reached s \<Longrightarrow> restarts_quiet as s \<Longrightarrow> sys_exec as s = Inr s' \<Longrightarrow> inv_reached s'"
proof (induction as arbitrary: s)
  case (Cons a as)
  then obtain s1 where s1: "sys_step a s = Inr s1" "sys_exec as s1 = Inr s'" by (auto split: sum.splits)
  from sys_step_reached [OF Cons.prems(1) s1(1)] Cons.prems(2) have "inv_reached s1" by auto
  with Cons.IH [of s1] Cons.prems(2) s1 show ?case by simp
qed simp

lemma sys_start_reached: "inv_reached (sys_start oi)"
  by (simp add: inv_reached_def sys_start_def tm_new_def wb_new_def reached_by_def)

subsection \<open>Stopping ends\<close>

text \<open>The steps a thread still owes once the stop is requested, and those of the main thread.\<close>

fun phase_owed :: "phase \<Rightarrow> place \<Rightarrow> nat \<Rightarrow> nat" where
  "phase_owed NoThread p n = 0"
| "phase_owed Finished p n = 0"
| "phase_owed Leaving p n = 1"
| "phase_owed (InRun _) AtTest n = 2 + n"
| "phase_owed (InRun _) AtWait n = 5 + n"
| "phase_owed (Spawned _) p n = 3 + n"

definition thread_owed :: "system \<Rightarrow> tid \<Rightarrow> nat" where
  "thread_owed s u = phase_owed (wb_phase (worker s u)) (sy_place s u) (length (ch_outbox (sy_chain s) u))"

fun main_owed :: "main_place \<Rightarrow> nat" where
  "main_owed (Joining clear is) = Suc (length is)"
| "main_owed _ = 0"

definition sys_owed :: "system \<Rightarrow> nat" where
  "sys_owed s = main_owed (sy_main s) + (\<Sum>u \<in> {OI, AO, PT, TT, RT}. thread_owed s u)"

definition stopping :: "system \<Rightarrow> bool" where
  "stopping s \<longleftrightarrow> sys_inv s \<and> inv_reached s \<and> ss_requested (tm_sources (sy_tm s) (tm_current (sy_tm s))) \<and>
     (case sy_main s of MainIdle \<Rightarrow> True | Joining clear is \<Rightarrow> True | _ \<Rightarrow> False)"

fun is_call :: "sys_action \<Rightarrow> bool" where
  "is_call CallStop = True"
| "is_call CallTerminate = True"
| "is_call CallRestart = True"
| "is_call (CallCommand _) = True"
| "is_call _ = False"

lemma owed_less_thread:
  assumes "sy_main s' = sy_main s" and "thread_owed s' u < thread_owed s u"
    and "\<And>v. v \<noteq> u \<Longrightarrow> thread_owed s' v = thread_owed s v"
  shows "sys_owed s' < sys_owed s"
  using assms(1,2) assms(3) [of OI] assms(3) [of AO] assms(3) [of PT] assms(3) [of TT] assms(3) [of RT]
  unfolding sys_owed_def by (cases u; simp)

lemma owed_less_main:
  assumes "main_owed (sy_main s') < main_owed (sy_main s)" and "\<And>v. thread_owed s' v = thread_owed s v"
  shows "sys_owed s' < sys_owed s"
  using assms by (simp add: sys_owed_def)

lemma phase_owed_join: "wb_join w = Some w' \<Longrightarrow> wb_inv w \<Longrightarrow> phase_owed (wb_phase w') p n = phase_owed (wb_phase w) p n"
  by (auto simp: wb_join_def split: if_splits)

text \<open>An iteration performs at most two sends.\<close>

lemma loop_outbox:
  assumes inv: "chain_inv ch" and idle: "ch_outbox ch u = []"
    and step: "chain_step (if u = OI then Tick t else Take u now) ch = Inr ch'"
  shows "length (ch_outbox ch' u) \<le> 2"
proof (cases u)
  case OI
  with step idle obtain cmd rb sends count oi where
    iter: "oi_iteration cmd t (ch_count ch) (ch_oi ch\<lparr>oi_cmdBuffer := rb\<rparr>) = Some (sends, count, oi)"
    and "ch_outbox ch' OI = sends"
    by (auto simp: chain_tick_def split: sum.splits option.splits prod.splits)
  moreover from wired_iteration [OF _ _ iter, of "sender_to AO" "sender_to PT"] inv
  have "length sends \<le> 2" by (auto simp: chain_inv_def inv_wired_def)
  ultimately show ?thesis using OI by simp
next
  case AO
  with step idle show ?thesis
    by (auto simp: chain_take_def chain_handle_def ao_iteration_def Let_def
        split: if_splits option.splits prod.splits)
qed (use step idle in \<open>auto simp: chain_take_def chain_handle_def pt_iteration_def tt_iteration_def
      split: if_splits option.splits prod.splits\<close>)

lemma reached_cases [consumes 1, case_names inactive leaving spawned running]:
  assumes "inv_reached s"
  obtains (inactive) "\<not> body_active (wb_phase (worker s u))"
  | (leaving) "wb_phase (worker s u) = Leaving"
  | (spawned) "wb_phase (worker s u) = Spawned (Some (tm_current (sy_tm s)))"
  | (running) "wb_phase (worker s u) = InRun (CombinedToken (tm_current (sy_tm s)))"
proof -
  have "reached_by (tm_current (sy_tm s)) (wb_phase (worker s u))" using assms by (simp add: inv_reached_def)
  then show ?thesis unfolding reached_by_def using that by auto
qed

text \<open>The steps of the threads once the stop is requested.\<close>

lemma stopping_begin:
  assumes st: "stopping s"
  shows "sys_begin u s = s \<or> sys_owed (sys_begin u s) < sys_owed s"
proof (cases "wb_phase (worker s u)")
  case (Spawned ext)
  then have "ch_outbox (sy_chain s) u = []" using st by (auto simp: stopping_def sys_inv_def inv_outbox_def)
  moreover have "\<exists>tok. wb_phase (wb_body_begin (tm_sources (sy_tm s)) (worker s u)) = InRun tok"
    using Spawned by (simp add: wb_body_begin_def split: option.split)
  ultimately have "sys_owed (sys_begin u s) < sys_owed s"
    by (intro owed_less_thread [of _ _ u]) (auto simp: Spawned sys_begin_def thread_owed_def)
  then show ?thesis by simp
qed (simp_all add: sys_begin_def)

lemma stopping_test:
  assumes st: "stopping s"
  shows "sys_test u s = s \<or> sys_owed (sys_test u s) < sys_owed s"
proof (cases "\<exists>tok. wb_phase (worker s u) = InRun tok \<and> sy_place s u = AtTest \<and> ch_outbox (sy_chain s) u = []")
  case True
  then obtain tok where run: "wb_phase (worker s u) = InRun tok" and at: "sy_place s u = AtTest"
    and idle: "ch_outbox (sy_chain s) u = []" by blast
  have "inv_reached s" using st by (simp add: stopping_def)
  then have "tok = CombinedToken (tm_current (sy_tm s))" using run by (cases rule: reached_cases [of s u]) auto
  then have req: "token_requested (tm_sources (sy_tm s)) tok (worker s u)"
    using st by (simp add: stopping_def token_requested_def)
  then have "sys_test u s = set_worker u (wb_body_return (worker s u)) s" using run at idle by (simp add: sys_test_def)
  moreover have "sys_owed (set_worker u (wb_body_return (worker s u)) s) < sys_owed s"
    using run at idle by (intro owed_less_thread [of _ _ u]) (auto simp: thread_owed_def wb_body_return_def)
  ultimately show ?thesis by simp
next
  case False
  then show ?thesis by (auto simp: sys_test_def split: phase.splits)
qed

lemma stopping_finish: "sys_finish u s = s \<or> sys_owed (sys_finish u s) < sys_owed s"
proof (cases "wb_phase (worker s u) = Leaving")
  case True
  then have "sys_owed (sys_finish u s) < sys_owed s"
    by (intro owed_less_thread [of _ _ u]) (auto simp: sys_finish_def thread_owed_def wb_body_mark_stopped_def)
  then show ?thesis by simp
next
  case False
  then have "wb_body_mark_stopped (worker s u) = worker s u" by (auto simp: wb_body_mark_stopped_def split: phase.split)
  then show ?thesis by (simp add: sys_finish_def)
qed

lemma stopping_loop:
  assumes st: "stopping s" and step: "sys_loop u t now s = Inr s'"
  shows "s' = s \<or> sys_owed s' < sys_owed s"
proof (cases "\<exists>tok. wb_phase (worker s u) = InRun tok \<and> sy_place s u = AtWait")
  case True
  then obtain tok where run: "wb_phase (worker s u) = InRun tok" and wait: "sy_place s u = AtWait" by blast
  have inv: "sys_inv s" using st by (simp add: stopping_def)
  then have idle: "ch_outbox (sy_chain s) u = []" using wait by (auto simp: sys_inv_def inv_outbox_def)
  from step run wait obtain ch where ch: "chain_step (if u = OI then Tick t else Take u now) (sy_chain s) = Inr ch"
    and s': "s' = set_place u AtTest s\<lparr>sy_chain := ch\<rparr>" by (auto simp: sys_loop_def split: sum.splits)
  have "length (ch_outbox ch u) \<le> 2" using loop_outbox [OF active_whole [OF inv, of u] idle ch] run by simp
  moreover have "ch_outbox ch v = ch_outbox (sy_chain s) v" if "v \<noteq> u" for v
    using that by (intro chain_step_outbox [OF ch]) auto
  ultimately have "sys_owed s' < sys_owed s"
    using run wait s' by (intro owed_less_thread [of _ _ u]) (auto simp: thread_owed_def)
  then show ?thesis by simp
next
  case False
  with step show ?thesis by (auto simp: sys_loop_def split: phase.splits if_splits)
qed

lemma stopping_send:
  assumes st: "stopping s" and step: "sys_send u s = Inr s'"
  shows "s' = s \<or> sys_owed s' < sys_owed s"
proof (cases "\<exists>tok. wb_phase (worker s u) = InRun tok \<and> ch_outbox (sy_chain s) u \<noteq> []")
  case True
  then obtain tok x rest where run: "wb_phase (worker s u) = InRun tok"
    and ob: "ch_outbox (sy_chain s) u = x # rest" by (cases "ch_outbox (sy_chain s) u") auto
  have at: "sy_place s u = AtTest" using st ob by (auto simp: stopping_def sys_inv_def inv_outbox_def)
  from step run obtain ch where ch: "chain_step (Flush u) (sy_chain s) = Inr ch" and s': "s' = s\<lparr>sy_chain := ch\<rparr>"
    by (auto simp: sys_send_def simp del: chain_step.simps split: sum.splits)
  have "ch_outbox ch u = rest" using ch ob by (auto split: prod.splits sum.splits)
  moreover have "ch_outbox ch v = ch_outbox (sy_chain s) v" if "v \<noteq> u" for v
    using that by (intro chain_step_outbox [OF ch]) auto
  ultimately have "sys_owed s' < sys_owed s"
    using run at ob s' by (intro owed_less_thread [of _ _ u]) (auto simp: thread_owed_def)
  then show ?thesis by simp
next
  case False
  with step show ?thesis by (auto simp: sys_send_def split: phase.splits)
qed

lemma stopping_join:
  assumes st: "stopping s"
  shows "sys_join s = s \<or> sys_owed (sys_join s) < sys_owed s"
proof (cases "sy_main s")
  case (Joining clear "is")
  show ?thesis
  proof (cases "is")
    case Nil
    with Joining have "sys_owed (sys_join s) < sys_owed s"
      by (intro owed_less_main) (auto simp: sys_join_def thread_owed_def)
    then show ?thesis by simp
  next
    case (Cons i js)
    show ?thesis
    proof (cases "wb_join (worker s i)")
      case (Some w)
      have "wb_inv (worker s i)" using st by (simp add: stopping_def sys_inv_def inv_workers_def)
      with Some Joining Cons have "sys_owed (sys_join s) < sys_owed s"
        by (intro owed_less_main) (auto simp: sys_join_def thread_owed_def phase_owed_join)
      then show ?thesis by simp
    qed (use Joining Cons in \<open>simp add: sys_join_def\<close>)
  qed
qed (simp_all add: sys_join_def)

lemma stopping_frame:
  assumes st: "stopping s" and step: "sys_step a s = Inr s'" and no_call: "\<not> is_call a"
  shows "tm_sources (sy_tm s') = tm_sources (sy_tm s)" and "tm_current (sy_tm s') = tm_current (sy_tm s)"
    and "case sy_main s' of MainIdle \<Rightarrow> True | Joining clear is \<Rightarrow> True | _ \<Rightarrow> False"
  using assms
  by (cases a; auto simp: stopping_def sys_begin_def sys_test_def sys_loop_def sys_send_def sys_finish_def
      sys_add_def sys_join_def sys_restart_def simp del: chain_step.simps
      split: phase.splits sum.splits main_place.splits list.splits option.splits if_splits)+

lemma stopping_step:
  assumes st: "stopping s" and step: "sys_step a s = Inr s'" and no_call: "\<not> is_call a"
  shows "stopping s'" and "s' = s \<or> sys_owed s' < sys_owed s"
proof -
  have idle: "sys_add ok s = s" "sys_restart ok s = s" for ok
    using st by (auto simp: stopping_def sys_add_def sys_restart_def split: main_place.splits)
  have "sys_inv s'"
  proof (cases "a = AddNext False")
    case True
    with step idle st show ?thesis by (simp add: stopping_def)
  next
    case False
    with st step show ?thesis by (auto simp: stopping_def intro: sys_step_keeps)
  qed
  moreover from no_call have "a \<noteq> CallRestart" by auto
  then have "inv_reached s'" using sys_step_reached [OF _ step] st by (simp add: stopping_def)
  ultimately show "stopping s'"
    using st stopping_frame [OF assms] by (simp add: stopping_def)
  show "s' = s \<or> sys_owed s' < sys_owed s"
  proof (cases a)
    case (Loop u t now)
    with step stopping_loop [OF st] show ?thesis by simp
  next
    case (SendNext u)
    with step stopping_send [OF st] show ?thesis by simp
  next
    case (Finish u)
    with step stopping_finish [of u s] show ?thesis by simp
  qed (use step no_call idle stopping_begin [OF st] stopping_test [OF st] stopping_join [OF st]
       in auto)
qed

text \<open>A schedule in which every step does something, and a state in which none can.\<close>

fun changing :: "sys_action list \<Rightarrow> system \<Rightarrow> bool" where
  "changing [] s = True"
| "changing (a # as) s = (\<not> is_call a \<and>
     (case sys_step a s of Inl _ \<Rightarrow> False | Inr s' \<Rightarrow> s' \<noteq> s \<and> changing as s'))"

definition at_rest :: "system \<Rightarrow> bool" where
  "at_rest s \<longleftrightarrow> (\<forall>a. is_call a \<or> sys_step a s = Inr s)"

lemma stopping_exec:
  "stopping s \<Longrightarrow> changing as s \<Longrightarrow>
     \<exists>s'. sys_exec as s = Inr s' \<and> stopping s' \<and> length as + sys_owed s' \<le> sys_owed s"
proof (induction as arbitrary: s)
  case (Cons a as)
  then obtain s1 where s1: "sys_step a s = Inr s1" "s1 \<noteq> s" "changing as s1" "\<not> is_call a"
    by (auto split: sum.splits)
  from stopping_step [OF Cons.prems(1) s1(1,4)] s1(2) have "stopping s1" "sys_owed s1 < sys_owed s" by auto
  with Cons.IH [of s1] s1 show ?case by fastforce
qed simp

lemma at_rest_quiet:
  assumes st: "stopping s" and rest: "at_rest s"
  shows "sys_quiet s" and "sy_main s = MainIdle"
proof -
  have inv: "sys_inv s" and reached: "inv_reached s" using st by (simp_all add: stopping_def)
  have same: "sys_begin u s = s" "sys_test u s = s" "sys_finish u s = s" "sys_join s = s"
    "sys_loop u t now s = Inr s" "sys_send u s = Inr s" for u t now
    using rest [unfolded at_rest_def, rule_format, of "Begin u"] rest [unfolded at_rest_def, rule_format, of "Test u"]
      rest [unfolded at_rest_def, rule_format, of "Finish u"] rest [unfolded at_rest_def, rule_format, of JoinNext]
      rest [unfolded at_rest_def, rule_format, of "Loop u t now"] rest [unfolded at_rest_def, rule_format, of "SendNext u"]
    by simp_all
  have quiet: "\<not> body_active (wb_phase (worker s u))" for u
    using reached
  proof (cases rule: reached_cases [where u = u])
    case leaving
    with arg_cong [OF same(3) [of u], of "\<lambda>s. wb_phase (worker s u)"] show ?thesis
      by (simp add: sys_finish_def wb_body_mark_stopped_def)
  next
    case spawned
    with arg_cong [OF same(1) [of u], of "\<lambda>s. wb_phase (worker s u)"] show ?thesis
      by (simp add: sys_begin_def wb_body_begin_def split: if_splits)
  next
    case running
    show ?thesis
    proof (cases "sy_place s u")
      case AtWait
      with running same(5) [of u "readings_at 0" 0] obtain ch where "set_place u AtTest s\<lparr>sy_chain := ch\<rparr> = s"
        by (cases "chain_step (if u = OI then Tick (readings_at 0) else Take u 0) (sy_chain s)")
          (auto simp: sys_loop_def)
      then have "sy_place (set_place u AtTest s\<lparr>sy_chain := ch\<rparr>) u = sy_place s u" by simp
      then have "sy_place s u = AtTest" by simp
      with AtWait show ?thesis by simp
    next
      case AtTest
      show ?thesis
      proof (cases "ch_outbox (sy_chain s) u")
        case Nil
        with AtTest running st same(2) [of u] have "wb_phase (wb_body_return (worker s u)) = wb_phase (worker s u)"
          by (auto simp: sys_test_def stopping_def token_requested_def
              dest!: arg_cong [where f = "\<lambda>s. wb_phase (worker s u)"])
        with running show ?thesis by (simp add: wb_body_return_def)
      next
        case (Cons x xs)
        obtain ch where flush: "chain_step (Flush u) (sy_chain s) = Inr ch"
          using chain_flush_inv active_whole [OF inv, of u] running by auto
        with same(6) [of u] running have "ch = sy_chain s"
          by (auto simp: sys_send_def simp del: chain_step.simps dest: arg_cong [where f = sy_chain])
        moreover have "ch_outbox ch u = xs" using flush Cons by (auto split: prod.splits sum.splits)
        ultimately show ?thesis using Cons by simp
      qed
    qed
  qed
  then show "sys_quiet s" by (simp add: sys_quiet_def)
  show "sy_main s = MainIdle"
  proof (cases "sy_main s")
    case (Joining clear "is")
    show ?thesis
    proof (cases "is")
      case Nil
      with Joining same(4) show ?thesis
        by (auto simp: sys_join_def dest!: arg_cong [where f = sy_main] split: if_splits)
    next
      case (Cons i js)
      have "wb_inv (worker s i)" using inv by (simp add: sys_inv_def inv_workers_def)
      with quiet join_inactive obtain w where "wb_join (worker s i) = Some w" by blast
      with Joining Cons same(4) show ?thesis by (auto simp: sys_join_def dest!: arg_cong [where f = sy_main])
    qed
  qed (use st in \<open>simp_all add: stopping_def\<close>)
qed

subsection \<open>The stop as the manager sees it\<close>

text \<open>The loop of joins does not see how far the threads have come, only where they end.\<close>

lemma join_tasks_settled:
  assumes "u \<in> set is" and "wb_settle (tm_sources tm) w = wb_settle (tm_sources tm) (tm_workers tm u)"
  shows "tm_join_tasks is (tm\<lparr>tm_workers := (tm_workers tm)(u := w)\<rparr>) = tm_join_tasks is tm"
  using assms
proof (induction "is" arbitrary: tm)
  case (Cons i "is")
  show ?case
  proof (cases "u = i")
    case True
    with Cons.prems show ?thesis by (simp add: fun_upd_def cong: if_cong split: option.split)
  next
    case False
    have "(\<lambda>j. if j = u then w else tm_workers tm j)(i := w') =
        (\<lambda>j. if j = u then w else if j = i then w' else tm_workers tm j)" for w'
      using False by auto
    with Cons.IH [of "tm\<lparr>tm_workers := (tm_workers tm)(i := w')\<rparr>" for w'] Cons.prems False show ?thesis
      by (simp add: fun_upd_def [of "tm_workers tm" u] fun_upd_def [of _ u] split: option.split)
  qed
qed simp

lemma begin_settled:
  "wb_settle src (wb_body_begin src w) = wb_settle src w"
  by (simp add: wb_settle_def wb_body_begin_def Let_def split: phase.split option.split)

lemma return_settled:
  assumes "wb_phase w = InRun tok" and "token_requested src tok w"
  shows "wb_settle src (wb_body_return w) = wb_settle src w"
  using assms by (simp add: wb_settle_def wb_body_begin_def wb_body_return_def Let_def)

lemma mark_settled: "wb_settle src (wb_body_mark_stopped w) = wb_settle src w"
  by (cases "wb_phase w") (simp_all add: wb_settle_def wb_body_begin_def wb_body_mark_stopped_def Let_def)

definition joins_to :: "bool \<Rightarrow> tid ThreadManager option \<Rightarrow> system \<Rightarrow> bool" where
  "joins_to clear result s \<longleftrightarrow> (case sy_main s of
     Joining c is \<Rightarrow> c = clear \<and> map_option (\<lambda>tm. if clear then tm\<lparr>tm_tasks := []\<rparr> else tm)
       (tm_join_tasks is (sy_tm s)) = result
   | _ \<Rightarrow> sy_main s = MainIdle \<and> sys_quiet s \<and> Some (sy_tm s) = result)"

text \<open>A step of a thread replaces its worker by one that ends where it would have ended.\<close>

lemma joins_to_thread:
  assumes st: "stopping s" and to: "joins_to clear result s"
    and settled: "wb_settle (tm_sources (sy_tm s)) w = wb_settle (tm_sources (sy_tm s)) (worker s u)"
    and active: "body_active (wb_phase (worker s u))"
  shows "joins_to clear result (set_worker u w s)"
proof (cases "sy_main s")
  case (Joining c "is")
  with st active have "u \<in> set is" by (auto simp: stopping_def sys_inv_def inv_main_def)
  from join_tasks_settled [OF this settled] to Joining show ?thesis by (simp add: joins_to_def)
qed (use to active in \<open>auto simp: joins_to_def sys_quiet_def\<close>)

lemma joins_to_frame:
  assumes "joins_to clear result s" and "sy_tm s' = sy_tm s" and "sy_main s' = sy_main s"
  shows "joins_to clear result s'"
  using assms by (simp add: joins_to_def sys_quiet_def split: main_place.splits)

lemma joins_to_step:
  assumes st: "stopping s" and to: "joins_to clear result s" and step: "sys_step a s = Inr s'"
    and no_call: "\<not> is_call a"
  shows "joins_to clear result s'"
proof (cases a)
  case (Begin u)
  let ?w = "wb_body_begin (tm_sources (sy_tm s)) (worker s u)"
  have "joins_to clear result (set_worker u ?w s)" if "wb_phase (worker s u) = Spawned ext" for ext
    using that by (intro joins_to_thread [OF st to begin_settled]) simp
  then have "joins_to clear result (set_place u AtTest (set_worker u ?w s)\<lparr>sy_chain := fresh_locals u (sy_chain s)\<rparr>)"
    if "wb_phase (worker s u) = Spawned ext" for ext
    using that joins_to_frame by simp
  with Begin step to show ?thesis by (auto simp: sys_begin_def split: phase.splits)
next
  case (Test u)
  have "joins_to clear result (set_worker u (wb_body_return (worker s u)) s)"
    if "wb_phase (worker s u) = InRun tok" "token_requested (tm_sources (sy_tm s)) tok (worker s u)" for tok
    using that by (intro joins_to_thread [OF st to return_settled]) simp_all
  moreover have "joins_to clear result (set_place u AtWait s)" using joins_to_frame [OF to] by simp
  ultimately show ?thesis using Test step to by (auto simp: sys_test_def split: phase.splits if_splits)
next
  case (Loop u t now)
  with step joins_to_frame [OF to] to show ?thesis
    by (auto simp: sys_loop_def simp del: chain_step.simps split: phase.splits sum.splits if_splits)
next
  case (SendNext u)
  with step joins_to_frame [OF to] to show ?thesis
    by (auto simp: sys_send_def simp del: chain_step.simps split: phase.splits sum.splits)
next
  case (Finish u)
  have "joins_to clear result (set_worker u (wb_body_mark_stopped (worker s u)) s)"
    if "wb_phase (worker s u) = Leaving"
    using that by (intro joins_to_thread [OF st to mark_settled]) simp
  moreover have "sys_finish u s = s" if "wb_phase (worker s u) \<noteq> Leaving"
  proof -
    from that have "wb_body_mark_stopped (worker s u) = worker s u"
      by (auto simp: wb_body_mark_stopped_def split: phase.split)
    then show ?thesis by (simp add: sys_finish_def)
  qed
  ultimately show ?thesis using Finish step to by (cases "wb_phase (worker s u) = Leaving") (auto simp: sys_finish_def)
next
  case JoinNext
  show ?thesis
  proof (cases "sy_main s")
    case (Joining c "is")
    show ?thesis
    proof (cases "is")
      case Nil
      have "sys_quiet s" using st Joining Nil by (simp add: stopping_def sys_inv_def inv_main_def sys_quiet_def)
      with JoinNext step to Joining Nil show ?thesis
        by (auto simp: joins_to_def sys_join_def sys_quiet_def)
    next
      case (Cons i js)
      show ?thesis
      proof (cases "wb_join (worker s i)")
        case (Some w)
        have "wb_inv (worker s i)" using st by (simp add: stopping_def sys_inv_def inv_workers_def)
        with join_someD(3) [OF Some] settle_inactive have "wb_settle (tm_sources (sy_tm s)) (worker s i) = worker s i"
          by blast
        with Some JoinNext step to Joining Cons show ?thesis by (auto simp: joins_to_def sys_join_def)
      qed (use JoinNext step to Joining Cons in \<open>simp add: sys_join_def\<close>)
    qed
  qed (use JoinNext step to in \<open>simp_all add: sys_join_def\<close>)
next
  case (AddNext ok)
  with step st to show ?thesis by (auto simp: stopping_def sys_add_def split: main_place.splits)
next
  case (RestartNext ok)
  with step st to show ?thesis by (auto simp: stopping_def sys_restart_def split: main_place.splits)
qed (use no_call in simp_all)

lemma joins_to_exec:
  "stopping s \<Longrightarrow> joins_to clear result s \<Longrightarrow> sys_exec as s = Inr s' \<Longrightarrow> list_all (Not \<circ> is_call) as \<Longrightarrow>
     stopping s' \<and> joins_to clear result s'"
proof (induction as arbitrary: s)
  case (Cons a as)
  then obtain s1 where s1: "sys_step a s = Inr s1" "sys_exec as s1 = Inr s'" "\<not> is_call a"
    by (auto split: sum.splits)
  from stopping_step(1) [OF Cons.prems(1) s1(1,3)] joins_to_step [OF Cons.prems(1,2) s1(1,3)]
  show ?case using Cons.IH [of s1] s1(2) Cons.prems(4) by simp
qed simp

lemma call_stop_stopping:
  assumes "sys_inv s" and "inv_reached s" and "sy_main s = MainIdle"
  shows "stopping (sys_call_stop clear s)"
    and "joins_to clear (if clear then tm_terminateAllThreads (sy_tm s) else tm_stopAllThreads (sy_tm s))
      (sys_call_stop clear s)"
proof -
  show "stopping (sys_call_stop clear s)"
    using assms sys_call_inv(1) [of s] sys_main_reached(4) [of s]
    by (simp add: stopping_def) (simp add: sys_call_stop_def request_stop_def)
  show "joins_to clear (if clear then tm_terminateAllThreads (sy_tm s) else tm_stopAllThreads (sy_tm s))
      (sys_call_stop clear s)"
    using assms(3) by (auto simp: joins_to_def sys_call_stop_def tm_stopAllThreads_def tm_terminateAllThreads_def
        Let_def option.map_id0 split: option.split)
qed

subsection \<open>Properties\<close>



text \<open>
  Property C22 (refinement): seen from the main thread, the interleaved stop is the one of the manager.
  Whatever the threads do meanwhile, once a call of \<open>stopAllThreads\<close> or \<open>terminateAllThreads\<close> has
  returned the manager, its workers and its stop sources are what \<open>tm_stopAllThreads\<close> or
  \<open>tm_terminateAllThreads\<close> computes from its state at the call.
\<close>

theorem stop_refines_manager:
  assumes "oi_new alloc_ok = Inr oi" and "AddNext False \<notin> set as" and "restarts_quiet as (sys_start oi)"
    and "sys_exec as (sys_start oi) = Inr s" and "sy_main s = MainIdle"
    and "sys_exec ((if clear then CallTerminate else CallStop) # as') s = Inr s'"
    and "list_all (Not \<circ> is_call) as'" and "sy_main s' = MainIdle"
  shows "(if clear then tm_terminateAllThreads (sy_tm s) else tm_stopAllThreads (sy_tm s)) = Some (sy_tm s')"
proof -
  have "sys_inv s" using sys_reach_inv [OF assms(1,2,4)] .
  moreover have "inv_reached s" using sys_exec_reached [OF sys_start_reached assms(3,4)] .
  ultimately have "joins_to clear
      (if clear then tm_terminateAllThreads (sy_tm s) else tm_stopAllThreads (sy_tm s)) s'"
    using call_stop_stopping [of s clear] joins_to_exec [of "sys_call_stop clear s" clear _ as' s'] assms(5-7)
    by (auto split: if_splits)
  with assms(8) show ?thesis by (simp add: joins_to_def)
qed

definition all_stop :: "sys_action list" where
  "all_stop = [Test OI, Finish OI, Test AO, Finish AO, Loop PT (readings_at 0) 0, Test PT, Finish PT,
     Test TT, Finish TT, Test RT, Finish RT] @ replicate 6 JoinNext"

theorem stop_refines_manager_witness:
  "\<exists>s s'. sys_exec (start_up @ one_round) demo_system = Inr s \<and> sys_exec (CallTerminate # all_stop) s = Inr s' \<and>
     sy_main s' = MainIdle \<and> tm_terminateAllThreads (sy_tm s) = Some (sy_tm s')"
proof -
  obtain oi where new: "oi_new (\<lambda>_. True) = Inr oi" using oi_new_exists by blast
  then have demo: "demo_system = sys_start oi" by (simp add: demo_system_def)
  have "(case sys_exec (start_up @ one_round) demo_system of
      Inr s \<Rightarrow> sy_main s = MainIdle \<and>
        (case sys_exec (CallTerminate # all_stop) s of Inr s' \<Rightarrow> sy_main s' = MainIdle | _ \<Rightarrow> False)
    | _ \<Rightarrow> False)" by code_simp
  then obtain s s' where s: "sys_exec (start_up @ one_round) demo_system = Inr s" "sy_main s = MainIdle"
    and s': "sys_exec (CallTerminate # all_stop) s = Inr s'" "sy_main s' = MainIdle"
    by (auto simp del: sys_exec.simps split: sum.splits)
  have "AddNext False \<notin> set (start_up @ one_round)" and "restarts_quiet (start_up @ one_round) demo_system"
    and "list_all (Not \<circ> is_call) all_stop" by code_simp+
  from stop_refines_manager [OF new this(1) this(2) [unfolded demo] s(1) [unfolded demo] s(2), of True all_stop s'] this(3) s'
  have "tm_terminateAllThreads (sy_tm s) = Some (sy_tm s')" by simp
  with s s' show ?thesis by blast
qed

text \<open>
  Property C21 (safety, invariant): a stop loses no message. In every reachable state in which no
  thread runs and the tasks were not terminated, nothing is half sent: the results of all events
  are those received and those of the messages in the queues, in that order, each once.
\<close>

theorem stop_loses_nothing:
  assumes "oi_new alloc_ok = Inr oi" and "AddNext False \<notin> set as" and "sys_exec as (sys_start oi) = Inr s"
    and "sys_quiet s" and "tm_tasks (sy_tm s) \<noteq> []"
  shows "(\<forall>u. ch_outbox (sy_chain s) u = []) \<and>
    map result_of (ch_events (sy_chain s)) = ch_received (sy_chain s) @
      pick_queue as_TransformedData (queued (ch_world (sy_chain s)) RT) @
      map transformed_data (pick_queue as_ProcessedData (queued (ch_world (sy_chain s)) TT)) @
      map (\<lambda>ae. transformed_data (processed_data ae)) (pick_queue as_AppEvent (queued (ch_world (sy_chain s)) PT)) @
      map result_of (pick_queue as_FileEvent (queued (ch_world (sy_chain s)) AO))"
proof -
  have inv: "sys_inv s" using sys_reach_inv [OF assms(1,2,3)] .
  with assms(4) idle_outbox have none: "ch_outbox (sy_chain s) u = []" for u by (auto simp: sys_quiet_def)
  from inv assms(5) have "chain_inv (sy_chain s)" by (auto simp: sys_inv_def torn_down_def)
  with none show ?thesis by (simp add: chain_inv_def inv_flow_def in_flight_def)
qed

definition all_begin :: "sys_action list" where
  "all_begin = [Begin AO, Begin PT, Begin TT, Begin RT]"

theorem stop_loses_nothing_witness:
  "\<exists>s. sys_exec (start_up @ take 5 one_round @ [CallStop] @ all_begin @ all_stop) demo_system = Inr s \<and>
     ch_received (sy_chain s) = [] \<and> length (ch_events (sy_chain s)) = 1 \<and>
     map result_of (ch_events (sy_chain s)) =
       pick_queue as_TransformedData (queued (ch_world (sy_chain s)) RT) @
       map transformed_data (pick_queue as_ProcessedData (queued (ch_world (sy_chain s)) TT)) @
       map (\<lambda>ae. transformed_data (processed_data ae)) (pick_queue as_AppEvent (queued (ch_world (sy_chain s)) PT)) @
       map result_of (pick_queue as_FileEvent (queued (ch_world (sy_chain s)) AO))"
proof -
  let ?as = "start_up @ take 5 one_round @ [CallStop] @ all_begin @ all_stop"
  obtain oi where new: "oi_new (\<lambda>_. True) = Inr oi" using oi_new_exists by blast
  then have demo: "demo_system = sys_start oi" by (simp add: demo_system_def)
  have "(case sys_exec ?as demo_system of
      Inr s \<Rightarrow> sys_quiet s \<and> tm_tasks (sy_tm s) \<noteq> [] \<and> ch_received (sy_chain s) = [] \<and>
        length (ch_events (sy_chain s)) = 1
    | _ \<Rightarrow> False)" by code_simp
  then obtain s where s: "sys_exec ?as demo_system = Inr s" "sys_quiet s" "tm_tasks (sy_tm s) \<noteq> []"
    "ch_received (sy_chain s) = []" "length (ch_events (sy_chain s)) = 1" by (auto split: sum.splits)
  have "AddNext False \<notin> set ?as" by code_simp
  from conjunct2 [OF stop_loses_nothing [OF new this s(1) [unfolded demo] s(2,3)]] s
  show ?thesis by (intro exI [of _ s]) simp
qed

end
