(* ===== verification/SystemRestart.thy ===== *)
theory SystemRestart
  imports SystemStop
begin

text \<open>
  Running and restarting the threads of the system: what is in the queues, also what a stop left there,
  can always be delivered by the running threads alone.
\<close>

subsection \<open>Running threads deliver\<close>

definition sys_live :: "system \<Rightarrow> bool" where
  "sys_live s \<longleftrightarrow> sys_inv s \<and> (\<forall>u. \<exists>tok. wb_phase (worker s u) = InRun tok \<and>
     \<not> token_requested (tm_sources (sy_tm s)) tok (worker s u))"

text \<open>The actions of running threads; the clock of the observer is read only in its own loop.\<close>

fun by_thread :: "sys_action \<Rightarrow> bool" where
  "by_thread (Test u) = True"
| "by_thread (Loop u _ _) = (u \<noteq> OI)"
| "by_thread (SendNext u) = True"
| "by_thread _ = False"

lemma live_phase:
  assumes "sys_live s"
  obtains tok where "wb_phase (worker s u) = InRun tok"
    and "\<not> token_requested (tm_sources (sy_tm s)) tok (worker s u)"
  using assms by (auto simp: sys_live_def)

lemma live_whole: "sys_live s \<Longrightarrow> chain_inv (sy_chain s)"
  using active_whole [of s OI] live_phase [of s OI] by (metis body_active.simps(4) sys_live_def)

lemma sys_live_step:
  assumes live: "sys_live s" and step: "sys_step a s = Inr s'" and "by_thread a"
  shows "sys_live s' \<and> sy_tm s' = sy_tm s \<and> sy_main s' = sy_main s"
proof -
  have "a \<noteq> AddNext False" using assms(3) by auto
  then have "sys_inv s'" using live step by (auto simp: sys_live_def intro: sys_step_keeps)
  moreover have "sy_tm s' = sy_tm s \<and> sy_main s' = sy_main s"
  proof (cases a)
    case (Test u)
    obtain tok where "wb_phase (worker s u) = InRun tok"
      and "\<not> token_requested (tm_sources (sy_tm s)) tok (worker s u)" using live by (rule live_phase)
    with Test step show ?thesis by (auto simp: sys_test_def)
  qed (use step assms(3) in \<open>auto simp: sys_loop_def sys_send_def simp del: chain_step.simps
        split: phase.splits if_splits sum.splits\<close>)
  ultimately show ?thesis using live by (simp add: sys_live_def)
qed

text \<open>Every passing of a message by the chain is at most two actions of a running thread.\<close>

lemma live_passing:
  assumes live: "sys_live s" and pass: "passing_on a" and step: "chain_step a (sy_chain s) = Inr ch"
  shows "\<exists>as s'. list_all by_thread as \<and> sys_exec as s = Inr s' \<and> sys_live s' \<and> sy_chain s' = ch \<and>
    sy_tm s' = sy_tm s \<and> sy_main s' = sy_main s"
proof (cases a)
  case (Flush u)
  obtain tok where "wb_phase (worker s u) = InRun tok" using live by (rule live_phase)
  with step Flush have run: "sys_step (SendNext u) s = Inr (s\<lparr>sy_chain := ch\<rparr>)"
    by (simp add: sys_send_def del: chain_step.simps)
  with sys_live_step [OF live run] show ?thesis
    by (intro exI [of _ "[SendNext u]"] exI [of _ "s\<lparr>sy_chain := ch\<rparr>"]) (simp del: sys_step.simps)
next
  case (Take u now)
  obtain tok where run: "wb_phase (worker s u) = InRun tok"
    and token: "\<not> token_requested (tm_sources (sy_tm s)) tok (worker s u)" using live by (rule live_phase)
  show ?thesis
  proof (cases "u = OI \<or> ch_outbox (sy_chain s) u \<noteq> []")
    case True
    with step Take have "ch = sy_chain s" by auto
    then show ?thesis using live by (intro exI [of _ "[]"] exI [of _ s]) simp
  next
    case False
    let ?s1 = "set_place u AtWait s" and ?s2 = "\<lambda>r. set_place u AtTest r\<lparr>sy_chain := ch\<rparr>"
    have loop: "sys_step (Loop u (readings_at 0) now) r = Inr (?s2 r)"
      if "sy_chain r = sy_chain s" "sy_tm r = sy_tm s" "sy_place r u = AtWait" for r
      using that run step Take False by (simp add: sys_loop_def del: chain_step.simps)
    show ?thesis
    proof (cases "sy_place s u")
      case AtWait
      from loop [OF refl refl this] sys_live_step [OF live, of "Loop u (readings_at 0) now"] False show ?thesis
        by (intro exI [of _ "[Loop u (readings_at 0) now]"] exI [of _ "?s2 s"]) (simp del: sys_step.simps)
    next
      case AtTest
      with run token False have test: "sys_step (Test u) s = Inr ?s1" by (simp add: sys_test_def)
      with sys_live_step [OF live test] have live1: "sys_live ?s1" by simp
      have step2: "sys_step (Loop u (readings_at 0) now) ?s1 = Inr (?s2 ?s1)" by (rule loop) simp_all
      from sys_live_step [OF live1 step2] test step2 False show ?thesis
        by (intro exI [of _ "[Test u, Loop u (readings_at 0) now]"] exI [of _ "?s2 ?s1"]) (simp del: sys_step.simps)
    qed
  qed
qed (use pass in \<open>simp_all add: passing_on_def\<close>)

lemma live_passing_all:
  "sys_live s \<Longrightarrow> \<forall>a \<in> set cs. passing_on a \<Longrightarrow> chain_exec cs (sy_chain s) = Inr ch \<Longrightarrow>
     \<exists>as s'. list_all by_thread as \<and> sys_exec as s = Inr s' \<and> sys_live s' \<and> sy_chain s' = ch \<and>
       sy_tm s' = sy_tm s \<and> sy_main s' = sy_main s"
proof (induction cs arbitrary: s)
  case Nil
  then show ?case by (intro exI [of _ "[]"] exI [of _ s]) simp
next
  case (Cons c cs)
  then obtain ch1 where ch1: "chain_step c (sy_chain s) = Inr ch1" "chain_exec cs ch1 = Inr ch"
    by (auto split: sum.splits)
  from live_passing [OF Cons.prems(1) _ ch1(1)] Cons.prems(2) obtain as s1 where
    s1: "list_all by_thread as" "sys_exec as s = Inr s1" "sys_live s1" "sy_chain s1 = ch1"
    "sy_tm s1 = sy_tm s" "sy_main s1 = sy_main s" by auto
  with Cons.IH [of s1] Cons.prems(2) ch1(2) obtain bs s' where
    "list_all by_thread bs" "sys_exec bs s1 = Inr s'" "sys_live s'" "sy_chain s' = ch"
    "sy_tm s' = sy_tm s1" "sy_main s' = sy_main s1" by auto
  with s1 show ?case by (intro exI [of _ "as @ bs"] exI [of _ s']) (simp add: sys_exec_append)
qed

definition delivered :: "system \<Rightarrow> bool" where
  "delivered s \<longleftrightarrow> ch_received (sy_chain s) = map result_of (ch_events (sy_chain s)) \<and>
     (\<forall>u. ch_outbox (sy_chain s) u = [] \<and> (u \<noteq> OI \<longrightarrow> queued (ch_world (sy_chain s)) u = []))"

lemma live_delivers:
  assumes live: "sys_live s" and few: "int (length (ch_events (sy_chain s))) \<le> int_max"
  shows "\<exists>as s'. list_all by_thread as \<and> sys_exec as s = Inr s' \<and> delivered s' \<and>
    ch_events (sy_chain s') = ch_events (sy_chain s) \<and> sy_tm s' = sy_tm s \<and> sy_main s' = sy_main s"
proof -
  from chain_drain [OF live_whole [OF live] few] obtain cs ch where cs: "\<forall>a \<in> set cs. passing_on a"
    "chain_exec cs (sy_chain s) = Inr ch" and inv: "chain_inv ch" and zero: "chain_weight ch = 0"
    and ev: "ch_events ch = ch_events (sy_chain s)" by blast
  from live_passing_all [OF live cs] obtain as s' where "list_all by_thread as" "sys_exec as s = Inr s'"
    "sy_chain s' = ch" "sy_tm s' = sy_tm s" "sy_main s' = sy_main s" by blast
  moreover have "ch_received ch = map result_of (ch_events ch)"
    using inv drained_empty [OF zero] by (simp add: chain_inv_def inv_flow_def in_flight_def)
  ultimately show ?thesis using drained_empty [OF zero] ev
    by (intro exI [of _ as] exI [of _ s']) (simp add: delivered_def)
qed

subsection \<open>A restart\<close>

definition restart_up :: "sys_action list" where
  "restart_up = CallRestart # replicate 6 (RestartNext True) @ map Begin [OI, AO, PT, TT, RT]"

text \<open>The manager has all five tasks or, after a termination, none.\<close>

definition tasks_whole :: "system \<Rightarrow> bool" where
  "tasks_whole s \<longleftrightarrow> (case sy_main s of
     Adding _ \<Rightarrow> True
   | _ \<Rightarrow> tm_tasks (sy_tm s) = [] \<or> tm_tasks (sy_tm s) = [OI, AO, PT, TT, RT])"

lemma sys_step_tasks:
  assumes "sys_inv s" and "tasks_whole s" and "sys_step a s = Inr s'"
  shows "tasks_whole s'"
proof (cases a)
  case (AddNext ok)
  with assms show ?thesis
    by (auto simp: tasks_whole_def sys_add_def sys_inv_def inv_main_def split: main_place.splits list.splits)
next
  case JoinNext
  with assms(2,3) show ?thesis
    by (auto simp: tasks_whole_def sys_join_def split: main_place.splits list.splits option.splits if_splits)
next
  case (RestartNext ok)
  with assms(2,3) show ?thesis
    by (auto simp: tasks_whole_def sys_restart_def restart_one_effect simp del: tm_restart_tasks.simps
        split: main_place.splits list.splits)
qed (use assms(2,3) in \<open>auto simp: tasks_whole_def sys_begin_def sys_test_def sys_loop_def sys_send_def
       sys_finish_def sys_call_stop_def sys_call_restart_def sys_call_command_def simp del: chain_step.simps
       split: phase.splits sum.splits if_splits main_place.splits\<close>)

lemma sys_exec_tasks:
  "sys_inv s \<Longrightarrow> tasks_whole s \<Longrightarrow> AddNext False \<notin> set as \<Longrightarrow> sys_exec as s = Inr s' \<Longrightarrow> tasks_whole s'"
proof (induction as arbitrary: s)
  case (Cons a as)
  then obtain s1 where s1: "sys_step a s = Inr s1" "sys_exec as s1 = Inr s'" by (auto split: sum.splits)
  moreover have "sys_inv s1" using sys_step_keeps [OF Cons.prems(1) _ s1(1)] Cons.prems(3) by auto
  ultimately show ?case using Cons.IH [of s1] sys_step_tasks [OF Cons.prems(1,2) s1(1)] Cons.prems(3) by simp
qed simp

lemma restart_loop:
  "sy_main s = Restarting is \<Longrightarrow> sys_exec (replicate (Suc (length is)) (RestartNext True)) s =
     Inr (s\<lparr>sy_tm := tm_restart_tasks (\<lambda>_. True) (\<lambda>_. True) is (sy_tm s), sy_main := MainIdle\<rparr>)"
  by (induction "is" arbitrary: s) (simp_all add: sys_restart_def)

lemma begin_loop:
  assumes "distinct us" and "ss_exists (tm_sources (sy_tm s) e)"
    and "\<forall>u \<in> set us. wb_phase (worker s u) = Spawned (Some e)"
  shows "\<exists>s'. sys_exec (map Begin us) s = Inr s' \<and> sy_main s' = sy_main s \<and>
    tm_sources (sy_tm s') = tm_sources (sy_tm s) \<and> ch_events (sy_chain s') = ch_events (sy_chain s) \<and>
    (\<forall>u. worker s' u = (if u \<in> set us then (worker s u)\<lparr>wb_phase := InRun (CombinedToken e)\<rparr> else worker s u))"
  using assms
proof (induction us arbitrary: s)
  case (Cons u us)
  let ?s1 = "sys_begin u s"
  have w1: "worker ?s1 v = (if v = u then (worker s u)\<lparr>wb_phase := InRun (CombinedToken e)\<rparr> else worker s v)" for v
    using Cons.prems by (simp add: sys_begin_def wb_body_begin_def stop_possible_def)
  have same: "tm_sources (sy_tm ?s1) = tm_sources (sy_tm s)" "sy_main ?s1 = sy_main s"
    "ch_events (sy_chain ?s1) = ch_events (sy_chain s)"
    using Cons.prems by (simp_all add: sys_begin_def)
  have "\<forall>v \<in> set us. wb_phase (worker ?s1 v) = Spawned (Some e)" using Cons.prems w1 by auto
  from Cons.IH [OF _ _ this] Cons.prems same obtain s' where
    "sys_exec (map Begin us) ?s1 = Inr s'" "sy_main s' = sy_main s"
    "tm_sources (sy_tm s') = tm_sources (sy_tm s)" "ch_events (sy_chain s') = ch_events (sy_chain s)"
    "\<forall>v. worker s' v = (if v \<in> set us then (worker ?s1 v)\<lparr>wb_phase := InRun (CombinedToken e)\<rparr> else worker ?s1 v)"
    by auto
  with w1 Cons.prems(1) show ?case by (intro exI [of _ s']) auto
qed simp

lemma restart_live:
  assumes inv: "sys_inv s" and quiet: "sys_quiet s" and main: "sy_main s = MainIdle"
    and tasks: "tm_tasks (sy_tm s) = [OI, AO, PT, TT, RT]"
  shows "\<exists>s'. sys_exec restart_up s = Inr s' \<and> sys_live s' \<and> sy_main s' = MainIdle \<and>
    ch_events (sy_chain s') = ch_events (sy_chain s)"
proof -
  define five where "five = [OI, AO, PT, TT, RT]"
  have five: "distinct five" "length five = 5" "u \<in> set five" for u by (cases u; simp add: five_def)+
  let ?s1 = "sys_call_restart s"
  define e where "e = tm_current (sy_tm ?s1)"
  have s1: "sy_main ?s1 = Restarting five" "worker ?s1 u = worker s u" "ch_events (sy_chain ?s1) = ch_events (sy_chain s)"
    "tm_sources (sy_tm ?s1) e = \<lparr>ss_requested = False, ss_exists = True\<rparr>" for u
    using main tasks by (simp_all add: sys_call_restart_def tm_new_source_def Let_def e_def five_def)
  obtain s2 where loop: "sys_exec (replicate 6 (RestartNext True)) ?s1 = Inr s2"
    and w2: "\<forall>u. worker s2 u = restarted True True e (worker s u)"
    and s2: "tm_sources (sy_tm s2) = tm_sources (sy_tm ?s1)" "sy_main s2 = MainIdle"
      "ch_events (sy_chain s2) = ch_events (sy_chain s)"
    using restart_loop [OF s1(1)] five(2,3) s1(2,3) by (simp add: restart_tasks_effect e_def numeral_nat)
  have idle: "\<not> body_active (wb_phase (worker s u))" "wb_inv (worker s u)" for u
    using quiet inv by (simp_all add: sys_quiet_def sys_inv_def inv_workers_def)
  then have "\<forall>u \<in> set five. wb_phase (worker s2 u) = Spawned (Some e)"
    using w2 by (simp add: restarted_phase)
  from begin_loop [OF five(1) _ this] s2 s1(4) five(3) obtain s' where
    begins: "sys_exec (map Begin five) s2 = Inr s'" and main': "sy_main s' = MainIdle"
    and src': "tm_sources (sy_tm s') = tm_sources (sy_tm ?s1)" and ev': "ch_events (sy_chain s') = ch_events (sy_chain s)"
    and w': "\<forall>u. worker s' u = (worker s2 u)\<lparr>wb_phase := InRun (CombinedToken e)\<rparr>" by auto
  have run: "sys_exec restart_up s = Inr s'"
    using loop begins by (simp add: restart_up_def sys_exec_append five_def del: list.map)
  have "AddNext False \<notin> set restart_up" by (simp add: restart_up_def)
  from sys_exec_keeps [OF inv this run] have "sys_inv s'" .
  moreover have "\<not> token_requested (tm_sources (sy_tm s')) (CombinedToken e) (worker s' u)" for u
    using w' w2 src' s1(4) idle(1,2) [of u]
    by (auto simp: token_requested_def own_stop_requested_def restarted_def wb_start_def wb_isRunning_def wb_inv_def Let_def)
  ultimately have "sys_live s'" using w' by (simp add: sys_live_def)
  then show ?thesis using run main' ev' by blast
qed

subsection \<open>Properties\<close>

text \<open>
  Property C19 (liveness): a restart delivers what a stop left behind. From every reachable state in
  which the chain was stopped but not terminated, \<open>restartAllThreads\<close> with all threads created is
  followed by actions of the threads alone, without another call and without another event, after which
  every event generated so far has been received, in order, and the queues from the observer on are empty.
\<close>

theorem restart_delivers:
  assumes "oi_new alloc_ok = Inr oi" and "AddNext False \<notin> set as" and "sys_exec as (sys_start oi) = Inr s"
    and "sys_quiet s" and "sy_main s = MainIdle" and "tm_tasks (sy_tm s) \<noteq> []"
    and "int (length (ch_events (sy_chain s))) \<le> int_max"
  shows "\<exists>bs s'. list_all by_thread bs \<and> sys_exec (restart_up @ bs) s = Inr s' \<and> delivered s' \<and>
    ch_events (sy_chain s') = ch_events (sy_chain s)"
proof -
  have inv: "sys_inv s" using sys_reach_inv [OF assms(1-3)] .
  have "tasks_whole (sys_start oi)" by (simp add: tasks_whole_def sys_start_def)
  from sys_exec_tasks [OF sys_start_inv [OF assms(1)] this assms(2,3)] assms(5,6)
  have "tm_tasks (sy_tm s) = [OI, AO, PT, TT, RT]" by (simp add: tasks_whole_def)
  from restart_live [OF inv assms(4,5) this] obtain s1 where s1: "sys_exec restart_up s = Inr s1" "sys_live s1"
    "ch_events (sy_chain s1) = ch_events (sy_chain s)" by blast
  from live_delivers [OF s1(2)] s1(3) assms(7) obtain bs s' where "list_all by_thread bs" "sys_exec bs s1 = Inr s'"
    "delivered s'" "ch_events (sy_chain s') = ch_events (sy_chain s1)" by auto
  with s1 show ?thesis by (intro exI [of _ bs] exI [of _ s']) (simp add: sys_exec_append)
qed

theorem restart_delivers_witness:
  "\<exists>s bs s'. sys_exec (start_up @ take 5 one_round @ [CallStop] @ all_begin @ all_stop) demo_system = Inr s \<and>
     ch_received (sy_chain s) = [] \<and> sys_exec (restart_up @ bs) s = Inr s' \<and> length (ch_received (sy_chain s')) = 1"
proof -
  let ?as = "start_up @ take 5 one_round @ [CallStop] @ all_begin @ all_stop"
  obtain oi where new: "oi_new (\<lambda>_. True) = Inr oi" using oi_new_exists by blast
  then have demo: "demo_system = sys_start oi" by (simp add: demo_system_def)
  have "(case sys_exec ?as demo_system of
      Inr s \<Rightarrow> sys_quiet s \<and> sy_main s = MainIdle \<and> tm_tasks (sy_tm s) \<noteq> [] \<and> ch_received (sy_chain s) = [] \<and>
        length (ch_events (sy_chain s)) = 1
    | _ \<Rightarrow> False)" by code_simp
  then obtain s where s: "sys_exec ?as demo_system = Inr s" "sys_quiet s" "sy_main s = MainIdle"
    "tm_tasks (sy_tm s) \<noteq> []" "ch_received (sy_chain s) = []" "length (ch_events (sy_chain s)) = 1"
    by (auto split: sum.splits)
  have "AddNext False \<notin> set ?as" by code_simp
  from restart_delivers [OF new this s(1) [unfolded demo] s(2-4)] s(6) obtain bs s' where
    "sys_exec (restart_up @ bs) s = Inr s'" "delivered s'" "ch_events (sy_chain s') = ch_events (sy_chain s)"
    by (auto simp: int_max_def)
  with s show ?thesis by (intro exI [of _ s] exI [of _ bs] exI [of _ s']) (simp add: delivered_def)
qed

end
