(* ===== verification/Daemon.thy ===== *)
theory Daemon
  imports Prelude
begin

text \<open>
  The singleton \<open>app::daemon\<close> of \<open>src/include/daemon.hpp\<close> and \<open>src/src/daemon.cpp\<close>.

  \<^item> A handler acts on a world \<open>'w\<close>; it may block, which is \<open>None\<close>, and so do the operations that
    call it.
  \<^item> A signal can arrive between any two accesses to \<open>m_State\<close>. The operations of the main thread
    take the signals that arrive at each of these points as arguments, in the order of arrival.
  \<^item> The results of the system calls of \<open>makeDaemon\<close> are arguments; the files are a map from names to
    contents.
\<close>

datatype State = State_Start | State_Running | State_Reload | State_Stop | State_User1 | State_User2

type_synonym 'w handler = "'w \<Rightarrow> (bool \<times> 'w) option"

record 'w daemon =
  m_State :: State
  m_Pid :: int
  m_IsInitialized :: bool
  m_PidFileName :: string
  m_HandlerBeforeToStart :: "'w handler option"
  m_HandlerReload :: "'w handler option"
  m_HandlerUser1 :: "'w handler option"
  m_HandlerUser2 :: "'w handler option"
  m_HandlerBeforeToExit :: "'w handler option"

definition daemon_new :: "'w daemon" where
  "daemon_new = \<lparr>m_State = State_Start, m_Pid = - 1, m_IsInitialized = False, m_PidFileName = [],
     m_HandlerBeforeToStart = None, m_HandlerReload = None, m_HandlerUser1 = None,
     m_HandlerUser2 = None, m_HandlerBeforeToExit = None\<rparr>"

definition kExitSignal :: int where "kExitSignal = 2"
definition kTerminateSignal :: int where "kTerminateSignal = 15"
definition kReloadSignal :: int where "kReloadSignal = 1"
definition kUserSignal1 :: int where "kUserSignal1 = 10"
definition kUserSignal2 :: int where "kUserSignal2 = 12"

lemmas signal_defs = kExitSignal_def kTerminateSignal_def kReloadSignal_def kUserSignal1_def kUserSignal2_def

definition signalHandler :: "int \<Rightarrow> 'w daemon \<Rightarrow> 'w daemon" where
  "signalHandler signal d =
     (if signal = kExitSignal \<or> signal = kTerminateSignal then d\<lparr>m_State := State_Stop\<rparr>
      else if signal = kReloadSignal then d\<lparr>m_State := State_Reload\<rparr>
      else if signal = kUserSignal1 then d\<lparr>m_State := State_User1\<rparr>
      else if signal = kUserSignal2 then d\<lparr>m_State := State_User2\<rparr>
      else d)"

definition deliver :: "int list \<Rightarrow> 'w daemon \<Rightarrow> 'w daemon" where
  "deliver signals d = fold signalHandler signals d"

definition setStartFunction :: "'w handler \<Rightarrow> 'w daemon \<Rightarrow> 'w daemon" where
  "setStartFunction func d = d\<lparr>m_HandlerBeforeToStart := Some func\<rparr>"

definition setReloadFunction :: "'w handler \<Rightarrow> 'w daemon \<Rightarrow> 'w daemon" where
  "setReloadFunction func d = d\<lparr>m_HandlerReload := Some func\<rparr>"

definition setUser1Function :: "'w handler \<Rightarrow> 'w daemon \<Rightarrow> 'w daemon" where
  "setUser1Function func d = d\<lparr>m_HandlerUser1 := Some func\<rparr>"

definition setUser2Function :: "'w handler \<Rightarrow> 'w daemon \<Rightarrow> 'w daemon" where
  "setUser2Function func d = d\<lparr>m_HandlerUser2 := Some func\<rparr>"

definition setCloseFunction :: "'w handler \<Rightarrow> 'w daemon \<Rightarrow> 'w daemon" where
  "setCloseFunction func d = d\<lparr>m_HandlerBeforeToExit := Some func\<rparr>"

definition getState :: "'w daemon \<Rightarrow> State" where
  "getState d = m_State d"

definition setState :: "State \<Rightarrow> 'w daemon \<Rightarrow> 'w daemon" where
  "setState state d = d\<lparr>m_State := state\<rparr>"

text \<open>The signals for which the constructor installs the handler.\<close>

definition installed_signals :: "int list" where
  "installed_signals = [kExitSignal, kTerminateSignal, kReloadSignal, kUserSignal1, kUserSignal2]"

definition startAll :: "'w daemon \<Rightarrow> 'w \<Rightarrow> (bool \<times> 'w daemon \<times> 'w) option" where
  "startAll d w =
     (let d = d\<lparr>m_State := State_Running\<rparr>
      in case m_HandlerBeforeToStart d of
           None \<Rightarrow> Some (False, d, w)
         | Some f \<Rightarrow> (case f w of None \<Rightarrow> None | Some (ok, w') \<Rightarrow> Some (ok, d, w')))"

definition reloadAll :: "'w daemon \<Rightarrow> bool \<times> 'w daemon" where
  "reloadAll d = (True, d\<lparr>m_State := State_Reload\<rparr>)"

definition closeAll :: "'w daemon \<Rightarrow> 'w \<Rightarrow> (bool \<times> 'w daemon \<times> 'w) option" where
  "closeAll d w =
     (let d = d\<lparr>m_State := State_Stop\<rparr>
      in case m_HandlerBeforeToExit d of
           None \<Rightarrow> Some (False, d, w)
         | Some f \<Rightarrow> (case f w of None \<Rightarrow> None | Some (ok, w') \<Rightarrow> Some (ok, d, w')))"

text \<open>
  The three \<open>performXIfRequired\<close> have one body: \<open>before\<close> are the signals up to the assignment of
  \<open>Running\<close>, \<open>during\<close> those while the handler runs.
\<close>

definition perform ::
  "'w handler option \<Rightarrow> int list \<Rightarrow> int list \<Rightarrow> 'w daemon \<Rightarrow> 'w \<Rightarrow> ('w daemon \<times> 'w) option"
where
  "perform func before during d w =
     (let d = (deliver before d)\<lparr>m_State := State_Running\<rparr>
      in case func of
           None \<Rightarrow> Some (deliver during d, w)
         | Some f \<Rightarrow>
             (case f w of
                None \<Rightarrow> None
              | Some (ok, w') \<Rightarrow>
                  let d = deliver during d
                  in Some (if \<not> ok then d\<lparr>m_State := State_Stop\<rparr> else d, w')))"

definition performReloadIfRequired ::
  "int list \<Rightarrow> int list \<Rightarrow> 'w daemon \<Rightarrow> 'w \<Rightarrow> ('w daemon \<times> 'w) option"
where
  "performReloadIfRequired before during d w = perform (m_HandlerReload d) before during d w"

definition performUser1IfRequired ::
  "int list \<Rightarrow> int list \<Rightarrow> 'w daemon \<Rightarrow> 'w \<Rightarrow> ('w daemon \<times> 'w) option"
where
  "performUser1IfRequired before during d w = perform (m_HandlerUser1 d) before during d w"

definition performUser2IfRequired ::
  "int list \<Rightarrow> int list \<Rightarrow> 'w daemon \<Rightarrow> 'w \<Rightarrow> ('w daemon \<times> 'w) option"
where
  "performUser2IfRequired before during d w = perform (m_HandlerUser2 d) before during d w"

text \<open>
  \<open>isRunning\<close> reads \<open>m_State\<close> up to four times; \<open>read2\<close>, \<open>read3\<close> and \<open>final\<close> are the signals that arrive
  before the second, the third and the last of these accesses.
\<close>

record arrivals =
  read2 :: "int list"
  read3 :: "int list"
  before_run :: "int list"
  in_handler :: "int list"
  final :: "int list"

definition quiet :: arrivals where
  "quiet = \<lparr>read2 = [], read3 = [], before_run = [], in_handler = [], final = []\<rparr>"

definition isRunning :: "arrivals \<Rightarrow> 'w daemon \<Rightarrow> 'w \<Rightarrow> (bool \<times> 'w daemon \<times> 'w) option" where
  "isRunning arr d w =
     (case
        (if m_State d = State_Reload then performReloadIfRequired (before_run arr) (in_handler arr) d w
         else
           let d = deliver (read2 arr) d
           in if m_State d = State_User1 then performUser1IfRequired (before_run arr) (in_handler arr) d w
              else
                let d = deliver (read3 arr) d
                in if m_State d = State_User2 then performUser2IfRequired (before_run arr) (in_handler arr) d w
                   else Some (d, w))
      of None \<Rightarrow> None
       | Some (d, w) \<Rightarrow> let d = deliver (final arr) d in Some (m_State d = State_Running, d, w))"

subsection \<open>Becoming a daemon\<close>

definition writePidToFile ::
  "bool \<Rightarrow> int \<Rightarrow> string \<Rightarrow> (string \<Rightarrow> string option) \<Rightarrow> bool \<times> (string \<Rightarrow> string option)"
where
  "writePidToFile open_ok pid pidFileName files =
     (if pidFileName \<noteq> [] then
        (if \<not> open_ok then (False, files) else (True, files(pidFileName \<mapsto> decimal_int pid)))
      else (True, files))"

record syscalls =
  sys_fork :: int
  sys_setsid :: int
  sys_chdir :: int
  sys_open_ok :: bool
  sys_getpid :: int

datatype 'w made = ParentExits | Made bool "'w daemon" "string \<Rightarrow> string option"

definition makeDaemon ::
  "syscalls \<Rightarrow> string \<Rightarrow> 'w daemon \<Rightarrow> (string \<Rightarrow> string option) \<Rightarrow> 'w made"
where
  "makeDaemon sys pidFileName d files =
     (if \<not> m_IsInitialized d then
        let d = d\<lparr>m_IsInitialized := True, m_PidFileName := pidFileName\<rparr>;
            pid = sys_fork sys
        in if pid < 0 then Made False d files
           else if pid > 0 then ParentExits
           else if sys_setsid sys < 0 then Made False d files
           else if sys_chdir sys < 0 then Made False d files
           else
             (case writePidToFile (sys_open_ok sys) (sys_getpid sys) pidFileName files of
                (written, files) \<Rightarrow>
                  if written then Made True (d\<lparr>m_Pid := sys_getpid sys\<rparr>) files
                  else Made False d files)
      else Made False d files)"

lemmas daemon_defs = signalHandler_def performReloadIfRequired_def performUser1IfRequired_def
  performUser2IfRequired_def perform_def isRunning_def setState_def startAll_def closeAll_def

subsection \<open>Signals\<close>

definition state_of_signal :: "int \<Rightarrow> State option" where
  "state_of_signal signal =
     (if signal \<in> {kExitSignal, kTerminateSignal} then Some State_Stop
      else if signal = kReloadSignal then Some State_Reload
      else if signal = kUserSignal1 then Some State_User1
      else if signal = kUserSignal2 then Some State_User2
      else None)"

lemma signalHandler_state: "signalHandler s d = (case state_of_signal s of None \<Rightarrow> d | Some st \<Rightarrow> d\<lparr>m_State := st\<rparr>)"
  by (simp add: signalHandler_def state_of_signal_def)

lemma deliver_simps [simp]:
  "deliver [] d = d" "deliver (s # ss) d = deliver ss (signalHandler s d)"
  by (simp_all add: deliver_def)

lemma deliver_snoc: "deliver (ss @ [s]) d = signalHandler s (deliver ss d)"
  by (simp add: deliver_def)

lemma deliver_handlers [simp]:
  "m_HandlerReload (deliver ss d) = m_HandlerReload d"
  "m_HandlerUser1 (deliver ss d) = m_HandlerUser1 d"
  "m_HandlerUser2 (deliver ss d) = m_HandlerUser2 d"
  by (induction ss arbitrary: d) (simp_all add: signalHandler_def)

lemma deliver_not_running:
  "list_all (\<lambda>s. state_of_signal s \<noteq> None) ss \<Longrightarrow> ss \<noteq> [] \<Longrightarrow>
     m_State (deliver ss d) \<noteq> State_Running \<and> Some (m_State (deliver ss d)) = state_of_signal (last ss)"
proof (induction ss arbitrary: d rule: rev_induct)
  case (snoc s ss)
  then obtain st where "state_of_signal s = Some st" by auto
  moreover from this have "st \<noteq> State_Running" by (auto simp: state_of_signal_def split: if_splits)
  ultimately show ?case by (simp add: deliver_snoc signalHandler_state)
qed simp

subsection \<open>Properties\<close>

text \<open>The handler that a state asks for.\<close>

definition due_handler :: "'w daemon \<Rightarrow> 'w handler option" where
  "due_handler d = (case m_State d of
     State_Reload \<Rightarrow> m_HandlerReload d
   | State_User1 \<Rightarrow> m_HandlerUser1 d
   | State_User2 \<Rightarrow> m_HandlerUser2 d
   | _ \<Rightarrow> None)"

lemma isRunning_settled:
  "m_State d \<in> {State_Start, State_Running, State_Stop} \<Longrightarrow> isRunning quiet d w = Some (m_State d = State_Running, d, w)"
  by (auto simp: isRunning_def quiet_def Let_def)

lemma perform_quiet:
  "perform func [] [] d w = (case func of
     None \<Rightarrow> Some (d\<lparr>m_State := State_Running\<rparr>, w)
   | Some f \<Rightarrow> map_option (\<lambda>(ok, w'). (d\<lparr>m_State := if ok then State_Running else State_Stop\<rparr>, w')) (f w))"
  by (auto simp: perform_def Let_def split: option.splits)

lemma isRunning_due:
  assumes "m_State d \<notin> {State_Start, State_Stop}"
  shows "isRunning quiet d w =
    (case due_handler d of
       None \<Rightarrow> Some (True, d\<lparr>m_State := State_Running\<rparr>, w)
     | Some f \<Rightarrow> map_option (\<lambda>(ok, w'). (ok, d\<lparr>m_State := if ok then State_Running else State_Stop\<rparr>, w')) (f w))"
proof (cases "m_State d = State_Running")
  case True
  moreover from this have "d\<lparr>m_State := State_Running\<rparr> = d" by (cases d) simp
  ultimately show ?thesis using isRunning_settled [of d w] by (simp add: due_handler_def)
next
  case False
  have "isRunning quiet d w = (case perform (due_handler d) [] [] d w of
      None \<Rightarrow> None | Some (d, w) \<Rightarrow> Some (m_State d = State_Running, d, w))"
    using assms False
    by (cases "m_State d") (simp_all add: isRunning_def quiet_def due_handler_def Let_def
        performReloadIfRequired_def performUser1IfRequired_def performUser2IfRequired_def
        split: option.split)
  then show ?thesis by (auto simp: perform_quiet split: option.splits)
qed

text \<open>
  Further property (functional): while no signal arrives, \<open>isRunning\<close> runs the handler of a pending reload
  or user request exactly once, answers true and sets \<open>Running\<close> unless that handler reports failure,
  which sets \<open>Stop\<close>; in the states \<open>Start\<close> and \<open>Stop\<close> it answers false. It blocks only if the handler
  does, and a second call finds nothing left to do.
\<close>

theorem isRunning_quiet:
  assumes "m_State d \<notin> {State_Start, State_Stop}"
  shows "isRunning quiet d w =
      (case due_handler d of
         None \<Rightarrow> Some (True, d\<lparr>m_State := State_Running\<rparr>, w)
       | Some f \<Rightarrow> map_option (\<lambda>(ok, w'). (ok, d\<lparr>m_State := if ok then State_Running else State_Stop\<rparr>, w')) (f w)) \<and>
    (\<forall>b d' w'. isRunning quiet d w = Some (b, d', w') \<longrightarrow> isRunning quiet d' w' = Some (b, d', w'))"
proof
  show step: "isRunning quiet d w =
      (case due_handler d of
         None \<Rightarrow> Some (True, d\<lparr>m_State := State_Running\<rparr>, w)
       | Some f \<Rightarrow> map_option (\<lambda>(ok, w'). (ok, d\<lparr>m_State := if ok then State_Running else State_Stop\<rparr>, w')) (f w))"
    by (rule isRunning_due [OF assms])
  show "\<forall>b d' w'. isRunning quiet d w = Some (b, d', w') \<longrightarrow> isRunning quiet d' w' = Some (b, d', w')"
  proof (intro allI impI)
    fix b d' w'
    assume "isRunning quiet d w = Some (b, d', w')"
    then have "m_State d' = (if b then State_Running else State_Stop)"
      unfolding step by (auto split: option.splits)
    then show "isRunning quiet d' w' = Some (b, d', w')" using isRunning_settled [of d' w'] by (cases b) simp_all
  qed
qed

theorem isRunning_quiet_witness:
  "isRunning quiet (setReloadFunction (\<lambda>n. Some (n < 3, n + 1)) daemon_new\<lparr>m_State := State_Reload\<rparr>) (2 :: nat) =
     Some (True, setReloadFunction (\<lambda>n. Some (n < 3, n + 1)) daemon_new\<lparr>m_State := State_Running\<rparr>, 3)"
  using isRunning_quiet [of "setReloadFunction (\<lambda>n. Some (n < 3, n + 1)) daemon_new\<lparr>m_State := State_Reload\<rparr>" "2 :: nat"]
  by (simp add: due_handler_def setReloadFunction_def daemon_new_def)

text \<open>
  Further property (safety): a stop request can be lost. Signals are not queued: the last one to arrive
  decides. After a terminate signal followed, before the next \<open>isRunning\<close>, by a reload signal the
  daemon answers that it is running and stays in the state \<open>Running\<close>, if its reload handler reports
  success or there is none.
\<close>

theorem stop_request_lost:
  assumes "list_all (\<lambda>s. state_of_signal s \<noteq> None) signals"
    and "m_HandlerReload d = None \<or> (\<exists>f. m_HandlerReload d = Some f \<and> f w = Some (True, w))"
  shows "isRunning quiet (deliver (signals @ [kTerminateSignal, kReloadSignal]) d) w =
      Some (True, d\<lparr>m_State := State_Running\<rparr>, w) \<and>
    isRunning quiet (deliver (signals @ [kReloadSignal, kTerminateSignal]) d) w =
      Some (False, d\<lparr>m_State := State_Stop\<rparr>, w)"
proof -
  have frame: "(deliver ss d)\<lparr>m_State := st\<rparr> = d\<lparr>m_State := st\<rparr>" for ss st
    by (induction ss arbitrary: d) (simp_all add: signalHandler_def)
  have "deliver (signals @ [kTerminateSignal, kReloadSignal]) d = d\<lparr>m_State := State_Reload\<rparr>"
    "deliver (signals @ [kReloadSignal, kTerminateSignal]) d = d\<lparr>m_State := State_Stop\<rparr>"
    using frame by (simp_all add: deliver_def signalHandler_def signal_defs)
  then show ?thesis using assms(2) by (auto simp: daemon_defs quiet_def Let_def)
qed

theorem stop_request_lost_witness:
  "isRunning quiet (deliver [kTerminateSignal, kReloadSignal] daemon_new) () =
     Some (True, daemon_new\<lparr>m_State := State_Running\<rparr>, ())"
  using stop_request_lost [of "[]" daemon_new "()"] by (simp add: daemon_new_def)

text \<open>
  Further property (safety): a reload or user signal can end the daemon. If it arrives while \<open>isRunning\<close>
  is past the test for it, the answer is false although no stop was requested and no handler
  failed; the main loop takes this for a stop.
\<close>

theorem late_signal_stops_daemon:
  assumes "m_State d = State_Running" and "state_of_signal s \<in> {Some State_Reload, Some State_User1, Some State_User2}"
  shows "\<exists>d'. isRunning (quiet\<lparr>final := [s]\<rparr>) d w = Some (False, d', w) \<and> Some (getState d') = state_of_signal s"
  using assms by (auto simp: isRunning_def quiet_def Let_def signalHandler_state getState_def)

theorem late_signal_stops_daemon_witness:
  "\<exists>d'. isRunning (quiet\<lparr>final := [kReloadSignal]\<rparr>) (setState State_Running daemon_new) () = Some (False, d', ()) \<and>
     getState d' = State_Reload"
  using late_signal_stops_daemon [of "setState State_Running daemon_new" kReloadSignal "()"]
  by (simp add: setState_def state_of_signal_def signal_defs)

text \<open>
  Further property (functional, error): \<open>makeDaemon\<close> forks at most once in the life of the object. It
  returns true exactly in the child of a first call whose session, directory and PID file all
  succeed; then the PID is recorded and, unless the file name is empty, it is the content of the
  PID file. Otherwise it returns false and writes nothing. It calls no handler.
\<close>

theorem makeDaemon_functional:
  "(m_IsInitialized d \<longrightarrow> makeDaemon sys name d files = Made False d files) \<and>
   (makeDaemon sys name d files = ParentExits \<longleftrightarrow> \<not> m_IsInitialized d \<and> 0 < sys_fork sys) \<and>
   (\<forall>ok d' files'. makeDaemon sys name d files = Made ok d' files' \<longrightarrow>
      m_IsInitialized d' \<and> m_State d' = m_State d \<and>
      (ok \<longleftrightarrow> \<not> m_IsInitialized d \<and> sys_fork sys = 0 \<and> 0 \<le> sys_setsid sys \<and> 0 \<le> sys_chdir sys \<and>
         (name = [] \<or> sys_open_ok sys)) \<and>
      (if ok then m_Pid d' = sys_getpid sys \<and>
          files' = (if name = [] then files else files(name \<mapsto> decimal_int (sys_getpid sys)))
       else m_Pid d' = m_Pid d \<and> files' = files))"
  by (auto simp: makeDaemon_def writePidToFile_def Let_def split: if_splits)

definition good_syscalls :: syscalls where
  "good_syscalls = \<lparr>sys_fork = 0, sys_setsid = 7, sys_chdir = 0, sys_open_ok = True, sys_getpid = 7\<rparr>"

theorem makeDaemon_functional_witness:
  "\<exists>d' files'. makeDaemon good_syscalls ''p'' (daemon_new :: unit daemon) (\<lambda>_. None) = Made True d' files' \<and>
     m_Pid d' = 7 \<and> files' ''p'' = Some (decimal_int 7)"
proof -
  obtain d' files' where made: "makeDaemon good_syscalls ''p'' (daemon_new :: unit daemon) (\<lambda>_. None) = Made True d' files'"
    by (simp add: makeDaemon_def writePidToFile_def good_syscalls_def daemon_new_def Let_def)
  from conjunct2 [OF conjunct2 [OF makeDaemon_functional], rule_format, OF made] made show ?thesis
    by (intro exI [of _ d'] exI [of _ files']) (simp add: good_syscalls_def)
qed

text \<open>
  Further property (functional): the handler is installed for exactly the signals it reacts to: one of them
  leaves a state that \<open>isRunning\<close> acts on, and any other signal would change nothing.
\<close>

theorem handler_installed_where_it_acts:
  "(signal \<in> set installed_signals \<longleftrightarrow> (\<exists>st. state_of_signal signal = Some st)) \<and>
   (signal \<in> set installed_signals \<longrightarrow>
      m_State (signalHandler signal d) \<in> {State_Stop, State_Reload, State_User1, State_User2}) \<and>
   (signal \<notin> set installed_signals \<longrightarrow> signalHandler signal d = d)"
  by (auto simp: installed_signals_def signalHandler_def state_of_signal_def)

theorem handler_installed_where_it_acts_witness:
  "m_State (signalHandler kReloadSignal (daemon_new :: unit daemon)) \<in> {State_Stop, State_Reload, State_User1, State_User2}"
proof -
  have "kReloadSignal \<in> set installed_signals" by (simp add: installed_signals_def)
  then show ?thesis using handler_installed_where_it_acts [of kReloadSignal "daemon_new :: unit daemon"] by blast
qed

end
