(* ===== verification/MainLoop.thy ===== *)
theory MainLoop
  imports ThreadManager Daemon
begin

text \<open>
  The program of \<open>src/src/main.cpp\<close>: command line, console, main loop and shutdown, and the
  structure of \<open>src/include/daemonConfig.hpp\<close>.

  \<^item> \<open>getopt_long\<close> is the C library's: what it returns, call by call until \<open>-1\<close>, is the argument of
    \<open>ProcessCommandLine\<close>. A key is \<open>None\<close> where \<open>getchar\<close> returns \<open>EOF\<close>.
  \<^item> The world of the daemon's handlers is \<open>app_world\<close>: the manager as a worker, its tasks, and the
    observer that takes the commands (\<open>None\<close> before \<open>initTestChain\<close>).
  \<^item> An iteration of the main loop has the signals that arrive around it, the key it reads and the
    tasks whose threads progress before it. When the list of iterations ends the program is
    \<open>StillRunning\<close>; \<open>Hangs\<close> is a join that never returns.
\<close>

subsection \<open>Command line\<close>

record daemonConfig =
  pidFile :: string
  isDaemon :: bool
  pathConfigFile :: string

definition daemonConfig_default :: daemonConfig where
  "daemonConfig_default = \<lparr>pidFile = ''/var/run/thread_msg.pid'', isDaemon = False, pathConfigFile = []\<rparr>"

datatype shown = HelpShown | VersionShown | UnknownOptionShown int

datatype parsed = Continue daemonConfig | ExitProgram int

definition opt_h :: int where "opt_h = 104"
definition opt_question :: int where "opt_question = 63"
definition opt_v :: int where "opt_v = 118"
definition opt_D :: int where "opt_D = 68"

lemmas opt_defs = opt_h_def opt_question_def opt_v_def opt_D_def

fun ProcessCommandLine :: "int list \<Rightarrow> daemonConfig \<Rightarrow> shown list \<times> parsed" where
  "ProcessCommandLine [] config = ([], Continue config)"
| "ProcessCommandLine (current_option # options) config =
     (if current_option = 0 then
        (case ProcessCommandLine options config of (out, r) \<Rightarrow> (HelpShown # out, r))
      else if current_option = opt_h \<or> current_option = opt_question then ([HelpShown], ExitProgram 0)
      else if current_option = opt_v then ([VersionShown], ExitProgram 0)
      else if current_option = opt_D then ProcessCommandLine options (config\<lparr>isDaemon := True\<rparr>)
      else (case ProcessCommandLine options config of
              (out, r) \<Rightarrow> (UnknownOptionShown current_option # HelpShown # out, r)))"

subsection \<open>Console\<close>

datatype handleConsoleType = Console_none | Console_exit | Console_stop | Console_restart
  | Console_terminate | Console_stopObserving | Console_startObserving | Console_stressMode
  | Console_setNormalMode

definition HandleConsole :: "char option \<Rightarrow> handleConsoleType" where
  "HandleConsole key = (case key of
     None \<Rightarrow> Console_none
   | Some c \<Rightarrow>
       if c = CHR ''q'' then Console_exit
       else if c = CHR ''s'' then Console_stop
       else if c = CHR ''r'' then Console_restart
       else if c = CHR ''t'' then Console_terminate
       else if c = CHR ''p'' then Console_stopObserving
       else if c = CHR ''o'' then Console_startObserving
       else if c = CHR ''x'' then Console_stressMode
       else if c = CHR ''n'' then Console_setNormalMode
       else Console_none)"

subsection \<open>The world of the handlers\<close>

record app_world =
  aw_self :: workerBase
  aw_manager :: "tid ThreadManager"
  aw_observer :: "Observer option"

definition app_world_new :: app_world where
  "app_world_new = \<lparr>aw_self = wb_new, aw_manager = tm_new, aw_observer = None\<rparr>"

definition start_handler :: "bool \<Rightarrow> app_world handler" where
  "start_handler spawn_self w =
     (case wb_start True spawn_self None (aw_self w) of (ok, self) \<Rightarrow> Some (ok, w\<lparr>aw_self := self\<rparr>))"

definition close_handler :: "app_world handler" where
  "close_handler w =
     (case wb_stopAndWait (tm_sources (aw_manager w)) (aw_self w) of
        None \<Rightarrow> None
      | Some self \<Rightarrow> Some (True, w\<lparr>aw_self := self\<rparr>))"

definition true_handler :: "app_world handler" where
  "true_handler w = Some (True, w)"

definition main_handlers :: "bool \<Rightarrow> app_world daemon \<Rightarrow> app_world daemon" where
  "main_handlers spawn_self d =
     setUser2Function true_handler (setUser1Function true_handler (setReloadFunction true_handler
       (setCloseFunction close_handler (setStartFunction (start_handler spawn_self) d))))"

subsection \<open>Main loop\<close>

datatype stuck = Hang | Undefined rb_fault

record iteration =
  it_signals :: "int list"
  it_arrivals :: arrivals
  it_key :: "char option"
  it_progress :: "tid list"

definition plain_iteration :: "char option \<Rightarrow> iteration" where
  "plain_iteration key = \<lparr>it_signals = [], it_arrivals = quiet, it_key = key, it_progress = []\<rparr>"

definition send_command :: "ObserverCommand \<Rightarrow> app_world \<Rightarrow> stuck + app_world" where
  "send_command cmd w =
     (case tm_sendObserverCommand cmd (aw_observer w) of
        Inl fault \<Rightarrow> Inl (Undefined fault)
      | Inr (_, observer) \<Rightarrow> Inr (w\<lparr>aw_observer := observer\<rparr>))"

definition with_manager :: "tid ThreadManager option \<Rightarrow> app_world \<Rightarrow> stuck + app_world" where
  "with_manager tm w = (case tm of None \<Rightarrow> Inl Hang | Some tm' \<Rightarrow> Inr (w\<lparr>aw_manager := tm'\<rparr>))"

definition main_dispatch ::
  "(tid \<Rightarrow> bool) \<Rightarrow> handleConsoleType \<Rightarrow> app_world daemon \<times> app_world \<Rightarrow>
     stuck + (app_world daemon \<times> app_world)"
where
  "main_dispatch spawn_ok result s =
     (case s of (d, w) \<Rightarrow>
        (case result of
           Console_exit \<Rightarrow> Inr (setState State_Stop d, w)
         | Console_stop \<Rightarrow> map_sum id (Pair d) (with_manager (tm_stopAllThreads (aw_manager w)) w)
         | Console_restart \<Rightarrow>
             Inr (d, w\<lparr>aw_manager := tm_restartAllThreads isReadyToStart spawn_ok (aw_manager w)\<rparr>)
         | Console_terminate \<Rightarrow> map_sum id (Pair d) (with_manager (tm_terminateAllThreads (aw_manager w)) w)
         | Console_stopObserving \<Rightarrow>
             map_sum id (Pair d) (send_command \<lparr>command_type = StopObserving, durationSec = 60\<rparr> w)
         | Console_startObserving \<Rightarrow>
             map_sum id (Pair d) (send_command \<lparr>command_type = StartObserving, durationSec = 1\<rparr> w)
         | Console_stressMode \<Rightarrow>
             map_sum id (Pair d) (send_command \<lparr>command_type = StressMode, durationSec = 0\<rparr> w)
         | Console_setNormalMode \<Rightarrow>
             map_sum id (Pair d) (send_command \<lparr>command_type = SetNormalMode, durationSec = 0\<rparr> w)
         | Console_none \<Rightarrow> Inr (d, w)))"

definition let_progress :: "tid list \<Rightarrow> app_world \<Rightarrow> app_world" where
  "let_progress is w =
     w\<lparr>aw_manager := fold (\<lambda>i tm. tm\<lparr>tm_workers := (tm_workers tm)(i := wb_settle (tm_sources tm) (tm_workers tm i))\<rparr>)
         is (aw_manager w),
       aw_self := wb_settle (tm_sources (aw_manager w)) (aw_self w)\<rparr>"

fun main_loop ::
  "bool \<Rightarrow> (tid \<Rightarrow> bool) \<Rightarrow> iteration list \<Rightarrow> app_world daemon \<times> app_world \<Rightarrow>
     stuck + (bool \<times> app_world daemon \<times> app_world)"
where
  "main_loop background spawn_ok [] s = Inr (False, s)"
| "main_loop background spawn_ok (it # its) (d, w) =
     (case isRunning (it_arrivals it) (deliver (it_signals it) d) (let_progress (it_progress it) w) of
        None \<Rightarrow> Inl Hang
      | Some (running, d, w) \<Rightarrow>
          if \<not> running then Inr (True, d, w)
          else if \<not> background then
            (case main_dispatch spawn_ok (HandleConsole (it_key it)) (d, w) of
               Inl stuck \<Rightarrow> Inl stuck
             | Inr s \<Rightarrow> main_loop background spawn_ok its s)
          else main_loop background spawn_ok its (d, w))"

subsection \<open>The program\<close>

datatype outcome = Exited int | StillRunning | Hangs | UndefinedBehaviour rb_fault

fun outcome_of_stuck :: "stuck \<Rightarrow> outcome" where
  "outcome_of_stuck Hang = Hangs"
| "outcome_of_stuck (Undefined fault) = UndefinedBehaviour fault"

text \<open>Leaving \<open>main\<close> runs the destructor of the manager, which terminates all threads.\<close>

definition main_return :: "int \<Rightarrow> app_world \<Rightarrow> outcome" where
  "main_return code w = (case tm_destructor (aw_manager w) of None \<Rightarrow> Hangs | Some _ \<Rightarrow> Exited code)"

definition main_finish :: "app_world daemon \<times> app_world \<Rightarrow> outcome" where
  "main_finish s =
     (case s of (d, w) \<Rightarrow>
        let tm = aw_manager w;
            w = w\<lparr>aw_manager := tm\<lparr>tm_sources := request_stop (tm_current tm) (tm_sources tm)\<rparr>\<rparr>
        in case closeAll d w of
             None \<Rightarrow> Hangs
           | Some (_, _, w) \<Rightarrow> main_return 0 w)"

definition main_init :: "(tid \<Rightarrow> bool) \<Rightarrow> Observer \<Rightarrow> app_world \<Rightarrow> app_world" where
  "main_init spawn_ok oi w = w\<lparr>aw_manager := tm_initTestChain spawn_ok (aw_manager w),
     aw_observer := Some (ch_oi (initTestChain oi))\<rparr>"

definition main_run ::
  "bool \<Rightarrow> (tid \<Rightarrow> bool) \<Rightarrow> Observer \<Rightarrow> iteration list \<Rightarrow> app_world daemon \<Rightarrow> outcome"
where
  "main_run background spawn_ok oi its d =
     (let w = main_init spawn_ok oi app_world_new
      in case startAll d w of
           None \<Rightarrow> Hangs
         | Some (ok, d, w) \<Rightarrow>
             if \<not> ok then main_return 1 w
             else (case main_loop background spawn_ok its (d, w) of
                     Inl stuck \<Rightarrow> outcome_of_stuck stuck
                   | Inr (exited, s) \<Rightarrow> if exited then main_finish s else StillRunning))"

definition main_program ::
  "int list \<Rightarrow> syscalls \<Rightarrow> (string \<Rightarrow> string option) \<Rightarrow> bool \<Rightarrow> (tid \<Rightarrow> bool) \<Rightarrow> Observer \<Rightarrow>
     iteration list \<Rightarrow> outcome"
where
  "main_program options sys fs spawn_self spawn_ok oi its =
     (let d = main_handlers spawn_self daemon_new
      in case snd (ProcessCommandLine options daemonConfig_default) of
           ExitProgram code \<Rightarrow> Exited code
         | Continue config \<Rightarrow>
             if isDaemon config then
               (case makeDaemon sys (pidFile config) d fs of
                  ParentExits \<Rightarrow> Exited 0
                | Made ok d _ \<Rightarrow> if \<not> ok then Exited 1 else main_run True spawn_ok oi its d)
             else main_run False spawn_ok oi its d)"

subsection \<open>No operation of the loop blocks\<close>

definition handlers_ok :: "app_world daemon \<Rightarrow> bool" where
  "handlers_ok d \<longleftrightarrow> m_HandlerReload d = Some true_handler \<and> m_HandlerUser1 d = Some true_handler \<and>
     m_HandlerUser2 d = Some true_handler \<and> m_HandlerBeforeToExit d = Some close_handler"

definition world_ok :: "app_world \<Rightarrow> bool" where
  "world_ok w \<longleftrightarrow> wb_inv (aw_self w) \<and> tm_bound (aw_manager w) \<and>
     (\<exists>oi. aw_observer w = Some oi \<and> oi_cmds_ok oi)"

lemma deliver_exit_handler [simp]:
  "m_HandlerBeforeToExit (deliver ss d) = m_HandlerBeforeToExit d"
  by (induction ss arbitrary: d) (simp_all add: signalHandler_def)

lemma handlers_deliver [simp]: "handlers_ok (deliver ss d) = handlers_ok d"
  by (simp add: handlers_ok_def)

lemma handlers_state [simp]: "handlers_ok (d\<lparr>m_State := st\<rparr>) = handlers_ok d"
  by (simp add: handlers_ok_def)

lemma perform_true:
  "perform (Some true_handler) before during d w = Some (deliver during ((deliver before d)\<lparr>m_State := State_Running\<rparr>), w)"
  by (simp add: perform_def true_handler_def Let_def)

lemma isRunning_total:
  assumes "handlers_ok d"
  obtains b d' where "isRunning arr d w = Some (b, d', w)" and "handlers_ok d'"
proof -
  from assms have "m_HandlerReload d = Some true_handler" "m_HandlerUser1 d = Some true_handler"
    "m_HandlerUser2 d = Some true_handler" by (simp_all add: handlers_ok_def)
  then have "\<exists>b d'. isRunning arr d w = Some (b, d', w) \<and> handlers_ok d'"
    using assms
    by (simp add: isRunning_def performReloadIfRequired_def performUser1IfRequired_def
        performUser2IfRequired_def perform_true Let_def)
  with that show ?thesis by blast
qed

lemma progress_ok: "world_ok w \<Longrightarrow> world_ok (let_progress is w)"
proof -
  have "tm_bound (fold (\<lambda>i tm. tm\<lparr>tm_workers := (tm_workers tm)(i := wb_settle (tm_sources tm) (tm_workers tm i))\<rparr>) is tm)"
    if "tm_bound tm" for tm
    using that by (induction "is" arbitrary: tm) (simp_all add: progress_bound)
  then show "world_ok w \<Longrightarrow> world_ok (let_progress is w)"
    by (simp add: world_ok_def let_progress_def wb_inv_settle)
qed

lemma send_command_ok:
  assumes "world_ok w"
  obtains w' where "send_command cmd w = Inr w'" and "world_ok w'" and "aw_self w' = aw_self w"
    and "aw_manager w' = aw_manager w"
    and "\<exists>oi oi'. aw_observer w = Some oi \<and> aw_observer w' = Some oi' \<and>
      oi_pending oi' = oi_pending oi @ (if length (oi_pending oi) < 7 then [cmd] else [])"
proof -
  from assms obtain oi where oi: "aw_observer w = Some oi" "oi_cmds_ok oi" by (auto simp: world_ok_def)
  from oi(2) obtain oi' where "oi_sendCommand cmd oi = Inr (length (oi_pending oi) < 7, oi')" "oi_cmds_ok oi'"
    "oi_pending oi' = oi_pending oi @ (if length (oi_pending oi) < 7 then [cmd] else [])"
    by (rule oi_sendCommand_correct)
  with oi assms show ?thesis
    by (intro that [of "w\<lparr>aw_observer := Some oi'\<rparr>"])
      (auto simp: send_command_def tm_sendObserverCommand_def world_ok_def)
qed

lemma dispatch_ok:
  assumes ok: "handlers_ok d" "world_ok w" and no_restart: "c \<noteq> Console_restart"
  shows "\<exists>d' w'. main_dispatch spawn_ok c (d, w) = Inr (d', w') \<and> handlers_ok d' \<and> world_ok w'"
proof -
  have sent: "\<exists>w'. send_command cmd w = Inr w' \<and> world_ok w'" for cmd
    using ok(2) by (rule send_command_ok [where cmd = cmd]) blast
  from ok(2) have "tm_bound (aw_manager w)" by (simp add: world_ok_def)
  from tm_step_bound [OF this, of StopAll] tm_step_bound [OF this, of TerminateAll]
  obtain tm1 tm2 where "tm_stopAllThreads (aw_manager w) = Some tm1" "tm_bound tm1"
    "tm_terminateAllThreads (aw_manager w) = Some tm2" "tm_bound tm2" by auto
  with ok no_restart show ?thesis
    using sent [of "\<lparr>command_type = StopObserving, durationSec = 60\<rparr>"]
      sent [of "\<lparr>command_type = StartObserving, durationSec = 1\<rparr>"]
      sent [of "\<lparr>command_type = StressMode, durationSec = 0\<rparr>"]
      sent [of "\<lparr>command_type = SetNormalMode, durationSec = 0\<rparr>"]
    by (cases c) (auto simp: main_dispatch_def with_manager_def world_ok_def setState_def)
qed

lemma console_restart_key: "HandleConsole k = Console_restart \<longleftrightarrow> k = Some (CHR ''r'')"
  by (auto simp: HandleConsole_def split: option.splits)

lemma main_loop_ok:
  "handlers_ok d \<Longrightarrow> world_ok w \<Longrightarrow> \<forall>it \<in> set its. it_key it \<noteq> Some (CHR ''r'') \<Longrightarrow>
     \<exists>ex d' w'. main_loop background spawn_ok its (d, w) = Inr (ex, d', w') \<and> handlers_ok d' \<and> world_ok w'"
proof (induction its arbitrary: d w)
  case (Cons it its)
  let ?w = "let_progress (it_progress it) w"
  have w: "world_ok ?w" using Cons.prems(2) by (rule progress_ok)
  have "handlers_ok (deliver (it_signals it) d)" using Cons.prems(1) by simp
  then obtain b d1 where run: "isRunning (it_arrivals it) (deliver (it_signals it) d) ?w = Some (b, d1, ?w)"
    and d1: "handlers_ok d1" by (rule isRunning_total)
  have "HandleConsole (it_key it) \<noteq> Console_restart" using Cons.prems(3) by (simp add: console_restart_key)
  from dispatch_ok [OF d1 w this] obtain d2 w2 where
    "main_dispatch spawn_ok (HandleConsole (it_key it)) (d1, ?w) = Inr (d2, w2)" "handlers_ok d2" "world_ok w2"
    by blast
  with Cons.IH [of d2 w2] Cons.IH [OF d1 w] Cons.prems(3) run d1 w show ?case
    by (cases b; cases background) auto
qed auto

lemma main_loop_append:
  "main_loop background spawn_ok (its @ its') s =
     (case main_loop background spawn_ok its s of
        Inl stuck \<Rightarrow> Inl stuck
      | Inr (ex, s') \<Rightarrow> if ex then Inr (True, s') else main_loop background spawn_ok its' s')"
  by (induction background spawn_ok its s rule: main_loop.induct)
    (auto split: option.splits sum.splits if_splits)

lemma main_finish_ok:
  assumes "handlers_ok d" and "world_ok w"
  shows "main_finish (d, w) = Exited 0"
proof -
  let ?tm = "aw_manager w"
  let ?tm' = "?tm\<lparr>tm_sources := request_stop (tm_current ?tm) (tm_sources ?tm)\<rparr>"
  from assms(2) have bound: "tm_bound ?tm'" and self: "wb_inv (aw_self w)"
    by (auto simp: world_ok_def tm_bound_def request_stop_def)
  from stopAndWait_returns [OF self] obtain self' where
    "wb_stopAndWait (tm_sources ?tm') (aw_self w) = Some self'" by blast
  then have "closeAll d (w\<lparr>aw_manager := ?tm'\<rparr>) =
      Some (True, d\<lparr>m_State := State_Stop\<rparr>, w\<lparr>aw_manager := ?tm', aw_self := self'\<rparr>)"
    using assms(1) by (simp add: closeAll_def handlers_ok_def close_handler_def Let_def)
  moreover obtain tm2 where "tm_terminateAllThreads ?tm' = Some tm2"
    using tm_step_bound [OF bound, of TerminateAll] by auto
  ultimately show ?thesis by (simp add: main_finish_def main_return_def Let_def)
qed

lemma init_bound: "tm_bound tm \<Longrightarrow> tm_bound (tm_initTestChain spawn_ok tm)"
  by (simp add: tm_initTestChain_def addTask_bound)

lemma main_started:
  assumes "oi_new alloc_ok = Inr oi"
  shows "\<exists>d w. startAll (main_handlers spawn_self daemon_new) (main_init spawn_ok oi app_world_new) =
    Some (spawn_self, d, w) \<and> handlers_ok d \<and> world_ok w"
proof -
  let ?d = "main_handlers spawn_self daemon_new" and ?w = "main_init spawn_ok oi app_world_new"
  obtain ok self where start: "wb_start True spawn_self None wb_new = (ok, self)" by fastforce
  then have "ok = spawn_self" by (auto simp: wb_start_def wb_new_def Let_def split: if_splits)
  moreover have "wb_inv self" using wb_inv_start [OF wb_inv_new start] .
  moreover have "oi_cmds_ok (ch_oi (initTestChain oi))"
    using chain_init_inv [OF assms] by (simp add: chain_inv_def inv_wired_def)
  ultimately show ?thesis
    using start init_bound [OF tm_bound_new, of spawn_ok]
    by (simp add: startAll_def main_handlers_def setUser2Function_def setUser1Function_def
        setReloadFunction_def setCloseFunction_def setStartFunction_def start_handler_def main_init_def
        app_world_new_def handlers_ok_def world_ok_def Let_def)
qed

lemma quit_key_ends_loop:
  assumes d: "handlers_ok d" and w: "world_ok w"
  shows "\<exists>d' w'. main_loop False spawn_ok [plain_iteration (Some (CHR ''q'')), plain_iteration key] (d, w) =
    Inr (True, d', w') \<and> handlers_ok d' \<and> world_ok w'"
proof -
  have w2: "world_ok (let_progress [] w)" "world_ok (let_progress [] (let_progress [] w))"
    using w by (simp_all add: progress_ok)
  from d obtain b d2 where run: "isRunning quiet d (let_progress [] w) = Some (b, d2, let_progress [] w)"
    and d2: "handlers_ok d2" by (rule isRunning_total)
  show ?thesis
  proof (cases b)
    case True
    have "isRunning quiet (setState State_Stop d2) (let_progress [] (let_progress [] w)) =
        Some (False, setState State_Stop d2, let_progress [] (let_progress [] w))"
      by (simp add: isRunning_settled setState_def)
    with True run d2 w2 show ?thesis
      by (simp add: plain_iteration_def HandleConsole_def main_dispatch_def) (simp add: setState_def)
  next
    case False
    with run d2 w2 show ?thesis by (simp add: plain_iteration_def)
  qed
qed

subsection \<open>Options\<close>

lemma command_line_result:
  "snd (ProcessCommandLine options config) =
     (if \<exists>c \<in> set options. c \<in> {opt_h, opt_question, opt_v} then ExitProgram 0
      else Continue (if opt_D \<in> set options then config\<lparr>isDaemon := True\<rparr> else config))"
  by (induction options arbitrary: config) (simp_all add: opt_defs case_prod_beta)

lemma command_line_help:
  "0 \<in> set (takeWhile (\<lambda>c. c \<notin> {opt_h, opt_question, opt_v}) options) \<Longrightarrow>
     HelpShown \<in> set (fst (ProcessCommandLine options config))"
  by (induction options arbitrary: config) (auto simp: opt_defs case_prod_beta split: if_splits)

subsection \<open>Properties\<close>

text \<open>
  Further property (liveness, termination): as long as the restart key is not pressed, the program never
  hangs and never has undefined behaviour, whatever signals, keys and progress of the threads come:
  it runs on or exits with success, or with failure exactly if the manager's own thread could not be
  created. In the foreground the key \<open>q\<close> ends it with success.
\<close>

theorem main_exits_cleanly:
  assumes "oi_new alloc_ok = Inr oi" and "\<forall>it \<in> set its. it_key it \<noteq> Some (CHR ''r'')"
  shows "main_run background spawn_ok oi its (main_handlers spawn_self daemon_new) \<in>
      (if spawn_self then {Exited 0, StillRunning} else {Exited 1}) \<and>
    main_run False spawn_ok oi (its @ [plain_iteration (Some (CHR ''q'')), plain_iteration key])
      (main_handlers True daemon_new) = Exited 0"
proof
  from main_started [OF assms(1), of spawn_self spawn_ok] obtain d w where
    start: "startAll (main_handlers spawn_self daemon_new) (main_init spawn_ok oi app_world_new) =
      Some (spawn_self, d, w)" and d: "handlers_ok d" and w: "world_ok w" by blast
  show "main_run background spawn_ok oi its (main_handlers spawn_self daemon_new) \<in>
      (if spawn_self then {Exited 0, StillRunning} else {Exited 1})"
  proof (cases spawn_self)
    case True
    from main_loop_ok [OF d w assms(2), of background spawn_ok] obtain ex d' w' where
      "main_loop background spawn_ok its (d, w) = Inr (ex, d', w')" "handlers_ok d'" "world_ok w'" by blast
    with True start main_finish_ok show ?thesis by (simp add: main_run_def Let_def)
  next
    case False
    from w have "tm_bound (aw_manager w)" by (simp add: world_ok_def)
    from tm_step_bound [OF this, of TerminateAll] False start show ?thesis
      by (auto simp: main_run_def main_return_def Let_def)
  qed
next
  from main_started [OF assms(1), of True spawn_ok] obtain d w where
    start: "startAll (main_handlers True daemon_new) (main_init spawn_ok oi app_world_new) = Some (True, d, w)"
    and d: "handlers_ok d" and w: "world_ok w" by blast
  from main_loop_ok [OF d w assms(2), of False spawn_ok] obtain ex d1 w1 where
    loop: "main_loop False spawn_ok its (d, w) = Inr (ex, d1, w1)" and ok: "handlers_ok d1" "world_ok w1" by blast
  with quit_key_ends_loop [OF ok, of spawn_ok key] have
    "\<exists>d' w'. main_loop False spawn_ok (its @ [plain_iteration (Some (CHR ''q'')), plain_iteration key]) (d, w) =
      Inr (True, d', w') \<and> handlers_ok d' \<and> world_ok w'"
    by (cases ex) (simp_all add: main_loop_append)
  with start main_finish_ok show "main_run False spawn_ok oi (its @ [plain_iteration (Some (CHR ''q'')),
      plain_iteration key]) (main_handlers True daemon_new) = Exited 0"
    by (auto simp: main_run_def Let_def)
qed

theorem main_exits_cleanly_witness:
  "\<exists>oi. oi_new (\<lambda>_. True) = Inr oi \<and>
     main_run False (\<lambda>_. True) oi ([plain_iteration (Some (CHR ''s''))] @
       [plain_iteration (Some (CHR ''q'')), plain_iteration None]) (main_handlers True daemon_new) = Exited 0"
proof -
  obtain oi where new: "oi_new (\<lambda>_. True) = Inr oi" using oi_new_exists by blast
  have "\<forall>it \<in> set [plain_iteration (Some (CHR ''s''))]. it_key it \<noteq> Some (CHR ''r'')"
    by (simp add: plain_iteration_def)
  from conjunct2 [OF main_exits_cleanly [OF new this, of False "\<lambda>_. True" True None]] new
  show ?thesis by (intro exI [of _ oi] conjI)
qed

text \<open>
  Property C30 (liveness): the restart key makes the program hang. Pressed while a managed thread runs,
  and followed by \<open>q\<close>, it leads the main loop to its end, but the program never exits: it blocks in
  the destructor of the manager.
\<close>

theorem restart_key_hangs_program:
  assumes "handlers_ok d" and "m_State d = State_Running" and "world_ok w"
    and "i \<in> set (tm_tasks (aw_manager w))"
    and "wb_phase (tm_workers (aw_manager w) i) = InRun (CombinedToken (tm_current (aw_manager w)))"
    and "\<not> token_requested (tm_sources (aw_manager w)) (CombinedToken (tm_current (aw_manager w)))
      (tm_workers (aw_manager w) i)"
  shows "\<exists>s. main_loop False spawn_ok [plain_iteration (Some (CHR ''r'')), plain_iteration (Some (CHR ''q'')),
      plain_iteration key] (d, w) = Inr (True, s) \<and> main_finish s = Hangs"
proof -
  let ?tm = "tm_restartAllThreads (\<lambda>_. True) spawn_ok (aw_manager w)"
  have inv: "wb_inv (tm_workers (aw_manager w) i)" using assms(3) by (simp add: world_ok_def tm_bound_def)
  note keeps = restart_keeps_running [OF assms(4) inv assms(5,6) refl, of "\<lambda>_. True" spawn_ok]
  let ?w1 = "let_progress [] w"
  let ?w2 = "let_progress [] (?w1\<lparr>aw_manager := ?tm\<rparr>)"
  let ?w3 = "let_progress [] ?w2"
  have loop: "main_loop False spawn_ok [plain_iteration (Some (CHR ''r'')), plain_iteration (Some (CHR ''q'')),
      plain_iteration key] (d, w) = Inr (True, setState State_Stop d, ?w3)"
    using assms(2)
    by (simp add: plain_iteration_def isRunning_settled HandleConsole_def main_dispatch_def setState_def)
      (simp add: let_progress_def)
  have w3: "aw_manager ?w3 = ?tm" "wb_inv (aw_self ?w3)"
    using assms(3) by (simp_all add: let_progress_def world_ok_def wb_inv_settle)
  from stopAndWait_returns [OF w3(2)] obtain self where
    self: "wb_stopAndWait (request_stop (tm_current ?tm) (tm_sources ?tm)) (aw_self ?w3) = Some self" by blast
  have "tm_terminateAllThreads (?tm\<lparr>tm_sources := request_stop (tm_current ?tm) (tm_sources ?tm)\<rparr>) = None"
    by (intro conjunct2 [OF stop_blocked [where i = i and e = "tm_current (aw_manager w)"]])
      (use keeps inv assms(5) in \<open>simp_all add: request_stop_def token_requested_def\<close>)
  then have "main_finish (setState State_Stop d, ?w3) = Hangs"
    using assms(1) self w3(1)
    by (simp add: main_finish_def main_return_def closeAll_def handlers_ok_def close_handler_def setState_def Let_def)
  with loop show ?thesis by blast
qed

theorem restart_key_hangs_program_witness:
  "\<exists>d w s. main_loop False (\<lambda>_. True) [plain_iteration (Some (CHR ''r'')), plain_iteration (Some (CHR ''q'')),
      plain_iteration None] (d, w) = Inr (True, s) \<and> main_finish s = Hangs"
proof -
  have "(case tm_exec (\<lambda>_. True) (\<lambda>_. True) chain_ops (tm_new :: tid ThreadManager) of
      Some tm \<Rightarrow> OI \<in> set (tm_tasks tm) \<and> wb_phase (tm_workers tm OI) = InRun (CombinedToken (tm_current tm)) \<and>
        \<not> token_requested (tm_sources tm) (CombinedToken (tm_current tm)) (tm_workers tm OI)
    | None \<Rightarrow> False)" by code_simp
  then obtain tm where tm: "tm_exec (\<lambda>_. True) (\<lambda>_. True) chain_ops tm_new = Some tm"
    "OI \<in> set (tm_tasks tm)" "wb_phase (tm_workers tm OI) = InRun (CombinedToken (tm_current tm))"
    "\<not> token_requested (tm_sources tm) (CombinedToken (tm_current tm)) (tm_workers tm OI)"
    by (auto split: option.splits)
  have "restarts_when_idle (\<lambda>_. True) (\<lambda>_. True) chain_ops (tm_new :: tid ThreadManager)" by code_simp
  from tm_exec_bound [OF tm_bound_new this] tm(1) have bound: "tm_bound tm" by simp
  obtain oi where new: "oi_new (\<lambda>_. True) = Inr oi" using oi_new_exists by blast
  let ?d = "main_handlers True daemon_new\<lparr>m_State := State_Running\<rparr>"
  let ?w = "\<lparr>aw_self = wb_new, aw_manager = tm, aw_observer = Some oi\<rparr>"
  have "handlers_ok ?d" "m_State ?d = State_Running"
    by (simp_all add: handlers_ok_def main_handlers_def setUser2Function_def setUser1Function_def
        setReloadFunction_def setCloseFunction_def setStartFunction_def)
  moreover have "world_ok ?w" using bound oi_new_ok [OF new] by (simp add: world_ok_def wb_inv_new)
  ultimately show ?thesis
    using restart_key_hangs_program [of ?d ?w OI "\<lambda>_. True" None] tm(2-4) by auto
qed

text \<open>
  Further property (functional): the command line. The program stops at the first \<open>-h\<close>, \<open>-?\<close> (or invalid
  option) or \<open>-v\<close>, always with success; otherwise it goes on, in the background exactly if \<open>-D\<close> or
  \<open>--background\<close> was given. The long option \<open>--help\<close> (code 0) shows the help and does not stop it.
\<close>

theorem ProcessCommandLine_functional:
  "snd (ProcessCommandLine options config) =
     (if \<exists>c \<in> set options. c \<in> {opt_h, opt_question, opt_v} then ExitProgram 0
      else Continue (if opt_D \<in> set options then config\<lparr>isDaemon := True\<rparr> else config)) \<and>
   (0 \<in> set (takeWhile (\<lambda>c. c \<notin> {opt_h, opt_question, opt_v}) options) \<longrightarrow>
      HelpShown \<in> set (fst (ProcessCommandLine options config)))"
  using command_line_result command_line_help by blast

theorem ProcessCommandLine_functional_witness:
  "snd (ProcessCommandLine [0, opt_D] daemonConfig_default) = Continue (daemonConfig_default\<lparr>isDaemon := True\<rparr>) \<and>
   HelpShown \<in> set (fst (ProcessCommandLine [0, opt_D] daemonConfig_default))"
  using ProcessCommandLine_functional [of "[0, opt_D]" daemonConfig_default] by (simp add: opt_defs)

text \<open>
  Further property (functional): each command key sends its one command to the observer, behind the pending
  ones, if fewer than seven are pending, and nothing otherwise; it touches neither the daemon nor
  the threads.
\<close>

theorem command_keys:
  assumes "world_ok w"
    and "(key, cmd) \<in> {(CHR ''p'', \<lparr>command_type = StopObserving, durationSec = 60\<rparr>),
      (CHR ''o'', \<lparr>command_type = StartObserving, durationSec = 1\<rparr>),
      (CHR ''x'', \<lparr>command_type = StressMode, durationSec = 0\<rparr>),
      (CHR ''n'', \<lparr>command_type = SetNormalMode, durationSec = 0\<rparr>)}"
  shows "\<exists>w' oi oi'. main_dispatch spawn_ok (HandleConsole (Some key)) (d, w) = Inr (d, w') \<and>
    aw_self w' = aw_self w \<and> aw_manager w' = aw_manager w \<and>
    aw_observer w = Some oi \<and> aw_observer w' = Some oi' \<and>
    oi_pending oi' = oi_pending oi @ (if length (oi_pending oi) < 7 then [cmd] else [])"
proof -
  from assms(1) obtain w' where send: "send_command cmd w = Inr w'"
    and rest: "aw_self w' = aw_self w" "aw_manager w' = aw_manager w"
    "\<exists>oi oi'. aw_observer w = Some oi \<and> aw_observer w' = Some oi' \<and>
      oi_pending oi' = oi_pending oi @ (if length (oi_pending oi) < 7 then [cmd] else [])"
    by (rule send_command_ok [where cmd = cmd])
  from assms(2) send have "main_dispatch spawn_ok (HandleConsole (Some key)) (d, w) = Inr (d, w')"
    by (auto simp: main_dispatch_def HandleConsole_def)
  with rest show ?thesis by blast
qed

theorem command_keys_witness:
  "\<exists>d w w' oi'. main_dispatch (\<lambda>_. True) (HandleConsole (Some (CHR ''x''))) (d, w) = Inr (d, w') \<and>
     aw_observer w' = Some oi' \<and> oi_pending oi' = [\<lparr>command_type = StressMode, durationSec = 0\<rparr>]"
proof -
  obtain oi where new: "oi_new (\<lambda>_. True) = Inr oi" using oi_new_exists by blast
  let ?w = "\<lparr>aw_self = wb_new, aw_manager = tm_new, aw_observer = Some oi\<rparr>"
  from oi_new_ok [OF new] have "world_ok ?w" and pend: "oi_pending oi = []"
    by (simp_all add: world_ok_def wb_inv_new tm_bound_new)
  from command_keys [OF this(1), of "CHR ''x''" "\<lparr>command_type = StressMode, durationSec = 0\<rparr>"] pend
  show ?thesis by fastforce
qed

end
