(* ===== verification/Program.thy ===== *)
theory Program
  imports MainLoop SystemStop
begin

text \<open>
  The whole program of \<open>src/src/main.cpp\<close> with all its threads: the main thread from \<open>initTestChain\<close> to its
  last return, the manager's own thread, and the five threads of the chain as \<open>System\<close> runs them.

  \<^item> The main thread does one thing at a time: \<open>pg_pc\<close> says where it is in \<open>main\<close>, and while a call of the
    manager is under way (\<open>sy_main\<close>) its next step is the next start or join of that call.
  \<^item> The handlers of the daemon and the command keys are those of \<open>MainLoop\<close>; they see the manager and
    the observer through \<open>view\<close>.
  \<^item> Signals arrive before a poll or inside it, as in \<open>MainLoop\<close>.
\<close>

datatype main_pc = Starting | InLoop | Stopping | Closing | Destroying int | Joined int | Ended int

record program =
  pg_daemon :: "app_world daemon"
  pg_self :: workerBase
  pg_sys :: system
  pg_pc :: main_pc

datatype prog_action = Thread sys_action | SelfProgress | Main "int list" arrivals "char option" bool

definition prog_start :: "bool \<Rightarrow> Observer \<Rightarrow> program" where
  "prog_start spawn_self oi = \<lparr>pg_daemon = main_handlers spawn_self daemon_new, pg_self = wb_new,
     pg_sys = sys_start oi, pg_pc = Starting\<rparr>"

definition view :: "program \<Rightarrow> app_world" where
  "view p = \<lparr>aw_self = pg_self p, aw_manager = sy_tm (pg_sys p), aw_observer = Some (ch_oi (sy_chain (pg_sys p)))\<rparr>"

text \<open>The actions that are steps of a thread of the chain.\<close>

fun of_thread :: "sys_action \<Rightarrow> bool" where
  "of_thread (Begin _) = True"
| "of_thread (Test _) = True"
| "of_thread (Loop _ _ _) = True"
| "of_thread (SendNext _) = True"
| "of_thread (Finish _) = True"
| "of_thread _ = False"

text \<open>The next step of the call of the manager that is under way.\<close>

definition main_continues :: "bool \<Rightarrow> system \<Rightarrow> system" where
  "main_continues spawn_ok s = (case sy_main s of
     MainIdle \<Rightarrow> s
   | Adding _ \<Rightarrow> sys_add spawn_ok s
   | Joining _ _ \<Rightarrow> sys_join s
   | Restarting _ \<Rightarrow> sys_restart spawn_ok s)"

definition stop_requested :: "system \<Rightarrow> system" where
  "stop_requested s =
     s\<lparr>sy_tm := (sy_tm s)\<lparr>tm_sources := request_stop (tm_stopSource (sy_tm s)) (tm_sources (sy_tm s))\<rparr>\<rparr>"

definition prog_dispatch ::
  "handleConsoleType \<Rightarrow> app_world daemon \<Rightarrow> system \<Rightarrow> chain_fault + (app_world daemon \<times> system)"
where
  "prog_dispatch result d s = (case result of
     Console_exit \<Rightarrow> Inr (setState State_Stop d, s)
   | Console_stop \<Rightarrow> Inr (d, sys_call_stop False s)
   | Console_restart \<Rightarrow> Inr (d, sys_call_restart s)
   | Console_terminate \<Rightarrow> Inr (d, sys_call_stop True s)
   | Console_stopObserving \<Rightarrow> map_sum id (Pair d) (sys_call_command \<lparr>command_type = StopObserving, durationSec = 60\<rparr> s)
   | Console_startObserving \<Rightarrow> map_sum id (Pair d) (sys_call_command \<lparr>command_type = StartObserving, durationSec = 1\<rparr> s)
   | Console_stressMode \<Rightarrow> map_sum id (Pair d) (sys_call_command \<lparr>command_type = StressMode, durationSec = 0\<rparr> s)
   | Console_setNormalMode \<Rightarrow> map_sum id (Pair d) (sys_call_command \<lparr>command_type = SetNormalMode, durationSec = 0\<rparr> s)
   | Console_none \<Rightarrow> Inr (d, s))"

definition prog_main ::
  "bool \<Rightarrow> int list \<Rightarrow> arrivals \<Rightarrow> char option \<Rightarrow> bool \<Rightarrow> program \<Rightarrow> chain_fault + program"
where
  "prog_main background sigs arr key spawn_ok p =
     (if sy_main (pg_sys p) \<noteq> MainIdle then Inr (p\<lparr>pg_sys := main_continues spawn_ok (pg_sys p)\<rparr>)
      else (case pg_pc p of
        Starting \<Rightarrow>
          (case startAll (pg_daemon p) (view p) of
             None \<Rightarrow> Inr p
           | Some (ok, d, w) \<Rightarrow>
               Inr (p\<lparr>pg_daemon := d, pg_self := aw_self w, pg_pc := (if ok then InLoop else Destroying 1)\<rparr>))
      | InLoop \<Rightarrow>
          (case isRunning arr (deliver sigs (pg_daemon p)) (view p) of
             None \<Rightarrow> Inr p
           | Some (running, d, w) \<Rightarrow>
               if \<not> running then Inr (p\<lparr>pg_daemon := d, pg_self := aw_self w, pg_pc := Stopping\<rparr>)
               else if background then Inr (p\<lparr>pg_daemon := d, pg_self := aw_self w\<rparr>)
               else (case prog_dispatch (HandleConsole key) d (pg_sys p) of
                       Inl fault \<Rightarrow> Inl fault
                     | Inr (d, s) \<Rightarrow> Inr (p\<lparr>pg_daemon := d, pg_self := aw_self w, pg_sys := s\<rparr>)))
      | Stopping \<Rightarrow> Inr (p\<lparr>pg_sys := stop_requested (pg_sys p), pg_pc := Closing\<rparr>)
      | Closing \<Rightarrow>
          (case closeAll (pg_daemon p) (view p) of
             None \<Rightarrow> Inr p
           | Some (_, d, w) \<Rightarrow> Inr (p\<lparr>pg_daemon := d, pg_self := aw_self w, pg_pc := Destroying 0\<rparr>))
      | Destroying code \<Rightarrow> Inr (p\<lparr>pg_sys := sys_call_stop True (pg_sys p), pg_pc := Joined code\<rparr>)
      | Joined code \<Rightarrow> Inr (p\<lparr>pg_pc := Ended code\<rparr>)
      | Ended code \<Rightarrow> Inr p))"

fun prog_step :: "bool \<Rightarrow> prog_action \<Rightarrow> program \<Rightarrow> chain_fault + program" where
  "prog_step background (Thread a) p =
     (if of_thread a
      then (case sys_step a (pg_sys p) of Inl fault \<Rightarrow> Inl fault | Inr s \<Rightarrow> Inr (p\<lparr>pg_sys := s\<rparr>))
      else Inr p)"
| "prog_step background SelfProgress p =
     Inr (p\<lparr>pg_self := wb_settle (tm_sources (sy_tm (pg_sys p))) (pg_self p)\<rparr>)"
| "prog_step background (Main sigs arr key spawn_ok) p = prog_main background sigs arr key spawn_ok p"

fun prog_exec :: "bool \<Rightarrow> prog_action list \<Rightarrow> program \<Rightarrow> chain_fault + program" where
  "prog_exec background [] p = Inr p"
| "prog_exec background (a # as) p = (case prog_step background a p of
     Inl fault \<Rightarrow> Inl fault
   | Inr p' \<Rightarrow> prog_exec background as p')"

text \<open>All threads could be created during the set-up, and the restart key is pressed only while no thread runs.\<close>

fun setup_ok :: "bool \<Rightarrow> prog_action list \<Rightarrow> program \<Rightarrow> bool" where
  "setup_ok background [] p = True"
| "setup_ok background (a # as) p =
     ((case a of Main _ _ _ spawn_ok \<Rightarrow> spawn_ok \<or> (case sy_main (pg_sys p) of Adding _ \<Rightarrow> False | _ \<Rightarrow> True) | _ \<Rightarrow> True) \<and>
      (case prog_step background a p of Inl _ \<Rightarrow> True | Inr p' \<Rightarrow> setup_ok background as p'))"

fun restart_keys_quiet :: "bool \<Rightarrow> prog_action list \<Rightarrow> program \<Rightarrow> bool" where
  "restart_keys_quiet background [] p = True"
| "restart_keys_quiet background (a # as) p =
     ((case a of Main _ _ key _ \<Rightarrow> key = Some (CHR ''r'') \<longrightarrow> sys_quiet (pg_sys p) | _ \<Rightarrow> True) \<and>
      (case prog_step background a p of Inl _ \<Rightarrow> True | Inr p' \<Rightarrow> restart_keys_quiet background as p'))"

subsection \<open>Every step is a step of the system\<close>

lemma stop_requested_same [simp]:
  "sy_main (stop_requested s) = sy_main s" "sy_chain (stop_requested s) = sy_chain s"
  "tm_tasks (sy_tm (stop_requested s)) = tm_tasks (sy_tm s)" "worker (stop_requested s) = worker s"
  "tm_current (sy_tm (stop_requested s)) = tm_current (sy_tm s)" "sy_place (stop_requested s) = sy_place s"
  by (simp_all add: stop_requested_def)

lemma stop_requested_inv:
  "sys_inv (stop_requested s) = sys_inv s" "inv_reached s \<Longrightarrow> inv_reached (stop_requested s)"
  "ss_requested (tm_sources (sy_tm (stop_requested s)) (tm_current (sy_tm s)))"
proof -
  show "sys_inv (stop_requested s) = sys_inv s"
    by (cases "sy_main s") (simp_all add: sys_inv_defs torn_down_def)
qed (simp_all add: inv_reached_def stop_requested_def request_stop_def tm_stopSource_def)

text \<open>What a step does to the system: nothing, the stop request, or a step of \<open>System\<close>.\<close>

definition sys_moves :: "system \<Rightarrow> bool \<Rightarrow> bool \<Rightarrow> system \<Rightarrow> bool" where
  "sys_moves s adds restarts s' \<longleftrightarrow> s' = s \<or> s' = stop_requested s \<or>
     (\<exists>b. sys_step b s = Inr s' \<and> \<not> generates b \<and> \<not> of_thread b \<and> (b = AddNext False \<longrightarrow> adds) \<and> (b = CallRestart \<longrightarrow> restarts))"

lemma main_continues_moves:
  "sys_moves s (\<not> spawn_ok \<and> (case sy_main s of Adding _ \<Rightarrow> True | _ \<Rightarrow> False)) False (main_continues spawn_ok s)"
proof (cases "sy_main s")
  case (Adding "is")
  then show ?thesis
    by (auto simp: sys_moves_def main_continues_def intro: exI [of _ "AddNext spawn_ok"])
next
  case (Joining clear "is")
  then have "sys_step JoinNext s = Inr (main_continues spawn_ok s)" by (simp add: main_continues_def)
  then show ?thesis unfolding sys_moves_def by (intro disjI2 exI [of _ JoinNext]) simp
next
  case (Restarting "is")
  then have "sys_step (RestartNext spawn_ok) s = Inr (main_continues spawn_ok s)" by (simp add: main_continues_def)
  then show ?thesis unfolding sys_moves_def by (intro disjI2 exI [of _ "RestartNext spawn_ok"]) simp
qed (simp add: sys_moves_def main_continues_def)

lemma map_sum_result [simp]:
  "map_sum id f r = Inr y \<longleftrightarrow> (\<exists>x. r = Inr x \<and> y = f x)" "map_sum id f r = Inl e \<longleftrightarrow> r = Inl e"
  by (cases r; auto)+

lemma dispatch_moves:
  assumes "prog_dispatch c d s = Inr (d', s')"
  shows "sys_moves s False (c = Console_restart) s'" and "handlers_ok d \<Longrightarrow> handlers_ok d'"
proof -
  have "s' = s \<or> (\<exists>b. sys_step b s = Inr s' \<and> \<not> generates b \<and> \<not> of_thread b \<and> b \<noteq> AddNext False \<and> (b = CallRestart \<longrightarrow> c = Console_restart))"
  proof (cases c)
    case Console_stop
    with assms show ?thesis by (intro disjI2 exI [of _ CallStop]) (simp add: prog_dispatch_def)
  next
    case Console_terminate
    with assms show ?thesis by (intro disjI2 exI [of _ CallTerminate]) (simp add: prog_dispatch_def)
  next
    case Console_restart
    with assms show ?thesis by (intro disjI2 exI [of _ CallRestart]) (simp add: prog_dispatch_def)
  next
    case Console_stopObserving
    with assms show ?thesis
      by (intro disjI2 exI [of _ "CallCommand \<lparr>command_type = StopObserving, durationSec = 60\<rparr>"])
        (auto simp: prog_dispatch_def)
  next
    case Console_startObserving
    with assms show ?thesis
      by (intro disjI2 exI [of _ "CallCommand \<lparr>command_type = StartObserving, durationSec = 1\<rparr>"])
        (auto simp: prog_dispatch_def)
  next
    case Console_stressMode
    with assms show ?thesis
      by (intro disjI2 exI [of _ "CallCommand \<lparr>command_type = StressMode, durationSec = 0\<rparr>"])
        (auto simp: prog_dispatch_def)
  next
    case Console_setNormalMode
    with assms show ?thesis
      by (intro disjI2 exI [of _ "CallCommand \<lparr>command_type = SetNormalMode, durationSec = 0\<rparr>"])
        (auto simp: prog_dispatch_def)
  qed (use assms in \<open>simp_all add: prog_dispatch_def\<close>)
  then show "sys_moves s False (c = Console_restart) s'" unfolding sys_moves_def by blast
  show "handlers_ok d \<Longrightarrow> handlers_ok d'"
    using assms by (cases c) (auto simp: prog_dispatch_def setState_def)
qed

subsection \<open>Invariant\<close>

definition exit_code :: "bool \<Rightarrow> int" where
  "exit_code spawn_self = (if spawn_self then 0 else 1)"

definition self_ended :: "program \<Rightarrow> bool" where
  "self_ended p \<longleftrightarrow> \<not> body_active (wb_phase (pg_self p))"

lemma self_ended_frame [simp]:
  "self_ended (p\<lparr>pg_sys := s\<rparr>) = self_ended p" "self_ended (p\<lparr>pg_pc := pc\<rparr>) = self_ended p"
  "self_ended (p\<lparr>pg_daemon := d\<rparr>) = self_ended p"
  "self_ended (p\<lparr>pg_self := w\<rparr>) = (\<not> body_active (wb_phase w))"
  by (simp_all add: self_ended_def)

text \<open>What holds at each place of \<open>main\<close>.\<close>

definition pc_ok :: "bool \<Rightarrow> program \<Rightarrow> bool" where
  "pc_ok spawn_self p \<longleftrightarrow> (case pg_pc p of
     Starting \<Rightarrow> pg_self p = wb_new \<and> m_HandlerBeforeToStart (pg_daemon p) = Some (start_handler spawn_self)
   | InLoop \<Rightarrow> spawn_self
   | Stopping \<Rightarrow> spawn_self \<and> sy_main (pg_sys p) = MainIdle
   | Closing \<Rightarrow> spawn_self \<and> sy_main (pg_sys p) = MainIdle
   | Destroying code \<Rightarrow> code = exit_code spawn_self \<and> self_ended p \<and> sy_main (pg_sys p) = MainIdle
   | Joined code \<Rightarrow> code = exit_code spawn_self \<and> self_ended p \<and> ((\<exists>is. sy_main (pg_sys p) = Joining True is) \<or>
       sy_main (pg_sys p) = MainIdle \<and> tm_tasks (sy_tm (pg_sys p)) = [])
   | Ended code \<Rightarrow> code = exit_code spawn_self \<and> self_ended p \<and> sy_main (pg_sys p) = MainIdle \<and> tm_tasks (sy_tm (pg_sys p)) = [])"

definition prog_inv :: "bool \<Rightarrow> program \<Rightarrow> bool" where
  "prog_inv spawn_self p \<longleftrightarrow> sys_inv (pg_sys p) \<and> handlers_ok (pg_daemon p) \<and> wb_inv (pg_self p) \<and> pc_ok spawn_self p"

lemma thread_frame:
  assumes "of_thread a" and "sys_step a s = Inr s'"
  shows "sy_main s' = sy_main s" and "tm_tasks (sy_tm s') = tm_tasks (sy_tm s)"
    and "tm_sources (sy_tm s') = tm_sources (sy_tm s)" and "tm_current (sy_tm s') = tm_current (sy_tm s)"
  using assms
  by (cases a; auto simp: sys_begin_def sys_test_def sys_loop_def sys_send_def sys_finish_def
      simp del: chain_step.simps split: phase.splits if_splits sum.splits)+

lemma pc_ok_sys:
  assumes "pc_ok spawn_self p" and "sy_main s = sy_main (pg_sys p)" and "tm_tasks (sy_tm s) = tm_tasks (sy_tm (pg_sys p))"
  shows "pc_ok spawn_self (p\<lparr>pg_sys := s\<rparr>)"
  using assms by (simp add: pc_ok_def split: main_pc.splits)

lemma pc_ok_continues:
  assumes "pc_ok spawn_self p" and "sy_main (pg_sys p) \<noteq> MainIdle"
  shows "pc_ok spawn_self (p\<lparr>pg_sys := main_continues spawn_ok (pg_sys p)\<rparr>)"
proof (cases "pg_pc p")
  case (Joined code)
  with assms obtain "is" where "sy_main (pg_sys p) = Joining True is" and "code = exit_code spawn_self" and "self_ended p"
    by (auto simp: pc_ok_def)
  with Joined show ?thesis
    by (auto simp: pc_ok_def main_continues_def sys_join_def split: list.splits option.splits)
qed (use assms in \<open>simp_all add: pc_ok_def\<close>)

lemma start_prog_inv:
  assumes "oi_new alloc_ok = Inr oi"
  shows "prog_inv spawn_self (prog_start spawn_self oi)"
  using sys_start_inv [OF assms] wb_inv_new
  by (simp add: prog_inv_def prog_start_def pc_ok_def handlers_ok_def main_handlers_def setUser2Function_def
      setUser1Function_def setReloadFunction_def setCloseFunction_def setStartFunction_def)

lemma sys_moves_inv:
  assumes "sys_inv s" and "sys_moves s False r s'"
  shows "sys_inv s'"
  using assms sys_step_keeps stop_requested_inv(1) by (auto simp: sys_moves_def)

lemma closeAll_ok:
  assumes "handlers_ok d" and "wb_inv (aw_self w)"
  obtains self where "closeAll d w = Some (True, d\<lparr>m_State := State_Stop\<rparr>, w\<lparr>aw_self := self\<rparr>)" and "wb_inv self"
    and "\<not> body_active (wb_phase self)"
proof -
  from stopAndWait_returns [OF assms(2)] obtain self where
    "wb_stopAndWait (tm_sources (aw_manager w)) (aw_self w) = Some self" "wb_inv self" "\<not> wb_isRunning self" by blast
  with assms(1) show ?thesis
    by (intro that [of self]) (simp_all add: closeAll_def handlers_ok_def close_handler_def Let_def wb_inv_def wb_isRunning_def)
qed

lemma startAll_ok:
  assumes "m_HandlerBeforeToStart d = Some (start_handler spawn_self)" and "aw_self w = wb_new" and "handlers_ok d"
  obtains self where "startAll d w = Some (spawn_self, d\<lparr>m_State := State_Running\<rparr>, w\<lparr>aw_self := self\<rparr>)" and "wb_inv self"
    and "spawn_self \<or> \<not> body_active (wb_phase self)"
proof -
  obtain ok self where start: "wb_start True spawn_self None wb_new = (ok, self)" by fastforce
  then have "ok = spawn_self" and "spawn_self \<or> \<not> body_active (wb_phase self)"
    by (auto simp: wb_start_def wb_new_def Let_def split: if_splits)
  moreover have "wb_inv self" using wb_inv_start [OF wb_inv_new start] .
  ultimately show ?thesis using start assms
    by (intro that [of self]) (simp_all add: startAll_def start_handler_def Let_def)
qed

lemma settle_new [simp]: "wb_settle src wb_new = wb_new"
  by (simp add: wb_settle_def wb_new_def wb_body_begin_def wb_body_mark_stopped_def Let_def)

lemma aw_self_view [simp]: "aw_self (view p) = pg_self p"
  by (simp add: view_def)

definition setup_step :: "prog_action \<Rightarrow> program \<Rightarrow> bool" where
  "setup_step a p \<longleftrightarrow> (case a of
     Main _ _ _ spawn_ok \<Rightarrow> spawn_ok \<or> (case sy_main (pg_sys p) of Adding _ \<Rightarrow> False | _ \<Rightarrow> True)
   | _ \<Rightarrow> True)"

lemma prog_main_inv:
  assumes inv: "prog_inv spawn_self p" and created: "setup_step (Main sigs arr key spawn_ok) p"
    and step: "prog_main background sigs arr key spawn_ok p = Inr p'"
  shows "prog_inv spawn_self p'"
proof (cases "sy_main (pg_sys p) = MainIdle")
  case False
  from created have "sys_moves (pg_sys p) False False (main_continues spawn_ok (pg_sys p))"
    using main_continues_moves [of "pg_sys p" spawn_ok] by (simp add: setup_step_def split: main_place.splits)
  with inv have "sys_inv (main_continues spawn_ok (pg_sys p))" by (auto simp: prog_inv_def intro: sys_moves_inv)
  with inv step False pc_ok_continues [of spawn_self p spawn_ok] show ?thesis
    by (auto simp: prog_main_def prog_inv_def)
next
  case idle: True
  show ?thesis
  proof (cases "pg_pc p")
    case Starting
    have "m_HandlerBeforeToStart (pg_daemon p) = Some (start_handler spawn_self)" "aw_self (view p) = wb_new"
      "handlers_ok (pg_daemon p)" using inv Starting by (simp_all add: prog_inv_def pc_ok_def)
    then obtain self where
      "startAll (pg_daemon p) (view p) = Some (spawn_self, (pg_daemon p)\<lparr>m_State := State_Running\<rparr>, (view p)\<lparr>aw_self := self\<rparr>)"
      "wb_inv self" "spawn_self \<or> \<not> body_active (wb_phase self)"
      by (rule startAll_ok)
    with inv step idle Starting show ?thesis
      by (cases spawn_self) (auto simp: prog_main_def prog_inv_def pc_ok_def exit_code_def)
  next
    case InLoop
    have "handlers_ok (deliver sigs (pg_daemon p))" using inv by (simp add: prog_inv_def)
    then obtain b d where run: "isRunning arr (deliver sigs (pg_daemon p)) (view p) = Some (b, d, view p)"
      and d: "handlers_ok d" by (rule isRunning_total)
    show ?thesis
    proof (cases "b \<and> \<not> background")
      case True
      with run step idle InLoop obtain d' s' where disp: "prog_dispatch (HandleConsole key) d (pg_sys p) = Inr (d', s')"
        and p': "p' = p\<lparr>pg_daemon := d', pg_self := pg_self p, pg_sys := s'\<rparr>"
        by (auto simp: prog_main_def split: sum.splits)
      from dispatch_moves(1) [OF disp] inv have "sys_inv s'" by (auto simp: prog_inv_def intro: sys_moves_inv)
      with p' inv InLoop dispatch_moves(2) [OF disp d] show ?thesis by (simp add: prog_inv_def pc_ok_def)
    next
      case False
      with run step idle InLoop inv d show ?thesis
        by (cases b) (auto simp: prog_main_def prog_inv_def pc_ok_def)
    qed
  next
    case Closing
    from inv obtain self where
      "closeAll (pg_daemon p) (view p) = Some (True, (pg_daemon p)\<lparr>m_State := State_Stop\<rparr>, (view p)\<lparr>aw_self := self\<rparr>)"
      "wb_inv self" "\<not> body_active (wb_phase self)"
      by (auto simp: prog_inv_def elim: closeAll_ok [where w = "view p"])
    with inv step idle Closing show ?thesis
      by (auto simp: prog_main_def prog_inv_def pc_ok_def exit_code_def)
  next
    case Stopping
    with inv step idle show ?thesis by (auto simp: prog_main_def prog_inv_def pc_ok_def stop_requested_inv)
  next
    case (Destroying code)
    from idle have "\<exists>is. sy_main (sys_call_stop True (pg_sys p)) = Joining True is" by (simp add: sys_call_stop_def)
    with Destroying inv step idle show ?thesis
      by (auto simp: prog_main_def prog_inv_def pc_ok_def sys_call_inv(1))
  qed (use inv step idle in \<open>auto simp: prog_main_def prog_inv_def pc_ok_def\<close>)
qed

lemma prog_step_keeps:
  assumes inv: "prog_inv spawn_self p" and created: "setup_step a p" and step: "prog_step background a p = Inr p'"
  shows "prog_inv spawn_self p'"
proof (cases a)
  case (Thread b)
  show ?thesis
  proof (cases "of_thread b")
    case True
    with step Thread obtain s where s: "sys_step b (pg_sys p) = Inr s" "p' = p\<lparr>pg_sys := s\<rparr>"
      by (auto split: sum.splits)
    from True have "b \<noteq> AddNext False" by auto
    with inv s(1) have "sys_inv s" by (auto simp: prog_inv_def intro: sys_step_keeps)
    with inv s pc_ok_sys [OF _ thread_frame(1,2) [OF True s(1)]] show ?thesis by (simp add: prog_inv_def)
  qed (use inv step Thread in simp)
next
  case SelfProgress
  have "pc_ok spawn_self (p\<lparr>pg_self := wb_settle (tm_sources (sy_tm (pg_sys p))) (pg_self p)\<rparr>)"
    using inv settle_inactive [of "pg_self p" "tm_sources (sy_tm (pg_sys p))"]
    by (auto simp: prog_inv_def pc_ok_def self_ended_def split: main_pc.splits)
  with SelfProgress inv step show ?thesis by (auto simp: prog_inv_def wb_inv_settle)
next
  case (Main sigs arr key spawn_ok)
  with prog_main_inv [OF inv] created step show ?thesis by simp
qed

lemma prog_exec_keeps:
  "prog_inv spawn_self p \<Longrightarrow> setup_ok background as p \<Longrightarrow> prog_exec background as p = Inr p' \<Longrightarrow> prog_inv spawn_self p'"
proof (induction as arbitrary: p)
  case (Cons a as)
  then obtain p1 where p1: "prog_step background a p = Inr p1" "prog_exec background as p1 = Inr p'"
    by (auto split: sum.splits)
  moreover have "setup_step a p" using Cons.prems(2) by (simp add: setup_step_def split: prog_action.splits)
  moreover from calculation have "prog_inv spawn_self p1" using prog_step_keeps [OF Cons.prems(1)] by blast
  ultimately show ?case using Cons.IH [of p1] Cons.prems(2) by simp
qed simp

subsection \<open>No fault\<close>

lemma main_moves:
  assumes d: "handlers_ok (pg_daemon p)" and step: "prog_main background sigs arr key spawn_ok p = Inr p'"
  shows "sys_moves (pg_sys p) (\<not> spawn_ok \<and> (case sy_main (pg_sys p) of Adding _ \<Rightarrow> True | _ \<Rightarrow> False))
    (key = Some (CHR ''r'')) (pg_sys p')"
proof (cases "sy_main (pg_sys p) = MainIdle")
  case False
  with step main_continues_moves [of "pg_sys p" spawn_ok] show ?thesis by (auto simp: prog_main_def sys_moves_def)
next
  case idle: True
  show ?thesis
  proof (cases "pg_pc p")
    case InLoop
    have "handlers_ok (deliver sigs (pg_daemon p))" using d by simp
    then obtain b d where run: "isRunning arr (deliver sigs (pg_daemon p)) (view p) = Some (b, d, view p)"
      by (rule isRunning_total)
    show ?thesis
    proof (cases "b \<and> \<not> background")
      case True
      with run step idle InLoop obtain d' where "prog_dispatch (HandleConsole key) d (pg_sys p) = Inr (d', pg_sys p')"
        by (auto simp: prog_main_def split: sum.splits)
      from dispatch_moves(1) [OF this] show ?thesis by (auto simp: sys_moves_def console_restart_key)
    next
      case False
      with run step idle InLoop show ?thesis by (cases b) (auto simp: prog_main_def sys_moves_def)
    qed
  next
    case Stopping
    with step idle show ?thesis by (auto simp: prog_main_def sys_moves_def)
  next
    case (Destroying code)
    with step idle have "sys_step CallTerminate (pg_sys p) = Inr (pg_sys p')" by (auto simp: prog_main_def)
    then show ?thesis unfolding sys_moves_def by (intro disjI2 exI [of _ CallTerminate]) simp
  qed (use step idle in \<open>auto simp: prog_main_def sys_moves_def split: option.splits\<close>)
qed

lemma moves_events:
  assumes "sys_inv s" and "sys_moves s adds restarts s'"
  shows "length (ch_events (sy_chain s')) \<le> length (ch_events (sy_chain s))"
  using assms sys_step_events [OF assms(1)] by (fastforce simp: sys_moves_def)

fun prog_generates :: "prog_action \<Rightarrow> bool" where
  "prog_generates (Thread a) = generates a"
| "prog_generates _ = False"

lemma prog_main_total:
  assumes "prog_inv spawn_self p"
  shows "\<exists>p'. prog_main background sigs arr key spawn_ok p = Inr p'"
proof -
  have "\<exists>x. prog_dispatch c d (pg_sys p) = Inr x" for c d
    using assms sys_call_inv(3) [of "pg_sys p"] by (cases c) (force simp: prog_dispatch_def prog_inv_def)+
  then have "prog_dispatch c d (pg_sys p) \<noteq> Inl fault" for c d fault by (metis Inl_Inr_False)
  then show ?thesis
    by (simp add: prog_main_def split: main_pc.split option.split sum.split prod.split)
qed

lemma prog_step_total:
  assumes inv: "prog_inv spawn_self p"
    and room: "int (length (ch_events (sy_chain (pg_sys p)))) + (if prog_generates a then 1 else 0) \<le> int_max"
  obtains p' where "prog_step background a p = Inr p'"
    and "length (ch_events (sy_chain (pg_sys p'))) \<le>
      length (ch_events (sy_chain (pg_sys p))) + (if prog_generates a then 1 else 0)"
proof (cases a)
  case (Thread b)
  show ?thesis
  proof (cases "of_thread b")
    case True
    from True have "b \<noteq> AddNext False" by auto
    moreover have "sys_inv (pg_sys p)" using inv by (simp add: prog_inv_def)
    moreover have "\<not> int_max < int (length (ch_events (sy_chain (pg_sys p)))) + (if generates b then 1 else 0)"
      using room Thread by simp
    ultimately obtain s where "sys_step b (pg_sys p) = Inr s" using sys_step_inv by blast
    with True Thread sys_step_events [OF \<open>sys_inv (pg_sys p)\<close> this] that show ?thesis by simp
  qed (use Thread that in simp)
next
  case (Main sigs arr key spawn_ok)
  from prog_main_total [OF inv] obtain p' where p': "prog_main background sigs arr key spawn_ok p = Inr p'" by blast
  with main_moves [OF _ this] moves_events inv Main that show ?thesis by (fastforce simp: prog_inv_def)
qed (use that in simp)

lemma prog_exec_total:
  "prog_inv spawn_self p \<Longrightarrow> setup_ok background as p \<Longrightarrow>
   int (length (ch_events (sy_chain (pg_sys p)))) + int (length (filter prog_generates as)) \<le> int_max \<Longrightarrow>
     \<exists>p'. prog_exec background as p = Inr p'"
proof (induction as arbitrary: p)
  case (Cons a as)
  have "int (length (ch_events (sy_chain (pg_sys p)))) + (if prog_generates a then 1 else 0) \<le> int_max"
    using Cons.prems(3) by (auto split: if_splits)
  from prog_step_total [OF Cons.prems(1) this] obtain p1 where p1: "prog_step background a p = Inr p1"
    and events: "length (ch_events (sy_chain (pg_sys p1))) \<le>
      length (ch_events (sy_chain (pg_sys p))) + (if prog_generates a then 1 else 0)" by blast
  have "setup_step a p" using Cons.prems(2) by (simp add: setup_step_def split: prog_action.splits)
  from prog_step_keeps [OF Cons.prems(1) this p1] have "prog_inv spawn_self p1" .
  moreover have "setup_ok background as p1" using Cons.prems(2) p1 by simp
  moreover have "int (length (ch_events (sy_chain (pg_sys p1)))) + int (length (filter prog_generates as)) \<le> int_max"
    using Cons.prems(3) events by (auto split: if_splits)
  ultimately show ?case using Cons.IH [of p1] p1 by simp
qed simp

subsection \<open>The stop request of the program\<close>

definition prog_asked :: "program \<Rightarrow> bool" where
  "prog_asked p \<longleftrightarrow> inv_reached (pg_sys p) \<and>
     (pg_pc p \<in> {Closing, Destroying 0} \<union> range Joined \<union> range Ended \<longrightarrow>
        ss_requested (tm_sources (sy_tm (pg_sys p)) (tm_current (sy_tm (pg_sys p)))))"

lemma moves_reached:
  assumes "inv_reached s" and "sys_moves s adds restarts s'" and "restarts \<Longrightarrow> sys_quiet s"
  shows "inv_reached s'"
  using assms sys_step_reached stop_requested_inv(2) by (auto simp: sys_moves_def)

definition quiet_step :: "prog_action \<Rightarrow> program \<Rightarrow> bool" where
  "quiet_step a p \<longleftrightarrow> (case a of Main _ _ key _ \<Rightarrow> key = Some (CHR ''r'') \<longrightarrow> sys_quiet (pg_sys p) | _ \<Rightarrow> True)"

lemma join_same_sources:
  "tm_sources (sy_tm (sys_join s)) = tm_sources (sy_tm s)" "tm_current (sy_tm (sys_join s)) = tm_current (sy_tm s)"
  by (auto simp: sys_join_def split: main_place.split list.split option.split)

lemma prog_main_asked:
  assumes inv: "prog_inv spawn_self p" and asked: "prog_asked p" and quiet: "quiet_step (Main sigs arr key spawn_ok) p"
    and step: "prog_main background sigs arr key spawn_ok p = Inr p'"
  shows "prog_asked p'"
proof -
  from inv have "handlers_ok (pg_daemon p)" by (simp add: prog_inv_def)
  from moves_reached [OF _ main_moves [OF this step]] asked quiet have reached: "inv_reached (pg_sys p')"
    by (simp add: prog_asked_def quiet_step_def)
  show ?thesis
  proof (cases "sy_main (pg_sys p) = MainIdle")
    case False
    then have p': "pg_pc p' = pg_pc p" "pg_sys p' = main_continues spawn_ok (pg_sys p)"
      using step by (auto simp: prog_main_def)
    have "main_continues spawn_ok (pg_sys p) = sys_join (pg_sys p)"
      if "pg_pc p \<in> {Closing, Destroying 0} \<union> range Joined \<union> range Ended"
      using that False inv by (auto simp: prog_inv_def pc_ok_def main_continues_def)
    with p' reached asked show ?thesis by (simp add: prog_asked_def join_same_sources)
  next
    case True
    with reached asked step show ?thesis
      by (auto simp: prog_asked_def prog_main_def stop_requested_inv(3) sys_call_stop_def request_stop_def
          split: main_pc.splits option.splits if_splits sum.splits)
  qed
qed

lemma prog_step_asked:
  assumes inv: "prog_inv spawn_self p" and asked: "prog_asked p" and quiet: "quiet_step a p"
    and step: "prog_step background a p = Inr p'"
  shows "prog_asked p'"
proof (cases a)
  case (Thread b)
  show ?thesis
  proof (cases "of_thread b")
    case True
    with step Thread obtain s where s: "sys_step b (pg_sys p) = Inr s" "p' = p\<lparr>pg_sys := s\<rparr>"
      by (auto split: sum.splits)
    from True have "b \<noteq> CallRestart" by auto
    with sys_step_reached [OF _ s(1)] asked have "inv_reached s" by (simp add: prog_asked_def)
    with asked s(2) thread_frame(3,4) [OF True s(1)] show ?thesis by (simp add: prog_asked_def)
  qed (use asked step Thread in simp)
next
  case (Main sigs arr key spawn_ok)
  with prog_main_asked [OF inv asked] quiet step show ?thesis by simp
qed (use asked step in \<open>auto simp: prog_asked_def\<close>)

lemma prog_exec_asked:
  "prog_inv spawn_self p \<Longrightarrow> prog_asked p \<Longrightarrow> setup_ok background as p \<Longrightarrow> restart_keys_quiet background as p \<Longrightarrow>
     prog_exec background as p = Inr p' \<Longrightarrow> prog_asked p'"
proof (induction as arbitrary: p)
  case (Cons a as)
  then obtain p1 where p1: "prog_step background a p = Inr p1" "prog_exec background as p1 = Inr p'"
    by (auto split: sum.splits)
  have "setup_step a p" using Cons.prems(3) by (simp add: setup_step_def split: prog_action.splits)
  with prog_step_keeps [OF Cons.prems(1)] p1(1) have "prog_inv spawn_self p1" by blast
  moreover have "quiet_step a p" using Cons.prems(4) by (simp add: quiet_step_def split: prog_action.splits)
  with prog_step_asked [OF Cons.prems(1,2)] p1(1) have "prog_asked p1" by blast
  ultimately show ?case using Cons.IH [of p1] Cons.prems(3,4) p1 by simp
qed simp

lemma start_prog_asked: "prog_asked (prog_start spawn_self oi)"
  by (auto simp: prog_asked_def prog_start_def sys_start_reached)

subsection \<open>The program ends\<close>

text \<open>The steps the main thread still owes, beside those of the call it is in, and those of the manager's thread.\<close>

fun pc_owed :: "main_pc \<Rightarrow> nat \<Rightarrow> nat" where
  "pc_owed Closing tasks = tasks + 4"
| "pc_owed (Destroying _) tasks = tasks + 3"
| "pc_owed (Joined _) tasks = 1"
| "pc_owed _ tasks = 0"

fun self_owed :: "phase \<Rightarrow> nat" where
  "self_owed (Spawned _) = 3"
| "self_owed (InRun _) = 2"
| "self_owed Leaving = 1"
| "self_owed _ = 0"

definition prog_owed :: "program \<Rightarrow> nat" where
  "prog_owed p = pc_owed (pg_pc p) (length (tm_tasks (sy_tm (pg_sys p)))) + self_owed (wb_phase (pg_self p)) +
     sys_owed (pg_sys p)"

definition ending :: "program \<Rightarrow> bool" where
  "ending p \<longleftrightarrow> prog_inv True p \<and> prog_asked p \<and> pg_pc p \<in> {Closing, Destroying 0} \<union> range Joined \<union> range Ended"

fun prog_changing :: "bool \<Rightarrow> prog_action list \<Rightarrow> program \<Rightarrow> bool" where
  "prog_changing background [] p = True"
| "prog_changing background (a # as) p = (case prog_step background a p of
     Inl _ \<Rightarrow> False
   | Inr p' \<Rightarrow> p' \<noteq> p \<and> prog_changing background as p')"

definition prog_at_rest :: "bool \<Rightarrow> program \<Rightarrow> bool" where
  "prog_at_rest background p \<longleftrightarrow> (\<forall>a. prog_step background a p = Inr p)"

lemma ending_stopping:
  assumes "ending p"
  shows "stopping (pg_sys p)"
  using assms by (auto simp: ending_def prog_inv_def prog_asked_def stopping_def pc_ok_def)

lemma ending_steps:
  assumes "ending p"
  shows "setup_step a p"
  using assms by (auto simp: ending_def prog_inv_def pc_ok_def setup_step_def split: prog_action.splits main_place.splits)

lemma settle_owed: "wb_settle src w = w \<or> self_owed (wb_phase (wb_settle src w)) < self_owed (wb_phase w)"
  by (cases "wb_phase w")
    (auto simp: wb_settle_def wb_body_begin_def wb_body_return_def wb_body_mark_stopped_def Let_def split: option.split)

lemma thread_owes_less:
  assumes "ending p" and "of_thread a" and step: "prog_step background (Thread a) p = Inr p'"
  shows "p' = p \<or> prog_owed p' < prog_owed p"
proof -
  from assms obtain s where s: "sys_step a (pg_sys p) = Inr s" "p' = p\<lparr>pg_sys := s\<rparr>" by (auto split: sum.splits)
  have "\<not> is_call a" using assms(2) by (cases a) simp_all
  from stopping_step(2) [OF ending_stopping [OF assms(1)] s(1) this] thread_frame(2) [OF assms(2) s(1)] s(2)
  show ?thesis by (auto simp: prog_owed_def)
qed

lemma main_owes_less:
  assumes e: "ending p" and step: "prog_main background sigs arr key spawn_ok p = Inr p'"
  shows "p' = p \<or> prog_owed p' < prog_owed p"
proof (cases "sy_main (pg_sys p) = MainIdle")
  case False
  with e have "\<exists>code. pg_pc p = Joined code" and "main_continues spawn_ok (pg_sys p) = sys_join (pg_sys p)"
    by (auto simp: ending_def prog_inv_def pc_ok_def main_continues_def)
  with step False stopping_join [OF ending_stopping [OF e]] show ?thesis
    by (auto simp: prog_main_def prog_owed_def)
next
  case idle: True
  show ?thesis
  proof (cases "pg_pc p")
    case Closing
    from e obtain self where
      "closeAll (pg_daemon p) (view p) = Some (True, (pg_daemon p)\<lparr>m_State := State_Stop\<rparr>, (view p)\<lparr>aw_self := self\<rparr>)"
      and self: "\<not> body_active (wb_phase self)"
      by (auto simp: ending_def prog_inv_def elim: closeAll_ok [where w = "view p"])
    with step idle Closing have "pg_sys p' = pg_sys p" "pg_self p' = self" "pg_pc p' = Destroying 0"
      by (auto simp: prog_main_def)
    moreover have "self_owed (wb_phase self) = 0" using self by (cases "wb_phase self") simp_all
    ultimately have "prog_owed p' < prog_owed p" using Closing by (simp add: prog_owed_def)
    then show ?thesis by simp
  next
    case (Destroying code)
    then show ?thesis using step idle
      by (auto simp: prog_main_def prog_owed_def sys_owed_def thread_owed_def sys_call_stop_def)
  next
    case (Joined code)
    then show ?thesis using step idle by (auto simp: prog_main_def prog_owed_def)
  qed (use e step idle in \<open>auto simp: ending_def prog_main_def\<close>)
qed

text \<open>Outside the main loop no key is read.\<close>

lemma no_key_outside:
  assumes "pg_pc p \<noteq> InLoop"
  shows "prog_main background sigs arr key spawn_ok p = prog_main background sigs arr None spawn_ok p"
  using assms by (cases "pg_pc p") (simp_all add: prog_main_def)

lemma ending_places:
  assumes "ending p" and "prog_main background sigs arr key spawn_ok p = Inr p'"
  shows "pg_pc p' \<in> {Closing, Destroying 0} \<union> range Joined \<union> range Ended"
  using assms by (auto simp: ending_def prog_main_def split: if_splits option.splits)

lemma ending_step:
  assumes e: "ending p" and step: "prog_step background a p = Inr p'"
  shows "ending p'" and "p' = p \<or> prog_owed p' < prog_owed p"
proof -
  have inv: "prog_inv True p" and asked: "prog_asked p" using e by (simp_all add: ending_def)
  have "prog_inv True p'" using prog_step_keeps [OF inv ending_steps [OF e] step] .
  moreover have "prog_asked p' \<and> pg_pc p' \<in> {Closing, Destroying 0} \<union> range Joined \<union> range Ended \<and>
    (p' = p \<or> prog_owed p' < prog_owed p)"
  proof (cases a)
    case (Thread b)
    show ?thesis
    proof (cases "of_thread b")
      case True
      have "quiet_step a p" using Thread by (simp add: quiet_step_def)
      from prog_step_asked [OF inv asked this step] thread_owes_less [OF e True] step Thread e True show ?thesis
        by (auto simp: ending_def split: sum.splits)
    qed (use Thread step asked e in \<open>auto simp: ending_def\<close>)
  next
    case SelfProgress
    have "quiet_step a p" using SelfProgress by (simp add: quiet_step_def)
    moreover have "p' = p \<or> prog_owed p' < prog_owed p"
      using step SelfProgress settle_owed [of "tm_sources (sy_tm (pg_sys p))" "pg_self p"] by (auto simp: prog_owed_def)
    ultimately show ?thesis
      using prog_step_asked [OF inv asked _ step] step SelfProgress e by (auto simp: ending_def)
  next
    case (Main sigs arr key spawn_ok)
    have "pg_pc p \<noteq> InLoop" using e by (auto simp: ending_def)
    with step Main have main: "prog_main background sigs arr None spawn_ok p = Inr p'"
      using no_key_outside [of p background sigs arr key spawn_ok] by simp
    with prog_main_asked [OF inv asked _ main] ending_places [OF e main] main_owes_less [OF e main] show ?thesis
      by (simp add: quiet_step_def)
  qed
  ultimately show "ending p'" and "p' = p \<or> prog_owed p' < prog_owed p" by (simp_all add: ending_def)
qed

lemma ending_exec:
  "ending p \<Longrightarrow> prog_changing background as p \<Longrightarrow>
     \<exists>p'. prog_exec background as p = Inr p' \<and> ending p' \<and> length as + prog_owed p' \<le> prog_owed p"
proof (induction as arbitrary: p)
  case (Cons a as)
  then obtain p1 where p1: "prog_step background a p = Inr p1" "p1 \<noteq> p" "prog_changing background as p1"
    by (auto split: sum.splits)
  from ending_step [OF Cons.prems(1) p1(1)] p1(2) have "ending p1" "prog_owed p1 < prog_owed p" by auto
  with Cons.IH [of p1] p1 show ?case by fastforce
qed simp

lemma ending_at_rest:
  assumes e: "ending p" and rest: "prog_at_rest background p"
  shows "pg_pc p = Ended 0 \<and> sy_main (pg_sys p) = MainIdle \<and> tm_tasks (sy_tm (pg_sys p)) = [] \<and> sys_quiet (pg_sys p)"
proof -
  note st = ending_stopping [OF e]
  have main: "prog_main background [] quiet None True p = Inr p"
    using rest [unfolded prog_at_rest_def, rule_format, of "Main [] quiet None True"] by simp
  have rest_sys: "at_rest (pg_sys p)"
  proof (unfold at_rest_def, intro allI)
    fix a
    show "is_call a \<or> sys_step a (pg_sys p) = Inr (pg_sys p)"
    proof (cases "of_thread a")
      case True
      with rest [unfolded prog_at_rest_def, rule_format, of "Thread a"] show ?thesis
        by (auto dest: arg_cong [where f = pg_sys] split: sum.splits)
    next
      case False
      have "sys_join (pg_sys p) = pg_sys p"
      proof (cases "sy_main (pg_sys p)")
        case (Joining clear "is")
        with main show ?thesis by (auto simp: prog_main_def main_continues_def dest: arg_cong [where f = pg_sys])
      qed (simp_all add: sys_join_def)
      with False st show ?thesis
        by (cases a) (auto simp: stopping_def sys_add_def sys_restart_def split: main_place.splits)
    qed
  qed
  from at_rest_quiet [OF st this] have quiet: "sys_quiet (pg_sys p)" and idle: "sy_main (pg_sys p) = MainIdle" .
  have "pg_pc p = Ended 0"
  proof (cases "pg_pc p")
    case Closing
    from e obtain self where
      "closeAll (pg_daemon p) (view p) = Some (True, (pg_daemon p)\<lparr>m_State := State_Stop\<rparr>, (view p)\<lparr>aw_self := self\<rparr>)"
      by (auto simp: ending_def prog_inv_def elim: closeAll_ok [where w = "view p"])
    with main idle Closing show ?thesis by (auto simp: prog_main_def dest: arg_cong [where f = pg_pc])
  qed (use e main idle in \<open>auto simp: ending_def prog_main_def prog_inv_def pc_ok_def exit_code_def
      dest: arg_cong [where f = pg_pc]\<close>)
  with quiet idle e show ?thesis by (auto simp: ending_def prog_inv_def pc_ok_def)
qed

text \<open>The key \<open>q\<close>: the loop ends at the next poll and the stop request follows.\<close>

lemma quit_key_ends:
  assumes inv: "prog_inv spawn_self p" and loop: "pg_pc p = InLoop" and idle: "sy_main (pg_sys p) = MainIdle"
  obtains p' where "prog_exec False [Main [] quiet (Some (CHR ''q'')) ok, Main [] quiet key ok, Main [] quiet key ok] p = Inr p'"
    and "pg_pc p' \<in> {Closing, Destroying 0}"
    and "ss_requested (tm_sources (sy_tm (pg_sys p')) (tm_current (sy_tm (pg_sys p'))))"
proof -
  have h: "handlers_ok (pg_daemon p)" and spawned: "spawn_self"
    using inv loop by (simp_all add: prog_inv_def pc_ok_def)
  from h obtain b d where run: "isRunning quiet (pg_daemon p) (view p) = Some (b, d, view p)" and d: "handlers_ok d"
    by (rule isRunning_total)
  show ?thesis
  proof (cases b)
    case True
    let ?p1 = "p\<lparr>pg_daemon := setState State_Stop d\<rparr>"
    have "isRunning quiet (setState State_Stop d) (view ?p1) = Some (False, setState State_Stop d, view ?p1)"
      by (simp add: isRunning_settled setState_def)
    then show ?thesis using True run loop idle
      by (intro that, simp add: prog_main_def prog_dispatch_def HandleConsole_def)
        (simp_all add: stop_requested_inv(3))
  next
    case False
    let ?p2 = "p\<lparr>pg_daemon := d, pg_pc := Closing, pg_sys := stop_requested (pg_sys p)\<rparr>"
    from d inv obtain self where
      "closeAll d (view ?p2) = Some (True, d\<lparr>m_State := State_Stop\<rparr>, (view ?p2)\<lparr>aw_self := self\<rparr>)"
      by (auto simp: prog_inv_def elim: closeAll_ok [where w = "view ?p2"])
    then show ?thesis using False run loop idle
      by (intro that, simp add: prog_main_def view_def) (simp_all add: stop_requested_inv(3))
  qed
qed

text \<open>The states the program reaches, with the assumptions on its environment.\<close>

definition prog_reach :: "bool \<Rightarrow> bool \<Rightarrow> Observer \<Rightarrow> prog_action list \<Rightarrow> program \<Rightarrow> bool" where
  "prog_reach spawn_self background oi as p \<longleftrightarrow> setup_ok background as (prog_start spawn_self oi) \<and>
     prog_exec background as (prog_start spawn_self oi) = Inr p"

lemma reach_inv:
  assumes "oi_new alloc_ok = Inr oi" and "prog_reach spawn_self background oi as p"
  shows "prog_inv spawn_self p"
  using assms prog_exec_keeps [OF start_prog_inv] by (auto simp: prog_reach_def)

lemma reach_asked:
  assumes "oi_new alloc_ok = Inr oi" and "prog_reach spawn_self background oi as p"
    and "restart_keys_quiet background as (prog_start spawn_self oi)"
  shows "prog_asked p"
  using assms(2,3) prog_exec_asked [OF start_prog_inv [OF assms(1)] start_prog_asked] by (auto simp: prog_reach_def)

subsection \<open>Properties\<close>


definition main_steps :: "nat \<Rightarrow> prog_action list" where
  "main_steps n = replicate n (Main [] quiet None True)"

definition prog_up :: "prog_action list" where
  "prog_up = main_steps 8 @ [SelfProgress]"

definition prog_round :: "prog_action list" where
  "prog_round = map Thread one_round"

definition demo_program :: "bool \<Rightarrow> program" where
  "demo_program spawn_self = (case oi_new (\<lambda>_. True) of Inr oi \<Rightarrow> prog_start spawn_self oi)"


text \<open>
  Property C13 (safety): what is left when \<open>main\<close> has returned. The exit code is 0 exactly if the
  manager's thread could be created; no thread of the program runs any more, no task is managed, no
  message is half sent and no call of the manager is under way.
\<close>

theorem program_end_state:
  assumes "oi_new alloc_ok = Inr oi" and "prog_reach spawn_self background oi as p" and "pg_pc p = Ended code"
  shows "code = (if spawn_self then 0 else 1) \<and> \<not> body_active (wb_phase (pg_self p)) \<and> sys_quiet (pg_sys p) \<and>
    tm_tasks (sy_tm (pg_sys p)) = [] \<and> (\<forall>u. ch_outbox (sy_chain (pg_sys p)) u = []) \<and>
    sy_main (pg_sys p) = MainIdle"
proof -
  from reach_inv [OF assms(1,2)] have inv: "sys_inv (pg_sys p)" and pc: "pc_ok spawn_self p"
    by (simp_all add: prog_inv_def)
  with assms(3) have at: "code = exit_code spawn_self" "self_ended p" "sy_main (pg_sys p) = MainIdle"
    "tm_tasks (sy_tm (pg_sys p)) = []" by (simp_all add: pc_ok_def)
  with inv have quiet: "sys_quiet (pg_sys p)" by (auto simp: sys_quiet_def sys_inv_def inv_workers_def)
  with inv have "ch_outbox (sy_chain (pg_sys p)) u = []" for u by (simp add: sys_quiet_def idle_outbox)
  with at quiet show ?thesis by (simp add: exit_code_def self_ended_def)
qed

theorem program_end_state_witness:
  "\<exists>p. prog_exec False (main_steps 9 @ map Thread (all_begin @ [Begin OI] @ all_stop) @ main_steps 8) (demo_program False) =
      Inr p \<and> pg_pc p = Ended 1 \<and> sys_quiet (pg_sys p)"
proof -
  obtain oi where new: "oi_new (\<lambda>_. True) = Inr oi" using oi_new_exists by blast
  then have demo: "demo_program False = prog_start False oi" by (simp add: demo_program_def)
  let ?as = "main_steps 9 @ map Thread (all_begin @ [Begin OI] @ all_stop) @ main_steps 8"
  have "setup_ok False ?as (demo_program False)"
    and "(case prog_exec False ?as (demo_program False) of Inr p \<Rightarrow> pg_pc p = Ended 1 | _ \<Rightarrow> False)" by code_simp+
  then obtain p where "prog_reach False False oi ?as p" and p: "prog_exec False ?as (demo_program False) = Inr p"
    "pg_pc p = Ended 1" by (auto simp: prog_reach_def demo simp del: prog_exec.simps setup_ok.simps split: sum.splits)
  from program_end_state [OF new this(1,3)] p show ?thesis by blast
qed


text \<open>A step that moves the main thread or a thread of the chain changes the program.\<close>

definition positions :: "program \<Rightarrow> main_pc \<times> main_place \<times> (phase \<times> place) list" where
  "positions p = (pg_pc p, sy_main (pg_sys p),
     map (\<lambda>u. (wb_phase (worker (pg_sys p) u), sy_place (pg_sys p) u)) [OI, AO, PT, TT, RT])"

fun prog_moving :: "bool \<Rightarrow> prog_action list \<Rightarrow> program \<Rightarrow> bool" where
  "prog_moving background [] p = True"
| "prog_moving background (a # as) p = (case prog_step background a p of
     Inl _ \<Rightarrow> False
   | Inr p' \<Rightarrow> positions p' \<noteq> positions p \<and> prog_moving background as p')"

lemma moving_changing: "prog_moving background as p \<Longrightarrow> prog_changing background as p"
  by (induction background as p rule: prog_moving.induct) (auto split: sum.splits)

definition prog_quit :: "prog_action list" where
  "prog_quit = prog_up @ prog_round @ [Main [] quiet (Some (CHR ''q'')) True] @ main_steps 2"

definition prog_shutdown :: "prog_action list" where
  "prog_shutdown = main_steps 2 @ map Thread [Test OI, Finish OI, Test AO, Finish AO,
     Test PT, Finish PT, Test TT, Finish TT, Test RT, Finish RT] @ main_steps 7"




end
