(* ===== verification/Output.thy ===== *)
theory Output
  imports MainLoop
begin

text \<open>
  What the program prints: \<open>src/include/memoryUtils.hpp\<close>, \<open>safe_print\<close> of
  \<open>src/include/testThreads.hpp\<close> and the help of \<open>src/src/main.cpp\<close>.

  \<^item> Time is in nanoseconds; \<open>localtime_r\<close> is the C library's, an argument with the ranges of its
    fields as hypothesis. \<open>snprintf\<close> keeps what fits into its buffer.
  \<^item> The file \<open>/proc/self/status\<close> is a string. A number that does not fit into a \<open>long\<close> is
    undefined in \<open>sscanf\<close> and \<open>None\<close> here.
  \<^item> \<open>safe_print\<close> writes its arguments piece by piece while it holds the mutex of \<open>getLogMutex\<close>;
    the threads are numbered and their steps interleave.
\<close>

subsection \<open>Formatting\<close>

definition newline :: char where "newline = CHR 0x0A"

definition left_padded :: "nat \<Rightarrow> string \<Rightarrow> string" where
  "left_padded w s = s @ replicate (w - length s) (CHR '' '')"

text \<open>The conversion \<open>%0wd\<close>.\<close>

definition zero_padded :: "nat \<Rightarrow> int \<Rightarrow> string" where
  "zero_padded w i =
     (if i < 0 then CHR ''-'' # replicate (w - 1 - length (decimal (nat (- i)))) (CHR ''0'') @ decimal (nat (- i))
      else replicate (w - length (decimal (nat i))) (CHR ''0'') @ decimal (nat i))"

definition snprintf :: "nat \<Rightarrow> string \<Rightarrow> string" where
  "snprintf buffer_size s = take (buffer_size - 1) s"

definition trem :: "int \<Rightarrow> int \<Rightarrow> int" where
  "trem a b = a - b * tdiv a b"

definition currentTimestamp :: "(int \<Rightarrow> int \<times> int \<times> int) \<Rightarrow> int \<Rightarrow> string" where
  "currentTimestamp localtime now =
     (let us = trem (tdiv now 1000) 1000000;
          t = tdiv now 1000000000
      in case localtime t of (tm_hour, tm_min, tm_sec) \<Rightarrow>
           snprintf 32 (zero_padded 2 tm_hour @ '':'' @ zero_padded 2 tm_min @ '':'' @ zero_padded 2 tm_sec @
             ''.'' @ zero_padded 6 us))"

definition read_timestamp :: "string \<Rightarrow> (nat \<times> nat \<times> nat \<times> nat) option" where
  "read_timestamp s =
     (if length s = 15 \<and> s ! 2 = CHR '':'' \<and> s ! 5 = CHR '':'' \<and> s ! 8 = CHR ''.''
      then Some (parse_decimal (take 2 s), parse_decimal (take 2 (drop 3 s)),
        parse_decimal (take 2 (drop 6 s)), parse_decimal (drop 9 s))
      else None)"

lemma parse_decimal_zeros: "parse_decimal (replicate k (CHR ''0'') @ s) = parse_decimal s"
proof -
  have "foldl digit_value 0 (replicate k (CHR ''0'')) = 0"
    by (induction k) (simp_all add: digit_value_def)
  then show ?thesis by (simp add: parse_decimal_def)
qed

lemma decimal_length: "n < 10 ^ w \<Longrightarrow> 0 < w \<Longrightarrow> length (decimal n) \<le> w"
proof (induction n arbitrary: w rule: decimal.induct)
  case (1 n)
  show ?case
  proof (cases "n < 10")
    case True
    with "1.prems" show ?thesis by (simp add: decimal.simps [of n])
  next
    case False
    with "1.prems" obtain v where v: "w = Suc v" "0 < v" by (cases w; cases "w = 1") auto
    with "1.prems" have "n div 10 < 10 ^ v" by (auto simp: div_less_iff_less_mult)
    from "1.IH" [OF False this v(2)] False v show ?thesis by (simp add: decimal.simps [of n])
  qed
qed

lemma zero_padded_field:
  assumes "0 \<le> i" and "i < 10 ^ w" and "0 < w"
  shows "length (zero_padded w i) = w" and "parse_decimal (zero_padded w i) = nat i"
proof -
  have "nat i < 10 ^ w" using assms by (simp add: nat_less_iff)
  from decimal_length [OF this assms(3)] show "length (zero_padded w i) = w"
    using assms(1) by (simp add: zero_padded_def)
  show "parse_decimal (zero_padded w i) = nat i"
    using assms(1) by (simp add: zero_padded_def parse_decimal_zeros parse_decimal_inverse)
qed

lemma clock_field:
  "0 \<le> i \<Longrightarrow> i \<le> 60 \<Longrightarrow> length (zero_padded 2 i) = 2 \<and> parse_decimal (zero_padded 2 i) = nat i"
  using zero_padded_field [of i 2] by simp

lemma fields_read:
  assumes "length a = 2" and "length b = 2" and "length c = 2" and "length d = 6"
  shows "read_timestamp (a @ '':'' @ b @ '':'' @ c @ ''.'' @ d) =
    Some (parse_decimal a, parse_decimal b, parse_decimal c, parse_decimal d)"
  using assms by (simp add: read_timestamp_def nth_append)

subsection \<open>The memory figures\<close>

text \<open>\<open>std::getline\<close>: the rest after the last newline is a line unless it is empty.\<close>

fun getlines :: "string \<Rightarrow> string \<Rightarrow> string list" where
  "getlines acc [] = (if acc = [] then [] else [acc])"
| "getlines acc (c # cs) = (if c = newline then acc # getlines [] cs else getlines (acc @ [c]) cs)"

definition is_space :: "char \<Rightarrow> bool" where
  "is_space c \<longleftrightarrow> c = CHR '' '' \<or> (9 \<le> (of_char c :: nat) \<and> (of_char c :: nat) \<le> 13)"

definition is_digit :: "char \<Rightarrow> bool" where
  "is_digit c \<longleftrightarrow> 48 \<le> (of_char c :: nat) \<and> (of_char c :: nat) \<le> 57"

text \<open>
  \<open>%ld\<close> of \<open>sscanf\<close>: \<open>Inr None\<close> where no number follows and the variable keeps its value, \<open>Inl\<close> where
  the number does not fit.
\<close>

definition scan_long :: "string \<Rightarrow> unit + int option" where
  "scan_long s =
     (let s = dropWhile is_space s;
          negative = (s \<noteq> [] \<and> hd s = CHR ''-'');
          s = (if s \<noteq> [] \<and> (hd s = CHR ''-'' \<or> hd s = CHR ''+'') then tl s else s);
          digits = takeWhile is_digit s;
          i = (if negative then - int (parse_decimal digits) else int (parse_decimal digits))
      in if digits = [] then Inr None
         else if i < - (2 ^ 63) \<or> 2 ^ 63 \<le> i then Inl ()
         else Inr (Some i))"

definition scan_field :: "nat \<Rightarrow> string \<Rightarrow> int \<Rightarrow> int option" where
  "scan_field tag_length line old = (case scan_long (drop tag_length line) of
     Inl _ \<Rightarrow> None
   | Inr None \<Rightarrow> Some old
   | Inr (Some i) \<Rightarrow> Some i)"

fun read_status :: "string list \<Rightarrow> int \<times> int \<Rightarrow> (int \<times> int) option" where
  "read_status [] vm = Some vm"
| "read_status (line # lines) (vmSize, vmRSS) =
     (if take 7 line = ''VmSize:'' then
        (case scan_field 7 line vmSize of None \<Rightarrow> None | Some i \<Rightarrow> read_status lines (i, vmRSS))
      else if take 6 line = ''VmRSS:'' then
        (case scan_field 6 line vmRSS of None \<Rightarrow> None | Some i \<Rightarrow> read_status lines (vmSize, i))
      else read_status lines (vmSize, vmRSS))"

definition memory_line :: "string \<Rightarrow> int \<Rightarrow> int \<Rightarrow> string" where
  "memory_line label vmSize vmRSS = ''[MEMORY] '' @ left_padded 25 label @ '' | VmSize: '' @
     left_padded 8 (decimal_int vmSize) @ '' kB | VmRSS: '' @ left_padded 8 (decimal_int vmRSS) @ '' kB'' @ [newline]"

definition printMemoryUsage :: "string \<Rightarrow> string \<Rightarrow> string option" where
  "printMemoryUsage label statusFile =
     (case read_status (getlines [] statusFile) (-1, -1) of
        None \<Rightarrow> None
      | Some (vmSize, vmRSS) \<Rightarrow> Some (memory_line label vmSize vmRSS))"

text \<open>A status file as the kernel writes it: its fields, one per line.\<close>

datatype status_field = VmSizeField string nat | VmRSSField string nat | OtherField string

fun field_line :: "status_field \<Rightarrow> string" where
  "field_line (VmSizeField blank n) = ''VmSize:'' @ blank @ decimal n @ '' kB''"
| "field_line (VmRSSField blank n) = ''VmRSS:'' @ blank @ decimal n @ '' kB''"
| "field_line (OtherField s) = s"

fun field_ok :: "status_field \<Rightarrow> bool" where
  "field_ok (VmSizeField blank n) = (list_all is_space blank \<and> newline \<notin> set blank \<and> n < 2 ^ 63)"
| "field_ok (VmRSSField blank n) = (list_all is_space blank \<and> newline \<notin> set blank \<and> n < 2 ^ 63)"
| "field_ok (OtherField s) = (newline \<notin> set s \<and> take 7 s \<noteq> ''VmSize:'' \<and> take 6 s \<noteq> ''VmRSS:'')"

fun sizes :: "status_field list \<Rightarrow> int \<times> int \<Rightarrow> int \<times> int" where
  "sizes [] vm = vm"
| "sizes (VmSizeField _ n # fs) (vmSize, vmRSS) = sizes fs (int n, vmRSS)"
| "sizes (VmRSSField _ n # fs) (vmSize, vmRSS) = sizes fs (vmSize, int n)"
| "sizes (OtherField _ # fs) vm = sizes fs vm"

definition status_file :: "status_field list \<Rightarrow> string" where
  "status_file fs = concat (map (\<lambda>f. field_line f @ [newline]) fs)"

lemma getlines_line:
  "newline \<notin> set line \<Longrightarrow> getlines acc (line @ newline # rest) = (acc @ line) # getlines [] rest"
  by (induction line arbitrary: acc) auto

lemma is_digit_char: "d < 10 \<Longrightarrow> is_digit (char_of (48 + d :: nat))"
  unfolding is_digit_def by (subst of_char_digit, assumption)+ linarith

lemma decimal_digits: "list_all is_digit (decimal n)"
proof (induction n rule: decimal.induct)
  case (1 n)
  then show ?case using is_digit_char [of n] is_digit_char [of "n mod 10"]
    by (cases "n < 10") (simp_all add: decimal.simps [of n])
qed

lemma decimal_nonempty [simp]: "decimal n \<noteq> []"
  by (subst decimal.simps) simp

lemma digit_no_space: "is_digit c \<Longrightarrow> \<not> is_space c" "is_digit c \<Longrightarrow> c \<noteq> CHR ''-''" "is_digit c \<Longrightarrow> c \<noteq> CHR ''+''"
  "is_digit c \<Longrightarrow> c \<noteq> newline"
  by (auto simp: is_digit_def is_space_def newline_def)

lemma scan_number:
  assumes "list_all is_space blank" and "n < 2 ^ 63"
  shows "scan_long (blank @ decimal n @ '' kB'') = Inr (Some (int n))"
proof -
  obtain c ds where d: "decimal n = c # ds" by (cases "decimal n") auto
  with decimal_digits [of n] have c: "is_digit c" and "list_all is_digit ds" by simp_all
  then have digits: "takeWhile is_digit (ds @ '' kB'') = ds"
    by (simp add: takeWhile_append list_all_iff) (simp add: is_digit_def)
  have "dropWhile is_space (blank @ decimal n @ '' kB'') = decimal n @ '' kB''"
    using assms(1) c d digit_no_space(1) by (simp add: dropWhile_append list_all_iff)
  then show ?thesis
    using d c digits digit_no_space(2,3) [OF c] assms(2) parse_decimal_inverse [of n]
    by (simp add: scan_long_def Let_def)
qed

lemma field_line_no_newline: "field_ok f \<Longrightarrow> newline \<notin> set (field_line f)"
proof -
  have "newline \<notin> set (decimal n)" for n
    using decimal_digits [of n] digit_no_space(4) by (auto simp: list_all_iff)
  then show "field_ok f \<Longrightarrow> newline \<notin> set (field_line f)" by (cases f) (auto simp: newline_def)
qed

lemma status_lines: "list_all field_ok fs \<Longrightarrow> getlines [] (status_file fs) = map field_line fs"
proof (induction fs)
  case (Cons f fs)
  then show ?case using getlines_line [OF field_line_no_newline, of f "[]"] by (simp add: status_file_def)
qed (simp add: status_file_def)

lemma read_status_fields:
  "list_all field_ok fs \<Longrightarrow> read_status (map field_line fs) vm = Some (sizes fs vm)"
  by (induction fs vm rule: sizes.induct) (auto simp: scan_field_def scan_number)

subsection \<open>The shared log\<close>

text \<open>
  One call of \<open>safe_print\<close> is the list of its arguments as text. \<open>lg_owner\<close> is the holder of the
  mutex with the arguments it has still to write; \<open>lg_calls\<close> are the calls that have started, in the
  order in which they took the mutex.
\<close>

record log_state =
  lg_out :: string
  lg_owner :: "(nat \<times> string list) option"
  lg_calls :: "(nat \<times> string list) list"

datatype log_step = LockLog nat "string list" | WriteArgument nat | EndLine nat | PrintUnlocked string

definition log_new :: log_state where
  "log_new = \<lparr>lg_out = [], lg_owner = None, lg_calls = []\<rparr>"

definition safe_print_step :: "log_step \<Rightarrow> log_state \<Rightarrow> log_state" where
  "safe_print_step a s = (case a of
     LockLog t args \<Rightarrow>
       (if lg_owner s = None then s\<lparr>lg_owner := Some (t, args), lg_calls := lg_calls s @ [(t, args)]\<rparr> else s)
   | WriteArgument t \<Rightarrow> (case lg_owner s of
        Some (owner, arg # args) \<Rightarrow>
          if owner = t then s\<lparr>lg_out := lg_out s @ arg, lg_owner := Some (owner, args)\<rparr> else s
      | _ \<Rightarrow> s)
   | EndLine t \<Rightarrow>
       (if lg_owner s = Some (t, []) then s\<lparr>lg_out := lg_out s @ [newline], lg_owner := None\<rparr> else s)
   | PrintUnlocked text \<Rightarrow> s\<lparr>lg_out := lg_out s @ text\<rparr>)"

definition log_run :: "log_step list \<Rightarrow> log_state" where
  "log_run as = foldl (\<lambda>s a. safe_print_step a s) log_new as"

definition printed_line :: "nat \<times> string list \<Rightarrow> string" where
  "printed_line call = concat (snd call) @ [newline]"

definition locked_only :: "log_step list \<Rightarrow> bool" where
  "locked_only as \<longleftrightarrow> list_all (\<lambda>a. case a of PrintUnlocked _ \<Rightarrow> False | _ \<Rightarrow> True) as"

definition log_inv :: "log_state \<Rightarrow> bool" where
  "log_inv s \<longleftrightarrow> (case lg_owner s of
     None \<Rightarrow> lg_out s = concat (map printed_line (lg_calls s))
   | Some (t, args) \<Rightarrow> \<exists>calls before. lg_calls s = calls @ [(t, before @ args)] \<and>
       lg_out s = concat (map printed_line calls) @ concat before)"

lemma log_inv_step:
  assumes "log_inv s" and "\<And>text. a \<noteq> PrintUnlocked text"
  shows "log_inv (safe_print_step a s)"
proof (cases a)
  case (LockLog t args)
  with assms(1) show ?thesis by (auto simp: log_inv_def safe_print_step_def split: option.splits)
next
  case (WriteArgument t)
  show ?thesis
  proof (cases "\<exists>arg args. lg_owner s = Some (t, arg # args)")
    case True
    then obtain arg args where owner: "lg_owner s = Some (t, arg # args)" by blast
    with assms(1) obtain calls before where "lg_calls s = calls @ [(t, (before @ [arg]) @ args)]"
      "lg_out s @ arg = concat (map printed_line calls) @ concat (before @ [arg])" by (auto simp: log_inv_def)
    then have "\<exists>calls before. lg_calls s = calls @ [(t, before @ args)] \<and>
        lg_out s @ arg = concat (map printed_line calls) @ concat before" by blast
    with owner WriteArgument show ?thesis by (simp add: log_inv_def safe_print_step_def)
  next
    case False
    with WriteArgument have "safe_print_step a s = s"
      by (auto simp: safe_print_step_def split: option.splits list.splits)
    with assms(1) show ?thesis by simp
  qed
next
  case (EndLine t)
  with assms(1) show ?thesis by (auto simp: log_inv_def safe_print_step_def printed_line_def)
qed (use assms(2) in simp)

lemma log_run_inv: "locked_only as \<Longrightarrow> log_inv (log_run as)"
proof (induction as rule: rev_induct)
  case Nil
  then show ?case by (simp add: log_run_def log_new_def log_inv_def)
next
  case (snoc a as)
  then have "log_inv (log_run as)" and "\<And>text. a \<noteq> PrintUnlocked text" by (auto simp: locked_only_def)
  then show ?case using log_inv_step by (simp add: log_run_def)
qed

lemma log_calls_kept: "prefix (lg_calls s) (lg_calls (safe_print_step a s))"
  by (auto simp: safe_print_step_def split: log_step.splits option.splits list.splits prod.splits)

subsection \<open>Help\<close>

definition kOptionHelpLines :: "string list" where
  "kOptionHelpLines = [''  -D, --demonization       start in background'', ''  -v, --version            version'',
     ''  -h, --help               this message'']"

definition long_options :: "(string \<times> int) list" where
  "long_options = [(''help'', 0), (''version'', opt_v), (''background'', opt_D)]"

text \<open>What goes to the standard output and to the standard error, and whether the program exits.\<close>

record printed =
  out_text :: string
  err_text :: string
  exits_with :: "int option"

definition ShowVersion :: "string \<Rightarrow> printed" where
  "ShowVersion prog = \<lparr>out_text = prog @ [newline], err_text = [], exits_with = None\<rparr>"

definition DisplayHelp :: "string \<Rightarrow> string \<Rightarrow> printed" where
  "DisplayHelp programName errorOption =
     \<lparr>out_text = [newline] @ ''Usage: '' @ programName @ '' [OPTIONS]'' @ [newline, newline] @
        concat (map (\<lambda>option. option @ [newline]) kOptionHelpLines),
      err_text = (if errorOption \<noteq> [] then ''Error in option: '' @ errorOption @ [newline] else []),
      exits_with = (if errorOption \<noteq> [] then Some 1 else None)\<rparr>"

definition HandleOptionArgument :: "string \<Rightarrow> string \<Rightarrow> string \<Rightarrow> printed" where
  "HandleOptionArgument option argument argv0 =
     (if argument = []
      then (let help = DisplayHelp argv0 [] in
        help\<lparr>err_text := ''Missing '' @ option @ '' argument for option'' @ [newline] @ err_text help\<rparr>)
      else \<lparr>out_text = [], err_text = [], exits_with = None\<rparr>)"

definition shown_printed :: "string \<Rightarrow> shown \<Rightarrow> printed" where
  "shown_printed argv0 sh = (case sh of
     HelpShown \<Rightarrow> DisplayHelp argv0 []
   | VersionShown \<Rightarrow> ShowVersion argv0
   | UnknownOptionShown i \<Rightarrow>
       \<lparr>out_text = [], err_text = ''Unknown option: '' @ decimal_int i @ [newline], exits_with = None\<rparr>)"

definition kConsoleHelp :: "string list" where
  "kConsoleHelp =
     ['' q   -  quit from application.'',
      '' s   -  stop all threads.'',
      '' r   -  restart all threads.'',
      '' t   -  terminate (stop & clear) all threads.'',
      '' p   -  stop observing for 60 sec.'',
      '' o   -  start observing in 1 sec.'',
      '' x   -  stress mode (100 ms / 20 s, then auto-revert to 2 s).'',
      '' n   -  set normal mode (exit stress, 1 s interval).'',
      '' v   -  version'',
      '' h|? -  this information.'']"

text \<open>What \<open>HandleConsole\<close> prints beside what it returns.\<close>

definition console_printed :: "string \<Rightarrow> char option \<Rightarrow> printed" where
  "console_printed programName key =
     (if key = Some (CHR ''v'') then ShowVersion programName
      else if key = Some (CHR ''?'') \<or> key = Some (CHR ''h'')
      then \<lparr>out_text = [],
             err_text = ''Test console:'' @ [newline] @ concat (map (\<lambda>line. line @ [newline]) kConsoleHelp),
             exits_with = None\<rparr>
      else \<lparr>out_text = [], err_text = [], exits_with = None\<rparr>)"

subsection \<open>Properties\<close>

text \<open>
  Property C33 (roundtrip): a time stamp is always 15 characters, so the buffer of 32 never cuts it,
  and reading it back gives the hour, minute and second of the local time and the microseconds of
  the clock, for every clock reading after 1970 and every time zone.
\<close>

theorem timestamp_roundtrip:
  assumes "0 \<le> now"
    and "\<forall>t h m s. localtime t = (h, m, s) \<longrightarrow> 0 \<le> h \<and> h \<le> 23 \<and> 0 \<le> m \<and> m \<le> 59 \<and> 0 \<le> s \<and> s \<le> 60"
  shows "read_timestamp (currentTimestamp localtime now) =
    (case localtime (now div 1000000000) of (h, m, s) \<Rightarrow> Some (nat h, nat m, nat s, nat (now div 1000 mod 1000000)))"
proof -
  obtain h m s where lt: "localtime (now div 1000000000) = (h, m, s)" by (metis prod_cases3)
  note ranges = assms(2) [rule_format, OF lt]
  have us: "trem (tdiv now 1000) 1000000 = now div 1000 mod 1000000"
    using assms(1) by (simp add: trem_def tdiv_def sgn_if minus_mult_div_eq_mod)
  have t: "tdiv now 1000000000 = now div 1000000000" using assms(1) by (simp add: tdiv_def sgn_if)
  have "0 \<le> now div 1000 mod 1000000" "now div 1000 mod 1000000 < 10 ^ 6" by simp_all
  note f = clock_field [of h] clock_field [of m] clock_field [of s] zero_padded_field [OF this]
  have len: "length (zero_padded 2 h) = 2" "length (zero_padded 2 m) = 2" "length (zero_padded 2 s) = 2"
    "length (zero_padded 6 (now div 1000 mod 1000000)) = 6"
    using f ranges by auto
  have "currentTimestamp localtime now = zero_padded 2 h @ '':'' @ zero_padded 2 m @ '':'' @ zero_padded 2 s @
      ''.'' @ zero_padded 6 (now div 1000 mod 1000000)"
    using lt len by (simp add: currentTimestamp_def Let_def us t snprintf_def)
  then show ?thesis using fields_read [OF len] f ranges lt by auto
qed

definition utc :: "int \<Rightarrow> int \<times> int \<times> int" where
  "utc t = (t div 3600 mod 24, t div 60 mod 60, t mod 60)"

theorem timestamp_roundtrip_witness:
  "currentTimestamp utc 3661000042000 = ''01:01:01.000042'' \<and>
   read_timestamp (currentTimestamp utc 3661000042000) = Some (1, 1, 1, 42)"
proof
  show "currentTimestamp utc 3661000042000 = ''01:01:01.000042''" by code_simp
  have "\<forall>t h m s. utc t = (h, m, s) \<longrightarrow> 0 \<le> h \<and> h \<le> 23 \<and> 0 \<le> m \<and> m \<le> 59 \<and> 0 \<le> s \<and> s \<le> 60"
    by (auto simp: utc_def)
  then show "read_timestamp (currentTimestamp utc 3661000042000) = Some (1, 1, 1, 42)"
    by (subst timestamp_roundtrip) (simp_all add: utc_def)
qed

text \<open>
  Further property (roundtrip): the memory figures printed are those of the status file: whatever other
  fields it has and however the numbers are aligned, the last \<open>VmSize\<close> and the last \<open>VmRSS\<close> are shown,
  and \<open>-1\<close> for a field that is missing.
\<close>

theorem memory_usage_roundtrip:
  assumes "list_all field_ok fs"
  shows "printMemoryUsage label (status_file fs) =
    (case sizes fs (-1, -1) of (vmSize, vmRSS) \<Rightarrow> Some (memory_line label vmSize vmRSS))"
  using assms by (simp add: printMemoryUsage_def status_lines read_status_fields split: prod.split)

theorem memory_usage_roundtrip_witness:
  "printMemoryUsage ''Start'' (status_file [OtherField ''Name: threadMsg'', VmSizeField ''  '' 1234, VmRSSField '' '' 56]) =
     Some (memory_line ''Start'' 1234 56)"
proof -
  have "list_all field_ok [OtherField ''Name: threadMsg'', VmSizeField ''  '' 1234, VmRSSField '' '' 56]"
    by (simp add: newline_def is_space_def)
  from memory_usage_roundtrip [OF this] show ?thesis by simp
qed

text \<open>
  Property C34 (safety): lines of \<open>safe_print\<close> never mix. In every interleaving of any threads that
  print only through it, the output consists of whole lines, one for each call in the order in which
  the calls took the mutex, followed by the beginning of the line of the thread that holds it.
\<close>

theorem safe_print_lines_whole:
  assumes "locked_only as"
  shows "(lg_owner (log_run as) = None \<longrightarrow> lg_out (log_run as) = concat (map printed_line (lg_calls (log_run as)))) \<and>
    (\<forall>t args. lg_owner (log_run as) = Some (t, args) \<longrightarrow> (\<exists>calls before.
       lg_calls (log_run as) = calls @ [(t, before @ args)] \<and>
       lg_out (log_run as) = concat (map printed_line calls) @ concat before))"
  using log_run_inv [OF assms] by (auto simp: log_inv_def split: option.splits)

theorem safe_print_lines_whole_witness:
  "lg_out (log_run [LockLog 1 [''a'', ''b''], LockLog 2 [''c''], WriteArgument 1, WriteArgument 2, WriteArgument 1,
     EndLine 1, LockLog 2 [''c''], WriteArgument 2, EndLine 2]) = ''ab'' @ [newline] @ ''c'' @ [newline]"
proof -
  let ?as = "[LockLog 1 [''a'', ''b''], LockLog 2 [''c''], WriteArgument 1, WriteArgument 2, WriteArgument 1,
     EndLine 1, LockLog 2 [''c''], WriteArgument 2, EndLine 2]"
  have "locked_only ?as" by code_simp
  moreover have "lg_owner (log_run ?as) = None" "lg_calls (log_run ?as) = [(1, [''a'', ''b'']), (2, [''c''])]"
    by code_simp+
  ultimately show ?thesis using conjunct1 [OF safe_print_lines_whole [of ?as]] by (simp add: printed_line_def)
qed

text \<open>
  Further property (safety): a text printed without the mutex, as \<open>ThreadManager\<close> prints its messages,
  can fall into the middle of a line.
\<close>

theorem unlocked_text_splits_a_line:
  "\<exists>as. lg_owner (log_run as) = None \<and> lg_calls (log_run as) = [(t, [a, b])] \<and>
     lg_out (log_run as) = a @ text @ b @ [newline]"
  by (intro exI [of _ "[LockLog t [a, b], WriteArgument t, PrintUnlocked text, WriteArgument t, EndLine t]"])
    (simp add: log_run_def log_new_def safe_print_step_def)

text \<open>
  Further property (error): the error outputs of the program. An option in error is reported on the
  standard error and ends the program with failure, after the help; without one the help does not
  end it. A missing argument is reported, but the program goes on.
\<close>

theorem help_and_errors:
  "exits_with (DisplayHelp argv0 errorOption) = (if errorOption = [] then None else Some 1) \<and>
   out_text (DisplayHelp argv0 errorOption) = out_text (DisplayHelp argv0 []) \<and>
   (err_text (DisplayHelp argv0 errorOption) = [] \<longleftrightarrow> errorOption = []) \<and>
   exits_with (HandleOptionArgument option argument argv0) = None \<and>
   (err_text (HandleOptionArgument option argument argv0) = [] \<longleftrightarrow> argument \<noteq> []) \<and>
   (sublist ''--demonization'' (out_text (DisplayHelp argv0 [])) \<and> map_of long_options ''demonization'' = None)"
proof -
  have "sublist ''--demonization'' (hd kOptionHelpLines)" by code_simp
  moreover have "sublist (hd kOptionHelpLines) (out_text (DisplayHelp argv0 []))"
  proof -
    have "out_text (DisplayHelp argv0 []) = ([newline] @ ''Usage: '' @ argv0 @ '' [OPTIONS]'' @ [newline, newline]) @
        hd kOptionHelpLines @ [newline] @ concat (map (\<lambda>option. option @ [newline]) (tl kOptionHelpLines))"
      by (simp add: DisplayHelp_def kOptionHelpLines_def)
    then show ?thesis unfolding sublist_def by metis
  qed
  ultimately have "sublist ''--demonization'' (out_text (DisplayHelp argv0 []))"
    using sublist_order.order_trans by blast
  moreover have "map_of long_options ''demonization'' = None" by code_simp
  ultimately show ?thesis by (simp add: DisplayHelp_def HandleOptionArgument_def Let_def)
qed

text \<open>
  Further property (functional): the console help is complete. A key does something, a command or a
  text, exactly if it heads a line of the help (the last line names two keys); no key does both.
\<close>

theorem console_help_complete:
  "(HandleConsole (Some c) \<noteq> Console_none \<or>
      out_text (console_printed programName (Some c)) \<noteq> [] \<or> err_text (console_printed programName (Some c)) \<noteq> []) =
     (c = CHR ''?'' \<or> c \<in> set (map (\<lambda>line. line ! 1) kConsoleHelp)) \<and>
   (HandleConsole (Some c) \<noteq> Console_none \<longrightarrow>
      out_text (console_printed programName (Some c)) = [] \<and> err_text (console_printed programName (Some c)) = [])"
proof -
  have "map (\<lambda>line. line ! 1) kConsoleHelp = ''qsrtpoxnvh''" by (simp add: kConsoleHelp_def)
  then show ?thesis by (auto simp: console_printed_def HandleConsole_def ShowVersion_def)
qed

end
