(* ===== verification/WorkerCalls.thy ===== *)
theory WorkerCalls
  imports WorkerBase
begin

text \<open>
  \<open>workerBase::start\<close>, \<open>stop\<close> and \<open>join\<close> of \<open>src/include/workerBase.hpp\<close>, cut at their accesses to
  \<open>m_running\<close> and \<open>m_thread\<close> and called by any number of threads, with the threads they create.

  \<^item> Threads are numbered in the order of their creation; \<open>wc_member\<close> is the one \<open>m_thread\<close> stands for and
    \<open>wc_joinable\<close> whether it still has to be joined.
  \<^item> \<open>start\<close> wins the flag (\<open>Won\<close>), creates the thread, which then runs at once (\<open>Holding\<close>: the new
    \<open>jthread\<close> is a temporary object), and assigns it to \<open>m_thread\<close>. If \<open>m_thread\<close> is joinable, the
    assignment first requests its stop and joins it (\<open>Replacing\<close>), as the C++ standard says.
  \<^item> \<open>m_thread\<close> is not atomic: an access to it while another caller is inside the assignment is a data
    race, which \<open>wc_race\<close> records.
  \<^item> A thread is in \<open>MarkedBody\<close> between the store to \<open>m_running\<close> and its end.
\<close>

datatype caller_pc = Away | Won "nat option" | Holding nat | Replacing nat nat | Returned bool

datatype body = NoBody | NewBody "nat option" | RunBody run_token | LeftBody | MarkedBody | DoneBody

record 'c worker_calls =
  wc_running :: bool
  wc_member :: "nat option"
  wc_joinable :: bool
  wc_pc :: "'c \<Rightarrow> caller_pc"
  wc_body :: "nat \<Rightarrow> body"
  wc_stop :: "nat \<Rightarrow> bool"
  wc_created :: nat
  wc_assigning :: nat
  wc_race :: bool

datatype 'c wc_action = CallStart 'c bool "nat option" | Spawn 'c bool | Assign 'c | AwaitOld 'c | CallStop 'c | CallJoin 'c
  | BodyBegin nat stop_sources | BodyReturn nat | BodyMark nat | BodyExit nat

definition wc_new :: "'c worker_calls" where
  "wc_new = \<lparr>wc_running = False, wc_member = None, wc_joinable = False, wc_pc = (\<lambda>_. Away), wc_body = (\<lambda>_. NoBody),
     wc_stop = (\<lambda>_. False), wc_created = 0, wc_assigning = 0, wc_race = False\<rparr>"

abbreviation set_pc :: "'c \<Rightarrow> caller_pc \<Rightarrow> 'c worker_calls \<Rightarrow> 'c worker_calls" where
  "set_pc c p s \<equiv> s\<lparr>wc_pc := (wc_pc s)(c := p)\<rparr>"

abbreviation set_body :: "nat \<Rightarrow> body \<Rightarrow> 'c worker_calls \<Rightarrow> 'c worker_calls" where
  "set_body n b s \<equiv> s\<lparr>wc_body := (wc_body s)(n := b)\<rparr>"

fun at_call :: "caller_pc \<Rightarrow> bool" where
  "at_call Away = True"
| "at_call (Returned _) = True"
| "at_call _ = False"

definition wc_start :: "'c \<Rightarrow> bool \<Rightarrow> nat option \<Rightarrow> 'c worker_calls \<Rightarrow> 'c worker_calls" where
  "wc_start c ready ext s =
     (if \<not> at_call (wc_pc s c) then s
      else if \<not> ready then set_pc c (Returned False) s
      else if wc_running s then set_pc c (Returned False) s
      else set_pc c (Won ext) (s\<lparr>wc_running := True\<rparr>))"

definition wc_spawn :: "'c \<Rightarrow> bool \<Rightarrow> 'c worker_calls \<Rightarrow> 'c worker_calls" where
  "wc_spawn c spawn_ok s = (case wc_pc s c of
     Won ext \<Rightarrow>
       if \<not> spawn_ok then set_pc c (Returned False) (s\<lparr>wc_running := False\<rparr>)
       else set_pc c (Holding (wc_created s))
         (s\<lparr>wc_body := (wc_body s)(wc_created s := NewBody ext), wc_stop := (wc_stop s)(wc_created s := False),
            wc_created := Suc (wc_created s)\<rparr>)
   | _ \<Rightarrow> s)"

definition touch_thread :: "'c worker_calls \<Rightarrow> 'c worker_calls" where
  "touch_thread s = s\<lparr>wc_race := (wc_race s \<or> wc_assigning s > 0)\<rparr>"

definition stop_member :: "'c worker_calls \<Rightarrow> 'c worker_calls" where
  "stop_member s = (case wc_member s of
     None \<Rightarrow> s
   | Some n \<Rightarrow> if wc_joinable s then s\<lparr>wc_stop := (wc_stop s)(n := True)\<rparr> else s)"

definition wc_assign :: "'c \<Rightarrow> 'c worker_calls \<Rightarrow> 'c worker_calls" where
  "wc_assign c s = (case wc_pc s c of
     Holding n \<Rightarrow>
       let s = touch_thread s
       in (case wc_member s of
             Some old \<Rightarrow>
               if wc_joinable s
               then set_pc c (Replacing n old) (stop_member s\<lparr>wc_assigning := Suc (wc_assigning s)\<rparr>)
               else set_pc c (Returned True) (s\<lparr>wc_member := Some n, wc_joinable := True\<rparr>)
           | None \<Rightarrow> set_pc c (Returned True) (s\<lparr>wc_member := Some n, wc_joinable := True\<rparr>))
   | _ \<Rightarrow> s)"

definition wc_await :: "'c \<Rightarrow> 'c worker_calls \<Rightarrow> 'c worker_calls" where
  "wc_await c s = (case wc_pc s c of
     Replacing n old \<Rightarrow>
       if wc_body s old = DoneBody
       then set_pc c (Returned True)
         (s\<lparr>wc_member := Some n, wc_joinable := True, wc_assigning := wc_assigning s - 1\<rparr>)
       else s
   | _ \<Rightarrow> s)"

definition wc_call_stop :: "'c \<Rightarrow> 'c worker_calls \<Rightarrow> 'c worker_calls" where
  "wc_call_stop c s = (if at_call (wc_pc s c) then stop_member (touch_thread s) else s)"

definition wc_call_join :: "'c \<Rightarrow> 'c worker_calls \<Rightarrow> 'c worker_calls" where
  "wc_call_join c s =
     (if at_call (wc_pc s c) then
        (case wc_member s of
           Some n \<Rightarrow> if wc_joinable s \<and> wc_body s n = DoneBody then touch_thread s\<lparr>wc_joinable := False\<rparr> else touch_thread s
         | None \<Rightarrow> touch_thread s)
      else s)"

text \<open>The function of a thread: the choice of the token, \<open>run\<close>, \<open>markStopped\<close>, and its end.\<close>

definition wc_begin :: "nat \<Rightarrow> stop_sources \<Rightarrow> 'c worker_calls \<Rightarrow> 'c worker_calls" where
  "wc_begin n src s = (case wc_body s n of
     NewBody ext \<Rightarrow> set_body n (RunBody (case ext of
         Some e \<Rightarrow> if stop_possible src ext then CombinedToken e else InternalToken
       | None \<Rightarrow> InternalToken)) s
   | _ \<Rightarrow> s)"

definition wc_return :: "nat \<Rightarrow> 'c worker_calls \<Rightarrow> 'c worker_calls" where
  "wc_return n s = (case wc_body s n of RunBody _ \<Rightarrow> set_body n LeftBody s | _ \<Rightarrow> s)"

definition wc_mark :: "nat \<Rightarrow> 'c worker_calls \<Rightarrow> 'c worker_calls" where
  "wc_mark n s = (case wc_body s n of LeftBody \<Rightarrow> set_body n MarkedBody (s\<lparr>wc_running := False\<rparr>) | _ \<Rightarrow> s)"

definition wc_exit :: "nat \<Rightarrow> 'c worker_calls \<Rightarrow> 'c worker_calls" where
  "wc_exit n s = (case wc_body s n of MarkedBody \<Rightarrow> set_body n DoneBody s | _ \<Rightarrow> s)"

fun wc_step :: "'c wc_action \<Rightarrow> 'c worker_calls \<Rightarrow> 'c worker_calls" where
  "wc_step (CallStart c ready ext) s = wc_start c ready ext s"
| "wc_step (Spawn c spawn_ok) s = wc_spawn c spawn_ok s"
| "wc_step (Assign c) s = wc_assign c s"
| "wc_step (AwaitOld c) s = wc_await c s"
| "wc_step (CallStop c) s = wc_call_stop c s"
| "wc_step (CallJoin c) s = wc_call_join c s"
| "wc_step (BodyBegin n src) s = wc_begin n src s"
| "wc_step (BodyReturn n) s = wc_return n s"
| "wc_step (BodyMark n) s = wc_mark n s"
| "wc_step (BodyExit n) s = wc_exit n s"

definition wc_exec :: "'c wc_action list \<Rightarrow> 'c worker_calls \<Rightarrow> 'c worker_calls" where
  "wc_exec as s = fold wc_step as s"

lemmas wc_defs = wc_start_def wc_spawn_def wc_assign_def wc_await_def wc_call_stop_def wc_call_join_def
  wc_begin_def wc_return_def wc_mark_def wc_exit_def stop_member_def touch_thread_def

subsection \<open>The flag is a lock\<close>

fun body_owns :: "body \<Rightarrow> bool" where
  "body_owns (NewBody _) = True"
| "body_owns (RunBody _) = True"
| "body_owns LeftBody = True"
| "body_owns _ = False"

fun caller_owns :: "caller_pc \<Rightarrow> bool" where
  "caller_owns (Won _) = True"
| "caller_owns _ = False"

definition owners :: "'c worker_calls \<Rightarrow> ('c + nat) set" where
  "owners s = Inl ` {c. caller_owns (wc_pc s c)} \<union> Inr ` {n. body_owns (wc_body s n)}"

definition flag_inv :: "'c worker_calls \<Rightarrow> bool" where
  "flag_inv s \<longleftrightarrow> (\<forall>n \<ge> wc_created s. wc_body s n = NoBody) \<and> (\<exists>o'. owners s \<subseteq> {o'}) \<and>
     (wc_running s \<longleftrightarrow> owners s \<noteq> {})"

lemma owners_iff:
  "Inl c \<in> owners s \<longleftrightarrow> caller_owns (wc_pc s c)" "Inr n \<in> owners s \<longleftrightarrow> body_owns (wc_body s n)"
  by (auto simp: owners_def)

lemma owners_cong:
  assumes "\<And>c. caller_owns (wc_pc s' c) = caller_owns (wc_pc s c)" and "\<And>n. body_owns (wc_body s' n) = body_owns (wc_body s n)"
  shows "owners s' = owners s"
  using assms by (simp add: owners_def)

text \<open>The flag is taken, handed from the caller to the new thread, or released.\<close>

lemma owners_taken:
  assumes "flag_inv s" and "\<not> wc_running s" and "wc_running s'" and "wc_body s' = wc_body s" and "wc_created s' = wc_created s"
    and "wc_pc s' = (wc_pc s)(c := Won ext)"
  shows "flag_inv s'"
proof -
  have none: "owners s = {}" using assms(1,2) by (simp add: flag_inv_def)
  have "owners s' \<subseteq> insert (Inl c) (owners s)" and "Inl c \<in> owners s'" using assms(4,6) by (auto simp: owners_def)
  with none have "owners s' = {Inl c}" by blast
  with assms show ?thesis by (auto simp: flag_inv_def)
qed

lemma owners_released:
  assumes "flag_inv s" and "\<not> wc_running s'" and "x \<in> owners s" and "owners s' \<subseteq> owners s - {x}"
    and "\<forall>n \<ge> wc_created s'. wc_body s' n = NoBody"
  shows "flag_inv s'"
proof -
  from assms(1,3) have "owners s = {x}" by (auto simp: flag_inv_def)
  with assms show ?thesis by (auto simp: flag_inv_def)
qed

lemma owners_handed:
  assumes "flag_inv s" and "wc_running s'" and "x \<in> owners s" and "y \<in> owners s'" and "owners s' \<subseteq> insert y (owners s - {x})"
    and "\<forall>n \<ge> wc_created s'. wc_body s' n = NoBody"
  shows "flag_inv s'"
proof -
  from assms(1,3) have "owners s = {x}" by (auto simp: flag_inv_def)
  with assms have "owners s' = {y}" by auto
  with assms show ?thesis by (auto simp: flag_inv_def)
qed

lemma owners_same:
  assumes "flag_inv s" and "wc_running s' = wc_running s" and "wc_created s' = wc_created s"
    and "\<And>c. caller_owns (wc_pc s' c) = caller_owns (wc_pc s c)" and "\<And>n. body_owns (wc_body s' n) = body_owns (wc_body s n)"
    and "\<And>n. wc_body s n = NoBody \<Longrightarrow> wc_body s' n = NoBody"
  shows "flag_inv s'"
  using assms owners_cong [OF assms(4,5)] by (simp add: flag_inv_def)

lemma at_call_owns: "at_call p \<Longrightarrow> \<not> caller_owns p"
  by (cases p) simp_all

lemma flag_inv_step:
  assumes inv: "flag_inv s"
  shows "flag_inv (wc_step a s)"
proof (cases a)
  case (CallStart c ready ext)
  show ?thesis
  proof (cases "at_call (wc_pc s c) \<and> ready \<and> \<not> wc_running s")
    case True
    with CallStart show ?thesis by (intro owners_taken [OF inv, of _ c ext]) (simp_all add: wc_start_def)
  next
    case False
    with CallStart show ?thesis
      by (intro owners_same [OF inv]) (auto simp: wc_start_def dest: at_call_owns)
  qed
next
  case (Spawn c spawn_ok)
  show ?thesis
  proof (cases "wc_pc s c")
    case (Won ext)
    then have c: "Inl c \<in> owners s" by (simp add: owners_iff)
    with inv have "wc_running s" by (auto simp: flag_inv_def)
    show ?thesis
    proof (cases spawn_ok)
      case True
      with Spawn Won inv \<open>wc_running s\<close> show ?thesis
        by (intro owners_handed [OF inv _ c, of _ "Inr (wc_created s)"])
          (auto simp: wc_spawn_def owners_def flag_inv_def split: if_splits)
    next
      case False
      with Spawn Won inv show ?thesis
        by (intro owners_released [OF inv _ c]) (auto simp: wc_spawn_def owners_def flag_inv_def split: if_splits)
    qed
  qed (use Spawn inv in \<open>simp_all add: wc_spawn_def\<close>)
next
  case (BodyMark n)
  show ?thesis
  proof (cases "wc_body s n")
    case LeftBody
    then have n: "Inr n \<in> owners s" by (simp add: owners_iff)
    with BodyMark LeftBody inv show ?thesis
      by (intro owners_released [OF inv _ n]) (auto simp: wc_mark_def owners_def flag_inv_def split: if_splits)
  qed (use BodyMark inv in \<open>simp_all add: wc_mark_def\<close>)
next
  case (BodyBegin n src)
  then show ?thesis using inv
    by (cases "wc_body s n") (auto simp: wc_begin_def intro!: owners_same [OF inv] split: if_splits)
next
  case (BodyReturn n)
  then show ?thesis using inv
    by (cases "wc_body s n") (auto simp: wc_return_def intro!: owners_same [OF inv] split: if_splits)
next
  case (BodyExit n)
  then show ?thesis using inv
    by (cases "wc_body s n") (auto simp: wc_exit_def intro!: owners_same [OF inv] split: if_splits)
next
  case (Assign c)
  then show ?thesis using inv
    by (cases "wc_pc s c"; intro owners_same [OF inv])
      (auto simp: wc_assign_def stop_member_def touch_thread_def Let_def split: option.splits)
next
  case (AwaitOld c)
  then show ?thesis using inv
    by (cases "wc_pc s c"; intro owners_same [OF inv]) (auto simp: wc_await_def)
next
  case (CallStop c)
  then show ?thesis
    by (intro owners_same [OF inv]) (auto simp: wc_call_stop_def stop_member_def touch_thread_def split: option.splits)
next
  case (CallJoin c)
  then show ?thesis
    by (intro owners_same [OF inv]) (auto simp: wc_call_join_def touch_thread_def split: option.splits)
qed

lemma flag_inv_exec: "flag_inv s \<Longrightarrow> flag_inv (wc_exec as s)"
  by (induction as arbitrary: s) (simp_all add: wc_exec_def flag_inv_step)

lemma flag_inv_new: "flag_inv wc_new"
  by (simp add: flag_inv_def wc_new_def owners_def)

subsection \<open>One caller\<close>

text \<open>With one caller the calls are those of \<open>WorkerBase\<close>: the current thread is the one created last.\<close>

definition wc_current :: "'c \<Rightarrow> 'c worker_calls \<Rightarrow> nat option" where
  "wc_current c s = (case wc_pc s c of Holding n \<Rightarrow> Some n | Replacing n _ \<Rightarrow> Some n | _ \<Rightarrow> wc_member s)"

fun body_phase :: "body \<Rightarrow> phase" where
  "body_phase NoBody = NoThread"
| "body_phase (NewBody ext) = Spawned ext"
| "body_phase (RunBody tok) = InRun tok"
| "body_phase LeftBody = Leaving"
| "body_phase MarkedBody = Finished"
| "body_phase DoneBody = Finished"

fun holds_new :: "caller_pc \<Rightarrow> bool" where
  "holds_new (Holding _) = True"
| "holds_new (Replacing _ _) = True"
| "holds_new _ = False"

definition as_worker :: "'c \<Rightarrow> 'c worker_calls \<Rightarrow> workerBase" where
  "as_worker c s = \<lparr>wb_running = (wc_running s \<and> \<not> caller_owns (wc_pc s c)),
     wb_joinable = (holds_new (wc_pc s c) \<or> wc_joinable s),
     wb_source = map_option (wc_stop s) (wc_current c s),
     wb_phase = (case wc_current c s of None \<Rightarrow> NoThread | Some n \<Rightarrow> body_phase (wc_body s n))\<rparr>"

fun action_by :: "'c \<Rightarrow> 'c wc_action \<Rightarrow> bool" where
  "action_by c (CallStart c' _ _) = (c' = c)"
| "action_by c (Spawn c' _) = (c' = c)"
| "action_by c (Assign c') = (c' = c)"
| "action_by c (AwaitOld c') = (c' = c)"
| "action_by c (CallStop c') = (c' = c)"
| "action_by c (CallJoin c') = (c' = c)"
| "action_by c _ = True"

definition one_place :: "'c \<Rightarrow> 'c worker_calls \<Rightarrow> bool" where
  "one_place c s \<longleftrightarrow> (\<forall>c'. c' \<noteq> c \<longrightarrow> wc_pc s c' = Away) \<and>
     (\<forall>n. wc_current c s = Some n \<or> wc_member s = Some n \<longrightarrow> n < wc_created s) \<and>
     (\<forall>n. body_owns (wc_body s n) \<longrightarrow> wc_current c s = Some n) \<and>
     (\<forall>n < wc_created s. wc_body s n \<noteq> NoBody) \<and> (wc_joinable s \<longrightarrow> wc_member s \<noteq> None) \<and> \<not> wc_race s \<and>
     (case wc_pc s c of
        Holding n \<Rightarrow> wc_member s \<noteq> Some n \<and> wc_assigning s = 0
      | Replacing n old \<Rightarrow> n \<noteq> old \<and> wc_member s = Some old \<and> wc_joinable s \<and> wc_assigning s = 1 \<and>
          wc_body s old \<in> {MarkedBody, DoneBody}
      | _ \<Rightarrow> wc_assigning s = 0)"

definition one_inv :: "'c \<Rightarrow> 'c worker_calls \<Rightarrow> bool" where
  "one_inv c s \<longleftrightarrow> (\<forall>src. wb_reach (src, as_worker c s)) \<and> flag_inv s \<and> one_place c s"

text \<open>A step of the interleaving is a step of \<open>WorkerBase\<close>, for whatever stop sources, or none.\<close>

definition wb_moves :: "workerBase \<Rightarrow> workerBase \<Rightarrow> bool" where
  "wb_moves w w' \<longleftrightarrow> w' = w \<or> (\<exists>src. wb_step (src, w) (src, w'))"

lemma moves_reach:
  assumes "\<And>src. wb_reach (src, w)" and "wb_moves w w'"
  shows "wb_reach (src, w')"
proof (cases "w' = w")
  case False
  with assms(2) obtain src' where "wb_step (src', w) (src', w')" by (auto simp: wb_moves_def)
  then have "wb_reach (src', w')" using assms(1) by (blast intro: wb_reach_step)
  then show ?thesis by (blast intro: wb_reach_step step_sources)
qed (use assms in simp)

lemma won_running:
  assumes "flag_inv s" and "caller_owns (wc_pc s c)"
  shows "wc_running s"
  using assms owners_iff(1) [of c s] by (auto simp: flag_inv_def)

lemma body_step_moves:
  assumes "one_inv c s" and "body_owns (wc_body s n)"
  shows "wc_current c s = Some n" and "wb_phase (as_worker c s) = body_phase (wc_body s n)"
  using assms by (simp_all add: one_inv_def one_place_def as_worker_def)

lemma touch_same [simp]: "as_worker c (touch_thread s) = as_worker c s"
  by (cases "wc_pc s c") (simp_all add: as_worker_def wc_current_def touch_thread_def split: option.split)

lemma current_body [simp]:
  "wc_current c (s\<lparr>wc_body := b\<rparr>) = wc_current c s" "wc_current c (s\<lparr>wc_running := r\<rparr>) = wc_current c s"
  by (cases "wc_pc s c"; simp add: wc_current_def)+

lemma one_step_moves:
  assumes inv: "one_inv c s" and by_c: "action_by c a"
  shows "wb_moves (as_worker c s) (as_worker c (wc_step a s))"
proof (cases a)
  case (CallStart c' ready ext)
  with by_c have "as_worker c (wc_step a s) = as_worker c s"
    by (cases "wc_pc s c") (auto simp: wc_start_def as_worker_def wc_current_def split: option.split)
  then show ?thesis by (simp add: wb_moves_def)
next
  case (Spawn c' spawn_ok)
  show ?thesis
  proof (cases "wc_pc s c")
    case (Won ext)
    with inv have "wc_running s" by (intro won_running [of s c]) (simp_all add: one_inv_def)
    with Won Spawn by_c have "wb_start True spawn_ok ext (as_worker c s) = (spawn_ok, as_worker c (wc_step a s))"
      by (cases spawn_ok) (simp_all add: wc_spawn_def as_worker_def wc_current_def wb_start_def Let_def split: option.split)
    then show ?thesis unfolding wb_moves_def by (blast intro: step_start)
  qed (use Spawn by_c in \<open>simp_all add: wc_spawn_def wb_moves_def\<close>)
next
  case (Assign c')
  with by_c inv have "as_worker c (wc_step a s) = as_worker c s"
    by (cases "wc_pc s c")
      (auto simp: wc_assign_def as_worker_def wc_current_def touch_thread_def stop_member_def one_inv_def one_place_def Let_def
        split: option.splits)
  then show ?thesis by (simp add: wb_moves_def)
next
  case (AwaitOld c')
  with by_c inv have "as_worker c (wc_step a s) = as_worker c s"
    by (cases "wc_pc s c") (auto simp: wc_await_def as_worker_def wc_current_def split: option.split)
  then show ?thesis by (simp add: wb_moves_def)
next
  case (CallStop c')
  show ?thesis
  proof (cases "at_call (wc_pc s c)")
    case True
    with CallStop by_c inv have "as_worker c (wc_step a s) = wb_stop (as_worker c s)"
      by (cases "wc_pc s c"; cases "wc_member s")
        (auto simp: wc_call_stop_def as_worker_def wc_current_def touch_thread_def stop_member_def one_inv_def one_place_def wb_stop_def)
    then show ?thesis unfolding wb_moves_def using step_stop by metis
  qed (use CallStop by_c in \<open>simp add: wc_call_stop_def wb_moves_def\<close>)
next
  case (CallJoin c')
  show ?thesis
  proof (cases "at_call (wc_pc s c) \<and> wc_joinable s \<and> (\<exists>n. wc_member s = Some n \<and> wc_body s n = DoneBody)")
    case True
    with CallJoin by_c have "wb_join (as_worker c s) = Some (as_worker c (wc_step a s))"
      by (cases "wc_pc s c") (auto simp: wc_call_join_def as_worker_def wc_current_def touch_thread_def wb_join_def)
    then show ?thesis unfolding wb_moves_def by (blast intro: step_join)
  next
    case False
    with CallJoin by_c have "wc_step a s = touch_thread s \<or> wc_step a s = s"
      by (auto simp: wc_call_join_def split: option.splits)
    then have "as_worker c (wc_step a s) = as_worker c s" by auto
    then show ?thesis by (simp add: wb_moves_def)
  qed
next
  case (BodyBegin n src)
  show ?thesis
  proof (cases "wc_body s n")
    case (NewBody ext)
    with BodyBegin body_step_moves [OF inv, of n]
    have "as_worker c (wc_step a s) = wb_body_begin src (as_worker c s)"
      by (simp add: wc_begin_def as_worker_def wb_body_begin_def  split: option.splits)
    then show ?thesis unfolding wb_moves_def using step_begin by metis
  qed (use BodyBegin in \<open>simp_all add: wc_begin_def wb_moves_def\<close>)
next
  case (BodyReturn n)
  show ?thesis
  proof (cases "wc_body s n")
    case (RunBody tok)
    with BodyReturn body_step_moves [OF inv, of n] have "as_worker c (wc_step a s) = wb_body_return (as_worker c s)"
      by (simp add: wc_return_def as_worker_def wb_body_return_def )
    then show ?thesis unfolding wb_moves_def using step_return by metis
  qed (use BodyReturn in \<open>simp_all add: wc_return_def wb_moves_def\<close>)
next
  case (BodyMark n)
  show ?thesis
  proof (cases "wc_body s n")
    case LeftBody
    with BodyMark body_step_moves [OF inv, of n]
    have "as_worker c (wc_step a s) = wb_body_mark_stopped (as_worker c s)"
      by (simp add: wc_mark_def as_worker_def wb_body_mark_stopped_def )
    then show ?thesis unfolding wb_moves_def using step_mark by metis
  qed (use BodyMark in \<open>simp_all add: wc_mark_def wb_moves_def\<close>)
next
  case (BodyExit n)
  then have "as_worker c (wc_step a s) = as_worker c s"
    by (cases "wc_body s n") (auto simp: wc_exit_def as_worker_def  split: option.split)
  then show ?thesis by (simp add: wb_moves_def)
qed

lemma won_alone:
  assumes "flag_inv s" and "caller_owns (wc_pc s c)"
  shows "\<not> body_owns (wc_body s n)"
proof
  assume "body_owns (wc_body s n)"
  then have "Inr n \<in> owners s" and "Inl c \<in> owners s" using assms(2) by (simp_all add: owners_iff)
  with assms(1) show False by (auto simp: flag_inv_def)
qed

lemma old_ended:
  assumes "one_place c s" and "wc_pc s c = Holding n" and "wc_member s = Some old"
  shows "wc_body s old \<in> {MarkedBody, DoneBody}" and "old \<noteq> n"
proof -
  from assms have "old < wc_created s" and "old \<noteq> n" and "\<not> body_owns (wc_body s old)"
    by (auto simp: one_place_def wc_current_def)
  moreover from this(1) assms(1) have "wc_body s old \<noteq> NoBody" by (simp add: one_place_def)
  ultimately show "wc_body s old \<in> {MarkedBody, DoneBody}" and "old \<noteq> n" by (cases "wc_body s old"; simp)+
qed

lemma one_place_step:
  assumes inv: "one_inv c s" and by_c: "action_by c a"
  shows "one_place c (wc_step a s)"
proof -
  have flag: "flag_inv s" and place: "one_place c s" using inv by (simp_all add: one_inv_def)
  show ?thesis
  proof (cases a)
    case (CallStart c' ready ext)
    with by_c place show ?thesis
      by (cases "wc_pc s c") (auto simp: wc_start_def one_place_def wc_current_def)
  next
    case (Spawn c' spawn_ok)
    show ?thesis
    proof (cases "wc_pc s c")
      case (Won ext)
      with flag won_alone [of s c] have "\<not> body_owns (wc_body s n)" for n by simp
      with Won Spawn by_c place show ?thesis
        by (cases spawn_ok) (auto simp: wc_spawn_def one_place_def wc_current_def less_Suc_eq)
    qed (use Spawn by_c place in \<open>simp_all add: wc_spawn_def\<close>)
  next
    case (Assign c')
    show ?thesis
    proof (cases "wc_pc s c")
      case (Holding n)
      with Assign by_c place old_ended [OF place Holding] show ?thesis
        by (auto simp: wc_assign_def one_place_def wc_current_def touch_thread_def stop_member_def Let_def
            split: option.splits)
    qed (use Assign by_c place in \<open>simp_all add: wc_assign_def\<close>)
  next
    case (AwaitOld c')
    with by_c place show ?thesis
      by (cases "wc_pc s c") (auto simp: wc_await_def one_place_def wc_current_def)
  next
    case (CallStop c')
    with by_c place show ?thesis
      by (cases "wc_pc s c") (auto simp: wc_call_stop_def one_place_def wc_current_def touch_thread_def stop_member_def
          split: option.splits)
  next
    case (CallJoin c')
    with by_c place show ?thesis
      by (cases "wc_pc s c") (auto simp: wc_call_join_def one_place_def wc_current_def touch_thread_def
          split: option.splits)
  next
    case (BodyBegin n src)
    with place show ?thesis
      by (cases "wc_body s n"; cases "wc_pc s c") (auto simp: wc_begin_def one_place_def wc_current_def)
  next
    case (BodyReturn n)
    with place show ?thesis
      by (cases "wc_body s n"; cases "wc_pc s c") (auto simp: wc_return_def one_place_def wc_current_def)
  next
    case (BodyMark n)
    with place show ?thesis
      by (cases "wc_body s n"; cases "wc_pc s c") (auto simp: wc_mark_def one_place_def wc_current_def)
  next
    case (BodyExit n)
    with place show ?thesis
      by (cases "wc_body s n"; cases "wc_pc s c") (auto simp: wc_exit_def one_place_def wc_current_def)
  qed
qed

lemma one_inv_step:
  assumes "one_inv c s" and "action_by c a"
  shows "one_inv c (wc_step a s)"
  using assms moves_reach [OF _ one_step_moves [OF assms]] flag_inv_step [of s a] one_place_step [OF assms]
  by (simp add: one_inv_def)

lemma one_inv_exec:
  "one_inv c s \<Longrightarrow> list_all (action_by c) as \<Longrightarrow> one_inv c (wc_exec as s)"
  by (induction as arbitrary: s) (simp_all add: wc_exec_def one_inv_step)

lemma one_inv_new: "one_inv c wc_new"
proof -
  have "as_worker c wc_new = wb_new" by (simp add: as_worker_def wc_new_def wc_current_def wb_new_def)
  then show ?thesis
    using wb_reach_new flag_inv_new by (simp add: one_inv_def) (simp add: one_place_def wc_new_def wc_current_def)
qed

subsection \<open>Properties\<close>

text \<open>
  Property C35 (safety, invariant): the running flag is a lock, whoever calls. However the calls of any
  number of threads and the threads they create interleave, at most one thread is anywhere between
  its creation and \<open>markStopped\<close>; while a caller of \<open>start\<close> has won the flag and not yet created its
  thread there is none; and the flag is set exactly while there is such a thread or caller.
\<close>

theorem start_excludes:
  assumes "s = wc_exec as wc_new"
  shows "(body_owns (wc_body s n) \<and> body_owns (wc_body s m) \<longrightarrow> n = m) \<and>
    (caller_owns (wc_pc s c) \<longrightarrow> \<not> body_owns (wc_body s n)) \<and>
    (wc_running s \<longleftrightarrow> (\<exists>c. caller_owns (wc_pc s c)) \<or> (\<exists>n. body_owns (wc_body s n)))"
proof -
  have inv: "flag_inv s" unfolding assms(1) using flag_inv_exec [OF flag_inv_new] .
  then obtain o' where "owners s \<subseteq> {o'}" and run: "wc_running s \<longleftrightarrow> owners s \<noteq> {}" by (auto simp: flag_inv_def)
  then have "body_owns (wc_body s n) \<and> body_owns (wc_body s m) \<longrightarrow> n = m"
    using owners_iff(2) [of n s] owners_iff(2) [of m s] by auto
  moreover have "owners s \<noteq> {} \<longleftrightarrow> (\<exists>c. caller_owns (wc_pc s c)) \<or> (\<exists>n. body_owns (wc_body s n))"
    by (auto simp: owners_def)
  ultimately show ?thesis using run won_alone [OF inv, of c n] by blast
qed

definition two_callers :: "bool wc_action list" where
  "two_callers = [CallStart False True None, Spawn False True, BodyBegin 0 one_source, BodyReturn 0, BodyMark 0,
     CallStart True True None, Spawn True True, Assign True, BodyBegin 1 one_source]"

theorem start_excludes_witness:
  "body_owns (wc_body (wc_exec two_callers wc_new) 1) \<and> \<not> body_owns (wc_body (wc_exec two_callers wc_new) 0) \<and>
   wc_running (wc_exec two_callers wc_new)"
proof -
  have "body_owns (wc_body (wc_exec two_callers wc_new) 1)" by code_simp
  with start_excludes [OF refl, of two_callers 1 0] show ?thesis by auto
qed

text \<open>
  Property C36 (refinement, termination): with one caller \<open>start\<close>, \<open>stop\<close> and \<open>join\<close> are the operations of
  \<open>WorkerBase\<close>. Every step of the interleaving with the threads is a step of \<open>wb_step\<close> or changes
  nothing that \<open>WorkerBase\<close> sees, and there is no data race. When the assignment in \<open>start\<close> joins the
  thread before, that thread has left \<open>run\<close> and set the flag, so \<open>start\<close> returns once it ends:
  it never waits for \<open>run\<close>.
\<close>

theorem single_caller_refines_worker:
  assumes "list_all (action_by c) as" and "action_by c a" and "s = wc_exec as wc_new"
  shows "(as_worker c (wc_step a s) = as_worker c s \<or>
      (\<exists>src. wb_step (src, as_worker c s) (src, as_worker c (wc_step a s)))) \<and> \<not> wc_race s \<and>
    (\<forall>n old. wc_pc s c = Replacing n old \<longrightarrow> wc_body s old \<in> {MarkedBody, DoneBody} \<and>
      wc_pc (wc_exec [BodyExit old, AwaitOld c] s) c = Returned True)"
proof -
  have inv: "one_inv c s" unfolding assms(3) using one_inv_exec [OF one_inv_new assms(1)] .
  then have old: "wc_body s old \<in> {MarkedBody, DoneBody}" if "wc_pc s c = Replacing n old" for n old
    using that by (simp_all add: one_inv_def one_place_def)
  moreover have "\<not> wc_race s" using inv by (simp add: one_inv_def one_place_def)
  moreover have "wc_pc (wc_exec [BodyExit old, AwaitOld c] s) c = Returned True" if "wc_pc s c = Replacing n old" for n old
    using that old [OF that] by (auto simp: wc_exec_def wc_exit_def wc_await_def)
  ultimately show ?thesis using one_step_moves [OF inv assms(2)] by (auto simp: wb_moves_def)
qed

definition one_caller :: "bool wc_action list" where
  "one_caller = [CallStart True True None, Spawn True True, Assign True, BodyBegin 0 one_source, BodyReturn 0, BodyMark 0,
     CallStart True True (Some 0), Spawn True True, Assign True]"

theorem single_caller_refines_worker_witness:
  "wc_pc (wc_exec one_caller wc_new) True = Replacing 1 0 \<and>
   wc_pc (wc_exec [BodyExit 0, AwaitOld True] (wc_exec one_caller wc_new)) True = Returned True"
proof -
  have "wc_pc (wc_exec one_caller wc_new) True = Replacing 1 0" and "list_all (action_by True) one_caller"
    and "action_by True (CallStop True)" by code_simp+
  with single_caller_refines_worker [OF _ _ refl, of True one_caller "CallStop True"] show ?thesis by auto
qed

text \<open>
  Further property (safety): with two callers \<open>start\<close> is not safe. A caller that is late with its assignment finds
  the thread of a later \<open>start\<close> in \<open>m_thread\<close>: it requests the stop of that thread, although its \<open>start\<close>
  returned true and nobody called \<open>stop\<close>, and waits for its \<open>run\<close> to return. Any access of another
  caller to \<open>m_thread\<close> meanwhile is a data race.
\<close>

theorem late_start_stops_newer_thread:
  "let s = wc_exec (two_callers @ [Assign False]) wc_new
   in wc_pc s True = Returned True \<and> wc_body s 1 = RunBody InternalToken \<and> wc_stop s 1 \<and>
     \<not> wc_stop (wc_exec two_callers wc_new) 1 \<and>
     wc_pc (wc_step (AwaitOld False) s) False = Replacing 0 1 \<and> \<not> wc_race s \<and> wc_race (wc_step (CallStop True) s)"
  by code_simp

end
