(* ===== verification/WorkerWait.thy ===== *)
theory WorkerWait
  imports WorkerBase
begin

text \<open>
  The handshake of \<open>workerBase::waitFor\<close> with \<open>stop\<close> and \<open>wakeUp\<close> (\<open>src/include/workerBase.hpp\<close>).

  \<open>waitFor\<close> tests its stop token and the caller's predicate with \<open>m_waitMutex\<close> held; \<open>stop\<close> requests the
  stop and then notifies, neither with the mutex; so does \<open>ThreadManager::stopAllThreads\<close> with the stop
  source of the manager, and whoever changes the predicate and calls \<open>wakeUp\<close>. A request made on that
  source from outside the manager, as by \<open>main\<close> at its end, notifies nobody. The steps are cut where the
  threads can interleave; the clock is an action of its own.
\<close>

record wait_state =
  ww_pc :: wait_pc
  ww_stop :: bool
  ww_pred :: bool
  ww_result :: "bool option"

datatype ww_action = WCall | WSleep | WWake | WTimeout | WSetPred bool | WRequestStop | WWakeUp

definition ww_return :: "wait_state \<Rightarrow> wait_state" where
  "ww_return s = s\<lparr>ww_pc := Outside, ww_result := Some (ww_stop s \<or> ww_pred s)\<rparr>"

definition ww_check :: "wait_state \<Rightarrow> wait_state" where
  "ww_check s = (if ww_stop s \<or> ww_pred s then ww_return s else s\<lparr>ww_pc := Checked\<rparr>)"

definition wb_wakeUp :: "wait_state \<Rightarrow> wait_state" where
  "wb_wakeUp s = (if ww_pc s = Asleep then s\<lparr>ww_pc := Woken\<rparr> else s)"

fun ww_step :: "ww_action \<Rightarrow> wait_state \<Rightarrow> wait_state option" where
  "ww_step WCall s = (if ww_pc s = Outside then Some (ww_check (s\<lparr>ww_result := None\<rparr>)) else None)"
| "ww_step WSleep s = (if ww_pc s = Checked then Some (s\<lparr>ww_pc := Asleep\<rparr>) else None)"
| "ww_step WWake s = (if ww_pc s \<in> {Asleep, Woken} then Some (ww_check s) else None)"
| "ww_step WTimeout s = (if ww_pc s \<in> {Asleep, Woken} then Some (ww_return s) else None)"
| "ww_step (WSetPred b) s = Some (s\<lparr>ww_pred := b\<rparr>)"
| "ww_step WRequestStop s = Some (s\<lparr>ww_stop := True\<rparr>)"
| "ww_step WWakeUp s = Some (wb_wakeUp s)"

fun ww_exec :: "ww_action list \<Rightarrow> wait_state \<Rightarrow> wait_state option" where
  "ww_exec [] s = Some s"
| "ww_exec (a # as) s = (case ww_step a s of None \<Rightarrow> None | Some s' \<Rightarrow> ww_exec as s')"

definition ww_new :: wait_state where
  "ww_new = \<lparr>ww_pc = Outside, ww_stop = False, ww_pred = False, ww_result = None\<rparr>"

text \<open>The calls of another thread: \<open>stop\<close>, and the stop request at the end of \<open>main\<close>.\<close>

definition calls_stop :: "ww_action list" where
  "calls_stop = [WRequestStop, WWakeUp]"

definition main_stop :: "ww_action list" where
  "main_stop = [WRequestStop]"

subsection \<open>Properties\<close>

text \<open>
  Further property (functional, termination): once a stop is requested \<open>waitFor\<close> does not wait again. Wherever
  the waiting thread is, its next evaluation returns true: at once when it is called, at the next
  wake-up or at the timeout when it sleeps; and a thread that already sleeps when \<open>stop\<close> is
  called has been woken when \<open>stop\<close> returns.
\<close>

theorem stop_ends_waitFor:
  assumes "ww_stop s" and "a \<in> {WCall, WWake, WTimeout}" and "ww_step a s = Some s'"
  shows "ww_pc s' = Outside \<and> ww_result s' = Some True \<and>
    (ww_pc s0 = Asleep \<longrightarrow> map_option ww_pc (ww_exec calls_stop s0) = Some Woken)"
  using assms by (auto simp: ww_check_def ww_return_def calls_stop_def wb_wakeUp_def split: if_splits)

theorem stop_ends_waitFor_witness:
  "\<exists>s s'. ww_exec [WCall, WSleep, WRequestStop, WWakeUp] ww_new = Some s \<and> ww_step WWake s = Some s' \<and>
     ww_result s' = Some True"
proof -
  have "map_option (\<lambda>s. (ww_stop s, ww_pc s)) (ww_exec [WCall, WSleep, WRequestStop, WWakeUp] ww_new) = Some (True, Woken)"
    by code_simp
  then obtain s where s: "ww_exec [WCall, WSleep, WRequestStop, WWakeUp] ww_new = Some s" "ww_stop s" "ww_pc s = Woken"
    by auto
  then obtain s' where step: "ww_step WWake s = Some s'" by simp
  with stop_ends_waitFor [OF s(2), of WWake s'] have "ww_result s' = Some True" by simp
  with s(1) step show ?thesis by blast
qed

text \<open>
  Further property (liveness): \<open>waitFor\<close> can sleep through a stop. \<open>stop\<close> takes no mutex, so all of it can fall
  between the evaluation of the predicate and the sleep: the thread then sleeps although the stop was
  requested and the notification sent, until its timeout. The stop request of \<open>main\<close>,
  which the token of a managed thread reports too, wakes nobody even if the thread already sleeps.
\<close>

theorem waitFor_can_sleep_through_a_stop:
  "map_option (\<lambda>s. (ww_pc s, ww_stop s)) (ww_exec ([WCall] @ calls_stop @ [WSleep]) ww_new) = Some (Asleep, True) \<and>
   map_option (\<lambda>s. (ww_pc s, ww_stop s)) (ww_exec ([WCall, WSleep] @ main_stop) ww_new) = Some (Asleep, True) \<and>
   map_option ww_result (ww_exec ([WCall] @ calls_stop @ [WSleep, WTimeout]) ww_new) = Some (Some True)"
  by code_simp

end
