(* ===== verification/TaskThread.thy ===== *)
theory TaskThread
  imports Messaging WorkerBase
begin

text \<open>
  A task that sends to itself, with its thread and one caller: the concrete \<open>Task\<close> of
  \<open>src/include/taskBase.hpp\<close> and the task of \<open>test/task_test.cpp\<close>, which differ in the function that
  is told of a posted message (\<open>notifies\<close>: \<open>Task\<close> without an \<open>OnMessageFunction\<close> has none).

  \<^item> The run loop is the one of the test: test the stop token, \<open>wait_for\<close> a message, count it. A step
    of \<open>Take\<close> is the return of \<open>wait_for\<close>: the oldest message, or null at the timeout if there is none.
  \<^item> The caller starts the task, sends through its sender, and calls \<open>stopAndWait\<close>, which requests the stop
    and joins; these calls come in any order and any number.
\<close>

datatype task_caller = AtCall | Joining

record 'p task_thread =
  tk_worker :: workerBase
  tk_world :: "(unit, 'p) send_world"
  tk_at_wait :: bool
  tk_taken :: "'p list"
  tk_sent :: "'p list"
  tk_caller :: task_caller

datatype 'p task_action = TStart bool | TSend 'p | TStopAndWait | TJoin | TBegin | TTest | TTake | TMark

definition no_sources :: stop_sources where
  "no_sources = (\<lambda>_. \<lparr>ss_requested = False, ss_exists = False\<rparr>)"

definition tk_new :: "'p task_thread" where
  "tk_new = \<lparr>tk_worker = wb_new, tk_world = \<lparr>sw_queues = [() \<mapsto> mq_new], sw_errors = 0, sw_hooked = []\<rparr>,
     tk_at_wait = False, tk_taken = [], tk_sent = [], tk_caller = AtCall\<rparr>"

definition tk_hook :: "bool \<Rightarrow> (unit, 'p) post_hook" where
  "tk_hook notifies =
     task_hook [() \<mapsto> task_new () (Some id) (if notifies then Some (logging_hook ()) else None)]"

definition tk_send :: "bool \<Rightarrow> 'p \<Rightarrow> 'p task_thread \<Rightarrow> unit send_fault + 'p task_thread" where
  "tk_send notifies m s = (case Send (tk_hook notifies) (makeSender True ()) m (tk_world s) of
     Inl fault \<Rightarrow> Inl fault
   | Inr w \<Rightarrow> Inr (s\<lparr>tk_world := w, tk_sent := tk_sent s @ [m]\<rparr>))"

definition tk_join :: "'p task_thread \<Rightarrow> 'p task_thread" where
  "tk_join s = (case wb_join (tk_worker s) of
     None \<Rightarrow> s
   | Some w \<Rightarrow> s\<lparr>tk_worker := w, tk_caller := AtCall\<rparr>)"

definition tk_begin :: "'p task_thread \<Rightarrow> 'p task_thread" where
  "tk_begin s = (case wb_phase (tk_worker s) of
     Spawned _ \<Rightarrow> s\<lparr>tk_worker := wb_body_begin no_sources (tk_worker s), tk_at_wait := False\<rparr>
   | _ \<Rightarrow> s)"

definition tk_test :: "'p task_thread \<Rightarrow> 'p task_thread" where
  "tk_test s = (case wb_phase (tk_worker s) of
     InRun tok \<Rightarrow>
       if tk_at_wait s then s
       else if token_requested no_sources tok (tk_worker s) then s\<lparr>tk_worker := wb_body_return (tk_worker s)\<rparr>
       else s\<lparr>tk_at_wait := True\<rparr>
   | _ \<Rightarrow> s)"

definition tk_take :: "'p task_thread \<Rightarrow> unit send_fault + 'p task_thread" where
  "tk_take s = (case wb_phase (tk_worker s) of
     InRun _ \<Rightarrow>
       if \<not> tk_at_wait s then Inr s
       else (case sw_queues (tk_world s) () of
               None \<Rightarrow> Inl (DanglingQueue ())
             | Some mq \<Rightarrow>
                 (case mq_try_pop mq of (msg, mq') \<Rightarrow>
                    Inr (s\<lparr>tk_world := (tk_world s)\<lparr>sw_queues := (sw_queues (tk_world s))(() \<mapsto> mq')\<rparr>, tk_at_wait := False,
                           tk_taken := tk_taken s @ (case msg of None \<Rightarrow> [] | Some m \<Rightarrow> [m])\<rparr>)))
   | _ \<Rightarrow> Inr s)"

fun tk_step :: "bool \<Rightarrow> 'p task_action \<Rightarrow> 'p task_thread \<Rightarrow> unit send_fault + 'p task_thread" where
  "tk_step notifies (TStart spawn_ok) s =
     (if tk_caller s = AtCall then Inr (s\<lparr>tk_worker := snd (wb_start True spawn_ok None (tk_worker s))\<rparr>) else Inr s)"
| "tk_step notifies (TSend m) s = (if tk_caller s = AtCall then tk_send notifies m s else Inr s)"
| "tk_step notifies TStopAndWait s =
     (if tk_caller s = AtCall then Inr (s\<lparr>tk_worker := wb_stop (tk_worker s), tk_caller := Joining\<rparr>) else Inr s)"
| "tk_step notifies TJoin s = (if tk_caller s = Joining then Inr (tk_join s) else Inr s)"
| "tk_step notifies TBegin s = Inr (tk_begin s)"
| "tk_step notifies TTest s = Inr (tk_test s)"
| "tk_step notifies TTake s = tk_take s"
| "tk_step notifies TMark s = Inr (s\<lparr>tk_worker := wb_body_mark_stopped (tk_worker s)\<rparr>)"

fun tk_exec :: "bool \<Rightarrow> 'p task_action list \<Rightarrow> 'p task_thread \<Rightarrow> unit send_fault + 'p task_thread" where
  "tk_exec notifies [] s = Inr s"
| "tk_exec notifies (a # as) s = (case tk_step notifies a s of Inl fault \<Rightarrow> Inl fault | Inr s' \<Rightarrow> tk_exec notifies as s')"

subsection \<open>Invariant\<close>

definition tk_flow :: "bool \<Rightarrow> 'p task_thread \<Rightarrow> bool" where
  "tk_flow notifies s \<longleftrightarrow> (\<exists>pending. sw_queues (tk_world s) () = Some \<lparr>m_queue = map Some pending\<rparr> \<and>
     tk_sent s = tk_taken s @ pending) \<and> map snd (sw_hooked (tk_world s)) = (if notifies then tk_sent s else [])"

definition tk_life :: "workerBase \<Rightarrow> task_caller \<Rightarrow> bool" where
  "tk_life w caller \<longleftrightarrow> wb_inv w \<and> (\<forall>ext. wb_phase w = Spawned ext \<longrightarrow> ext = None) \<and>
     (\<forall>tok. wb_phase w = InRun tok \<longrightarrow> tok = InternalToken) \<and>
     (caller = Joining \<and> body_active (wb_phase w) \<longrightarrow> own_stop_requested w)"

definition tk_inv :: "bool \<Rightarrow> 'p task_thread \<Rightarrow> bool" where
  "tk_inv notifies s \<longleftrightarrow> tk_flow notifies s \<and> tk_life (tk_worker s) (tk_caller s)"

lemma tk_inv_new: "tk_inv notifies tk_new"
  by (simp add: tk_inv_def tk_flow_def tk_life_def tk_new_def wb_inv_new mq_new_def) (simp add: wb_new_def)

lemma flow_frame [simp]:
  "tk_flow notifies (s\<lparr>tk_worker := w\<rparr>) = tk_flow notifies s" "tk_flow notifies (s\<lparr>tk_at_wait := b\<rparr>) = tk_flow notifies s"
  "tk_flow notifies (s\<lparr>tk_caller := c\<rparr>) = tk_flow notifies s"
  by (simp_all add: tk_flow_def)

lemma tk_send_effect:
  assumes "sw_queues (tk_world s) () = Some mq"
  shows "tk_send notifies m s = Inr (s\<lparr>tk_world := (tk_world s)\<lparr>sw_queues := (sw_queues (tk_world s))(() \<mapsto> mq_push_ptr (Some m) mq),
      sw_hooked := sw_hooked (tk_world s) @ (if notifies then [((), m)] else [])\<rparr>, tk_sent := tk_sent s @ [m]\<rparr>)"
  using assms
  by (simp add: tk_send_def tk_hook_def Send_def ensureQueueAvailable_def push_to_def makeSender_def task_hook_def
      task_new_def task_onPostMessageReceived_def logging_hook_def)

lemma tk_send_flow:
  assumes "tk_flow notifies s"
  obtains s' where "tk_send notifies m s = Inr s'" and "tk_flow notifies s'" and "tk_worker s' = tk_worker s"
    and "tk_caller s' = tk_caller s" and "tk_sent s' = tk_sent s @ [m]"
proof -
  from assms obtain pending where mq: "sw_queues (tk_world s) () = Some \<lparr>m_queue = map Some pending\<rparr>"
    and "tk_sent s = tk_taken s @ pending" "map snd (sw_hooked (tk_world s)) = (if notifies then tk_sent s else [])"
    by (auto simp: tk_flow_def)
  then show ?thesis
    by (intro that [OF tk_send_effect [OF mq]])
      (auto simp: tk_flow_def mq_push_ptr_def intro!: exI [of _ "pending @ [m]"])
qed

lemma tk_take_flow:
  assumes "tk_flow notifies s"
  obtains s' where "tk_take s = Inr s'" and "tk_flow notifies s'" and "tk_worker s' = tk_worker s"
    and "tk_caller s' = tk_caller s" and "tk_sent s' = tk_sent s" and "length (tk_taken s') \<le> Suc (length (tk_taken s))"
    and "s' = s \<or> (\<exists>tok. wb_phase (tk_worker s) = InRun tok) \<and> tk_at_wait s \<and> \<not> tk_at_wait s'"
proof (cases "(\<exists>tok. wb_phase (tk_worker s) = InRun tok) \<and> tk_at_wait s")
  case True
  from assms obtain pending where mq: "sw_queues (tk_world s) () = Some \<lparr>m_queue = map Some pending\<rparr>"
    and "tk_sent s = tk_taken s @ pending" "map snd (sw_hooked (tk_world s)) = (if notifies then tk_sent s else [])"
    by (auto simp: tk_flow_def)
  with True that show ?thesis
    by (cases pending) (auto simp: tk_take_def tk_flow_def mq_try_pop_def mq_pop_def)
next
  case False
  with that [of s] assms show ?thesis by (auto simp: tk_take_def split: phase.splits)
qed

lemma life_moves:
  assumes "tk_life w caller"
  shows "caller = AtCall \<Longrightarrow> tk_life (snd (wb_start True spawn_ok None w)) AtCall"
    and "caller = AtCall \<Longrightarrow> tk_life (wb_stop w) Joining"
    and "wb_join w = Some w' \<Longrightarrow> tk_life w' AtCall"
    and "tk_life (wb_body_begin no_sources w) caller" and "tk_life (wb_body_return w) caller"
    and "tk_life (wb_body_mark_stopped w) caller"
proof -
  have inv: "wb_inv w" using assms by (simp add: tk_life_def)
  show "tk_life (snd (wb_start True spawn_ok None w)) AtCall" if "caller = AtCall"
    using assms wb_inv_start [OF inv prod.collapse [symmetric], of True spawn_ok None]
    by (auto simp: tk_life_def wb_start_def Let_def)
  show "tk_life (wb_stop w) Joining" if "caller = AtCall"
    using assms wb_inv_stop [OF inv] by (auto simp: tk_life_def wb_stop_def own_stop_requested_def wb_inv_def)
  show "tk_life w' AtCall" if "wb_join w = Some w'"
    using assms that wb_inv_join [OF inv that] by (auto simp: tk_life_def wb_join_def split: if_splits)
  show "tk_life (wb_body_begin no_sources w) caller"
    using assms wb_inv_begin [OF inv]
    by (auto simp: tk_life_def wb_body_begin_def own_stop_requested_def split: phase.splits option.splits)
  show "tk_life (wb_body_return w) caller"
    using assms wb_inv_return [OF inv]
    by (auto simp: tk_life_def wb_body_return_def own_stop_requested_def split: phase.splits)
  show "tk_life (wb_body_mark_stopped w) caller"
    using assms wb_inv_mark [OF inv]
    by (auto simp: tk_life_def wb_body_mark_stopped_def own_stop_requested_def split: phase.splits)
qed

lemma tk_step_inv:
  assumes inv: "tk_inv notifies s"
  obtains s' where "tk_step notifies a s = Inr s'" and "tk_inv notifies s'"
proof -
  have flow: "tk_flow notifies s" and life: "tk_life (tk_worker s) (tk_caller s)" using inv by (simp_all add: tk_inv_def)
  have "\<exists>s'. tk_step notifies a s = Inr s' \<and> tk_inv notifies s'"
  proof (cases a)
    case (TSend m)
    obtain s' where "tk_send notifies m s = Inr s'" "tk_flow notifies s'" "tk_worker s' = tk_worker s"
      "tk_caller s' = tk_caller s" by (rule tk_send_flow [OF flow, of m])
    with life inv TSend show ?thesis by (auto simp: tk_inv_def)
  next
    case TTake
    moreover obtain s' where "tk_take s = Inr s'" "tk_flow notifies s'" "tk_worker s' = tk_worker s"
      "tk_caller s' = tk_caller s" by (rule tk_take_flow [OF flow])
    ultimately show ?thesis using life by (simp add: tk_inv_def)
  next
    case TTest
    then show ?thesis using flow life life_moves(5) [OF life] by (auto simp: tk_inv_def tk_test_def split: phase.split)
  next
    case TBegin
    then show ?thesis using flow life life_moves(4) [OF life] by (auto simp: tk_inv_def tk_begin_def split: phase.split)
  qed (use flow life life_moves(1-3,6) [OF life] in \<open>auto simp: tk_inv_def tk_join_def split: option.split\<close>)
  with that show ?thesis by blast
qed

lemma tk_exec_inv:
  assumes "tk_inv notifies s"
  shows "\<exists>s'. tk_exec notifies as s = Inr s' \<and> tk_inv notifies s'"
  using assms
proof (induction as arbitrary: s)
  case (Cons a as)
  obtain s1 where "tk_step notifies a s = Inr s1" "tk_inv notifies s1" using tk_step_inv [OF Cons.prems] .
  with Cons.IH [of s1] show ?case by simp
qed simp

subsection \<open>Stopping\<close>

fun task_owed :: "phase \<Rightarrow> bool \<Rightarrow> nat" where
  "task_owed (Spawned _) at_wait = 3"
| "task_owed (InRun _) at_wait = (if at_wait then 3 else 2)"
| "task_owed Leaving at_wait = 1"
| "task_owed _ at_wait = 0"

definition tk_owed :: "'p task_thread \<Rightarrow> nat" where
  "tk_owed s = task_owed (wb_phase (tk_worker s)) (tk_at_wait s) + (if tk_caller s = Joining then 1 else 0)"

text \<open>The messages the task can still take: one, if it is in \<open>wait_for\<close>.\<close>

definition takes_left :: "'p task_thread \<Rightarrow> nat" where
  "takes_left s = (case wb_phase (tk_worker s) of InRun _ \<Rightarrow> if tk_at_wait s then 1 else 0 | _ \<Rightarrow> 0)"

fun no_new_call :: "'p task_action \<Rightarrow> bool" where
  "no_new_call (TStart _) = False"
| "no_new_call (TSend _) = False"
| "no_new_call TStopAndWait = False"
| "no_new_call _ = True"

definition tk_stopping :: "bool \<Rightarrow> 'p task_thread \<Rightarrow> bool" where
  "tk_stopping notifies s \<longleftrightarrow> tk_inv notifies s \<and> (tk_caller s = Joining \<or> \<not> body_active (wb_phase (tk_worker s)))"

lemma stopping_requested:
  assumes "tk_stopping notifies s" and "wb_phase (tk_worker s) = InRun tok"
  shows "token_requested no_sources tok (tk_worker s)"
  using assms by (auto simp: tk_stopping_def tk_inv_def tk_life_def token_requested_def split: run_token.split)

lemma tk_stopping_step:
  assumes st: "tk_stopping notifies s" and "no_new_call a" and step: "tk_step notifies a s = Inr s'"
  shows "tk_stopping notifies s'" and "s' = s \<or> tk_owed s' < tk_owed s"
    and "length (tk_taken s') + takes_left s' \<le> length (tk_taken s) + takes_left s"
proof -
  have inv: "tk_inv notifies s" and life: "tk_life (tk_worker s) (tk_caller s)" using st by (simp_all add: tk_stopping_def tk_inv_def)
  have inv': "tk_inv notifies s'" using tk_step_inv [OF inv, of a] step by auto
  have "(tk_caller s' = Joining \<or> \<not> body_active (wb_phase (tk_worker s'))) \<and> (s' = s \<or> tk_owed s' < tk_owed s) \<and>
    length (tk_taken s') + takes_left s' \<le> length (tk_taken s) + takes_left s"
  proof (cases a)
    case TJoin
    with step st life show ?thesis
      by (auto simp: tk_stopping_def tk_life_def wb_inv_def tk_join_def wb_join_def tk_owed_def takes_left_def split: option.splits if_splits)
  next
    case TBegin
    with step st show ?thesis
      by (cases "wb_phase (tk_worker s)")
        (auto simp: tk_stopping_def tk_begin_def wb_body_begin_def tk_owed_def takes_left_def split: option.splits)
  next
    case TTest
    with step st stopping_requested [OF st] show ?thesis
      by (cases "wb_phase (tk_worker s)")
        (auto simp: tk_stopping_def tk_test_def wb_body_return_def tk_owed_def takes_left_def)
  next
    case TTake
    obtain s1 where s1: "tk_take s = Inr s1" "tk_worker s1 = tk_worker s" "tk_caller s1 = tk_caller s"
      "length (tk_taken s1) \<le> Suc (length (tk_taken s))"
      "s1 = s \<or> (\<exists>tok. wb_phase (tk_worker s) = InRun tok) \<and> tk_at_wait s \<and> \<not> tk_at_wait s1"
      using st by (auto simp: tk_stopping_def tk_inv_def elim: tk_take_flow)
    with TTake step st show ?thesis by (auto simp: tk_stopping_def tk_owed_def takes_left_def)
  next
    case TMark
    with step st show ?thesis
      by (cases "wb_phase (tk_worker s)")
        (auto simp: tk_stopping_def wb_body_mark_stopped_def tk_owed_def takes_left_def)
  qed (use assms in simp_all)
  with inv' show "tk_stopping notifies s'" and "s' = s \<or> tk_owed s' < tk_owed s"
    and "length (tk_taken s') + takes_left s' \<le> length (tk_taken s) + takes_left s" by (simp_all add: tk_stopping_def)
qed

fun tk_changing :: "bool \<Rightarrow> 'p task_action list \<Rightarrow> 'p task_thread \<Rightarrow> bool" where
  "tk_changing notifies [] s = True"
| "tk_changing notifies (a # as) s = (no_new_call a \<and>
     (case tk_step notifies a s of Inl _ \<Rightarrow> False | Inr s' \<Rightarrow> s' \<noteq> s \<and> tk_changing notifies as s'))"

definition tk_at_rest :: "bool \<Rightarrow> 'p task_thread \<Rightarrow> bool" where
  "tk_at_rest notifies s \<longleftrightarrow> (\<forall>a. no_new_call a \<longrightarrow> tk_step notifies a s = Inr s)"

lemma tk_stopping_exec:
  "tk_stopping notifies s \<Longrightarrow> tk_changing notifies as s \<Longrightarrow>
     \<exists>s'. tk_exec notifies as s = Inr s' \<and> tk_stopping notifies s' \<and> length as + tk_owed s' \<le> tk_owed s \<and>
       length (tk_taken s') + takes_left s' \<le> length (tk_taken s) + takes_left s"
proof (induction as arbitrary: s)
  case (Cons a as)
  then obtain s1 where s1: "tk_step notifies a s = Inr s1" "s1 \<noteq> s" "tk_changing notifies as s1" "no_new_call a"
    by (auto split: sum.splits)
  note step = tk_stopping_step [OF Cons.prems(1) s1(4,1)]
  from Cons.IH [OF step(1) s1(3)] step(2,3) s1 show ?case by fastforce
qed simp

lemma tk_rest_joined:
  assumes st: "tk_stopping notifies s" and rest: "tk_at_rest notifies s"
  shows "tk_caller s = AtCall \<and> \<not> wb_isRunning (tk_worker s)"
proof -
  note stays = rest [unfolded tk_at_rest_def, rule_format]
  have life: "tk_life (tk_worker s) (tk_caller s)" using st by (simp add: tk_stopping_def tk_inv_def)
  have "\<not> body_active (wb_phase (tk_worker s))"
  proof (cases "wb_phase (tk_worker s)")
    case (Spawned ext)
    with stays [of TBegin] have "wb_phase (wb_body_begin no_sources (tk_worker s)) = Spawned ext"
      by (auto simp: tk_begin_def dest: arg_cong [where f = "\<lambda>s. wb_phase (tk_worker s)"])
    with Spawned show ?thesis by (simp add: wb_body_begin_def split: option.splits if_splits)
  next
    case (InRun tok)
    show ?thesis
    proof (cases "tk_at_wait s")
      case True
      obtain s1 where "tk_take s = Inr s1" "s1 = s \<or> \<not> tk_at_wait s1"
        using st by (auto simp: tk_stopping_def tk_inv_def elim: tk_take_flow)
      moreover have "tk_take s = Inr s" using stays [of TTake] by simp
      moreover have "\<not> tk_at_wait s1" if "tk_take s = Inr s1" for s1
        using that True InRun by (auto simp: tk_take_def split: option.splits prod.splits)
      ultimately show ?thesis using True by auto
    next
      case False
      with stays [of TTest] stopping_requested [OF st InRun] InRun
      have "wb_phase (wb_body_return (tk_worker s)) = InRun tok"
        by (auto simp: tk_test_def dest: arg_cong [where f = "\<lambda>s. wb_phase (tk_worker s)"])
      with InRun show ?thesis by (simp add: wb_body_return_def)
    qed
  next
    case Leaving
    with stays [of TMark] have "wb_phase (wb_body_mark_stopped (tk_worker s)) = Leaving"
      by (auto dest: arg_cong [where f = "\<lambda>s. wb_phase (tk_worker s)"])
    with Leaving show ?thesis by (simp add: wb_body_mark_stopped_def)
  qed simp_all
  moreover have "tk_caller s = AtCall"
  proof (rule ccontr)
    assume "tk_caller s \<noteq> AtCall"
    then have "tk_caller s = Joining" by (cases "tk_caller s") simp_all
    moreover obtain w where "wb_join (tk_worker s) = Some w"
      using join_inactive [OF _ \<open>\<not> body_active (wb_phase (tk_worker s))\<close>] life by (auto simp: tk_life_def)
    ultimately show False using stays [of TJoin] by (auto simp: tk_join_def dest: arg_cong [where f = tk_caller])
  qed
  ultimately show ?thesis using life by (simp add: tk_life_def wb_inv_def wb_isRunning_def)
qed

subsection \<open>The test\<close>

text \<open>
  \<open>MyTask\<close> counts the messages whose dynamic type is \<open>MyMessage\<close>, and the notifications; the second
  task of the test counts every message and has no message function.
\<close>

datatype test_message = MyMessage string | OtherMessage

fun as_MyMessage :: "test_message \<Rightarrow> string option" where
  "as_MyMessage (MyMessage txt) = Some txt"
| "as_MyMessage OtherMessage = None"

definition receivedCount :: "test_message task_thread \<Rightarrow> nat" where
  "receivedCount s = length (filter (\<lambda>m. pointer_cast as_MyMessage (Some m) \<noteq> None) (tk_taken s))"

definition notificationCount :: "test_message task_thread \<Rightarrow> nat" where
  "notificationCount s = length (sw_hooked (tk_world s))"

definition lambdaReceivedCount :: "test_message task_thread \<Rightarrow> nat" where
  "lambdaReceivedCount s = length (tk_taken s)"

text \<open>The calls of the test, with the steps the thread makes while the caller sleeps and while it joins.\<close>

definition test_calls :: "test_message task_action list \<Rightarrow> test_message task_action list \<Rightarrow> test_message task_action list" where
  "test_calls asleep joining = [TStart True, TSend (MyMessage ''Hello'')] @ asleep @ [TStopAndWait] @ joining @ [TJoin]"

subsection \<open>Properties\<close>

text \<open>
  Property C39 (functional, safety): a task that sends to itself loses nothing. However its thread and the
  calls of \<open>start\<close>, \<open>Send\<close> and \<open>stopAndWait\<close> interleave, no send faults, the messages taken and those
  still queued are those sent, in order and each once, and the message function was told of each
  message sent exactly once, in order (a task without one of none).
\<close>

theorem task_delivers_once:
  "\<exists>s pending. tk_exec notifies as tk_new = Inr s \<and>
     sw_queues (tk_world s) () = Some \<lparr>m_queue = map Some pending\<rparr> \<and> tk_sent s = tk_taken s @ pending \<and>
     map snd (sw_hooked (tk_world s)) = (if notifies then tk_sent s else [])"
  using tk_exec_inv [OF tk_inv_new, of notifies as] by (auto simp: tk_inv_def tk_flow_def)

text \<open>
  Further property (termination, bounds): \<open>stopAndWait\<close> returns after at most four steps of the thread and the
  caller together that do something, whatever was sent before: the task does not drain its queue, it
  takes at most one more message. When no step is left the call has returned and the task does
  not run.
\<close>

theorem task_stop_bounded:
  assumes "tk_exec notifies as tk_new = Inr s" and "tk_caller s = Joining" and "tk_changing notifies as' s"
  shows "length as' \<le> 4 \<and> (\<exists>s'. tk_exec notifies as' s = Inr s' \<and> length (tk_taken s') \<le> length (tk_taken s) + 1 \<and>
    (tk_at_rest notifies s' \<longrightarrow> tk_caller s' = AtCall \<and> \<not> wb_isRunning (tk_worker s')))"
proof -
  have "tk_stopping notifies s" using tk_exec_inv [OF tk_inv_new, of notifies as] assms(1,2) by (simp add: tk_stopping_def)
  from tk_stopping_exec [OF this assms(3)] obtain s' where run: "tk_exec notifies as' s = Inr s'" "tk_stopping notifies s'"
    "length as' + tk_owed s' \<le> tk_owed s"
    "length (tk_taken s') + takes_left s' \<le> length (tk_taken s) + takes_left s" by blast
  moreover have "tk_owed s \<le> 4" and "takes_left s \<le> 1"
    by (cases "wb_phase (tk_worker s)"; simp add: tk_owed_def takes_left_def)+
  ultimately show ?thesis using tk_rest_joined [OF run(2)] by auto
qed

definition in_wait_stopped :: "test_message task_action list" where
  "in_wait_stopped = [TStart True, TSend OtherMessage, TSend (MyMessage ''Hello''), TBegin, TTest, TStopAndWait]"

text \<open>A step that moves the caller or the thread changes the state.\<close>

definition tk_place :: "'p task_thread \<Rightarrow> phase \<times> bool \<times> task_caller" where
  "tk_place s = (wb_phase (tk_worker s), tk_at_wait s, tk_caller s)"

fun tk_moving :: "bool \<Rightarrow> 'p task_action list \<Rightarrow> 'p task_thread \<Rightarrow> bool" where
  "tk_moving notifies [] s = True"
| "tk_moving notifies (a # as) s = (no_new_call a \<and>
     (case tk_step notifies a s of Inl _ \<Rightarrow> False | Inr s' \<Rightarrow> tk_place s' \<noteq> tk_place s \<and> tk_moving notifies as s'))"

lemma tk_moving_changing: "tk_moving notifies as s \<Longrightarrow> tk_changing notifies as s"
  by (induction notifies as s rule: tk_moving.induct) (auto split: sum.splits)

theorem task_stop_bounded_witness:
  "\<exists>s s'. tk_exec True in_wait_stopped tk_new = Inr s \<and> tk_exec True [TTake, TTest, TMark, TJoin] s = Inr s' \<and>
     tk_taken s' = [OtherMessage] \<and> tk_caller s' = AtCall \<and> length (tk_taken s') \<le> length (tk_taken s) + 1"
proof -
  have "(case tk_exec True in_wait_stopped tk_new of
      Inr s \<Rightarrow> tk_caller s = Joining \<and> tk_moving True [TTake, TTest, TMark, TJoin] s \<and>
        (case tk_exec True [TTake, TTest, TMark, TJoin] s of
           Inr s' \<Rightarrow> tk_caller s' = AtCall \<and> tk_taken s' = [OtherMessage] | _ \<Rightarrow> False)
    | _ \<Rightarrow> False)" by code_simp
  then obtain s s' where s: "tk_exec True in_wait_stopped tk_new = Inr s" "tk_caller s = Joining"
    "tk_moving True [TTake, TTest, TMark, TJoin] s"
    and s': "tk_exec True [TTake, TTest, TMark, TJoin] s = Inr s'" "tk_caller s' = AtCall" "tk_taken s' = [OtherMessage]"
    by (auto simp del: tk_exec.simps tk_moving.simps split: sum.splits)
  from task_stop_bounded [OF s(1,2) tk_moving_changing [OF s(3)]] s s'
  show ?thesis by (auto simp del: tk_exec.simps)
qed

text \<open>
  Further property (safety): the assertions of \<open>test/task_test.cpp\<close> on what was received rest on the sleep. The
  calls of the test alone do not decide them: with the same calls, all of them returned, the counts
  are one if the thread takes the message before the stop, and zero if it is first scheduled after
  it. The count of notifications is one in both.
\<close>

theorem task_test_rests_on_the_sleep:
  "(case tk_exec True (test_calls [TBegin, TTest, TTake] [TTest, TMark]) tk_new of
      Inr s \<Rightarrow> tk_caller s = AtCall \<and> \<not> wb_isRunning (tk_worker s) \<and> receivedCount s = 1 \<and>
        notificationCount s = 1 \<and> lambdaReceivedCount s = 1 | _ \<Rightarrow> False) \<and>
   (case tk_exec True (test_calls [] [TBegin, TTest, TMark]) tk_new of
      Inr s \<Rightarrow> tk_caller s = AtCall \<and> \<not> wb_isRunning (tk_worker s) \<and> receivedCount s = 0 \<and>
        notificationCount s = 1 \<and> lambdaReceivedCount s = 0 | _ \<Rightarrow> False)"
  by code_simp

end
