(* ===== verification/TimerRange.thy ===== *)
theory TimerRange
  imports StopTimer
begin

text \<open>
  The arithmetic of \<open>stopTimer\<close> (\<open>src/include/time/stopTimer.hpp\<close>) at its width. A duration and a time
  point hold a signed 64-bit count, and an overflow of a subtraction or of the multiplication in
  \<open>duration_cast\<close> is undefined behaviour: \<open>None\<close>. \<open>duration_cast\<close> multiplies and divides by the reduced
  ratio of the two units. The functions have the names of \<open>StopTimer\<close> with \<open>64\<close>.
\<close>

definition in64 :: "int \<Rightarrow> bool" where
  "in64 i \<longleftrightarrow> - (2 ^ 63) \<le> i \<and> i < 2 ^ 63"

definition chk64 :: "int \<Rightarrow> int option" where
  "chk64 i = (if in64 i then Some i else None)"

definition duration_cast64 :: "int \<Rightarrow> int \<Rightarrow> int option" where
  "duration_cast64 unit ms =
     map_option (\<lambda>p. tdiv p (unit div gcd ms_unit unit)) (chk64 (ms * (ms_unit div gcd ms_unit unit)))"

definition Timeout64 :: "int \<Rightarrow> stopTimer \<Rightarrow> int option" where
  "Timeout64 unit tm = duration_cast64 unit (m_timeout_duration tm)"

definition SetTimeout64 :: "int \<Rightarrow> int \<Rightarrow> stopTimer \<Rightarrow> stopTimer option" where
  "SetTimeout64 ms_per_tick timeout tm =
     map_option (\<lambda>ms. tm\<lparr>m_timeout_duration := ms\<rparr>) (chk64 (timeout * ms_per_tick))"

definition ElapsedTime64 :: "int \<Rightarrow> int \<Rightarrow> stopTimer \<Rightarrow> int option" where
  "ElapsedTime64 unit now tm =
     (if \<not> IsRunning tm then Some 0
      else Option.bind (chk64 (CurrentTime now - m_start_point tm)) (duration_cast64 unit))"

definition IsElapsed64 :: "int \<Rightarrow> stopTimer \<Rightarrow> bool option option" where
  "IsElapsed64 now tm =
     (if \<not> m_is_running tm then Some None
      else if m_timeout_duration tm = 0 then Some (Some True)
      else map_option (\<lambda>elapsed. Some (elapsed > m_timeout_duration tm)) (ElapsedTime64 ms_unit now tm))"

definition LeftTime64 :: "int \<Rightarrow> int \<Rightarrow> stopTimer \<Rightarrow> int option" where
  "LeftTime64 unit now tm =
     (if \<not> IsRunning tm then Some 0
      else Option.bind (ElapsedTime64 ms_unit now tm)
        (\<lambda>elapsed. Option.bind (chk64 (m_timeout_duration tm - elapsed)) (duration_cast64 unit)))"

lemmas timer64_defs = Timeout64_def SetTimeout64_def ElapsedTime64_def IsElapsed64_def LeftTime64_def

subsection \<open>The casts\<close>

lemma in64_scaled:
  assumes "\<bar>i\<bar> * ms_unit < 2 ^ 63"
  shows "in64 i"
proof -
  have "\<bar>i\<bar> * 1 \<le> \<bar>i\<bar> * ms_unit" by (intro mult_left_mono) (simp_all add: ms_unit_def)
  with assms have "\<bar>i\<bar> < 2 ^ 63" by linarith
  then show ?thesis unfolding in64_def by linarith
qed

lemma tdiv_reduce:
  assumes "0 < g"
  shows "tdiv (a * g) (b * g) = tdiv a b"
  using assms by (simp add: tdiv_def sgn_mult abs_mult)

lemma cast_reduce:
  assumes "0 < unit"
  shows "tdiv (ms * (ms_unit div gcd ms_unit unit)) (unit div gcd ms_unit unit) = duration_cast unit ms"
proof -
  let ?g = "gcd ms_unit unit"
  have "0 < ?g" using assms by (simp add: ms_unit_def)
  then have "tdiv (ms * (ms_unit div ?g) * ?g) (unit div ?g * ?g) = tdiv (ms * (ms_unit div ?g)) (unit div ?g)"
    by (rule tdiv_reduce)
  then show ?thesis by (simp add: duration_cast_def mult.assoc)
qed

lemma duration_cast64_sound: "0 < unit \<Longrightarrow> duration_cast64 unit ms = Some d \<Longrightarrow> d = duration_cast unit ms"
  by (auto simp: duration_cast64_def chk64_def cast_reduce split: if_splits)

lemma duration_cast64_total:
  assumes "0 < unit" and "\<bar>ms\<bar> * ms_unit < 2 ^ 63"
  shows "duration_cast64 unit ms = Some (duration_cast unit ms)"
proof -
  let ?num = "ms_unit div gcd ms_unit unit"
  have "0 \<le> ?num" and "?num \<le> ms_unit" using assms(1) by (simp_all add: ms_unit_def int_div_less_self pos_imp_zdiv_nonneg_iff)
      (smt (verit) div_by_1 gcd_pos_int zdiv_mono2)
  then have "\<bar>ms * ?num\<bar> \<le> \<bar>ms\<bar> * ms_unit" by (simp add: abs_mult mult_left_mono)
  with assms(2) have "in64 (ms * ?num)" unfolding in64_def by linarith
  then show ?thesis using assms(1) by (simp add: duration_cast64_def chk64_def cast_reduce)
qed

lemma duration_cast64_ms: "duration_cast64 ms_unit ms = chk64 ms"
  by (simp add: duration_cast64_def ms_unit_def chk64_def tdiv_def abs_sgn)

text \<open>The elapsed time of a clock that counts from zero, in milliseconds and nanoseconds.\<close>

lemma elapsed_range:
  assumes "0 \<le> start" and "start \<le> now" and "now < 2 ^ 63"
  shows "0 \<le> CurrentTime now - CurrentTime start" and "(CurrentTime now - CurrentTime start) * ms_unit < 2 ^ 63"
    and "in64 (CurrentTime now - CurrentTime start)"
proof -
  have cur: "CurrentTime now = now div ms_unit" "CurrentTime start = start div ms_unit"
    using assms by (simp_all add: CurrentTime_div)
  have "0 \<le> start div ms_unit" using assms(1) by (simp add: ms_unit_def pos_imp_zdiv_nonneg_iff)
  then have "(now div ms_unit - start div ms_unit) * ms_unit \<le> now div ms_unit * ms_unit"
    by (simp add: ms_unit_def)
  also have "\<dots> \<le> now" using ms_bounds(1) [of now] by (simp add: mult.commute)
  finally show upper: "(CurrentTime now - CurrentTime start) * ms_unit < 2 ^ 63" using cur assms(3) by simp
  show lower: "0 \<le> CurrentTime now - CurrentTime start" using cur ms_mono [OF assms(2)] by simp
  show "in64 (CurrentTime now - CurrentTime start)" using upper lower by (simp add: in64_def ms_unit_def)
qed

lemma started_timer:
  "m_is_running (snd (Start_with k timeout start t))" "m_start_point (snd (Start_with k timeout start t)) = CurrentTime start"
  "m_timeout_duration (snd (Start_with k timeout start t)) = timeout * k"
  by (simp_all add: Start_with_def SetTimeout_def Let_def)

subsection \<open>Properties\<close>

text \<open>
  Property C40 (bounds, equivalence): on a clock that counts nanoseconds from zero the 64-bit arithmetic of a
  running timer is exact. \<open>IsElapsed\<close> and \<open>ElapsedTime\<close> in any unit never overflow, whatever the
  timeout; \<open>LeftTime\<close> and \<open>Timeout\<close> in any unit do not if the timeout is less than 292 years.
\<close>

theorem timer_never_overflows:
  assumes "0 \<le> start" and "start \<le> now" and "now < 2 ^ 63" and "0 < unit"
  shows "let tm = snd (Start_with 1 timeout start t0) in
    IsElapsed64 now tm = Some (IsElapsed now tm) \<and> ElapsedTime64 unit now tm = Some (ElapsedTime unit now tm) \<and>
    (0 \<le> timeout \<and> timeout * ms_unit < 2 ^ 63 \<longrightarrow>
       LeftTime64 unit now tm = Some (LeftTime unit now tm) \<and> Timeout64 unit tm = Some (Timeout unit tm))"
proof -
  let ?tm = "snd (Start_with 1 timeout start t0)" and ?e = "CurrentTime now - CurrentTime start"
  note range = elapsed_range [OF assms(1-3)]
  have elapsed: "ElapsedTime64 u now ?tm = Some (ElapsedTime u now ?tm)" if "0 < u" for u
    using range that duration_cast64_total [OF that, of ?e]
    by (simp add: ElapsedTime64_def ElapsedTime_def IsRunning_def started_timer chk64_def)
  then have "IsElapsed64 now ?tm = Some (IsElapsed now ?tm)"
    by (simp add: IsElapsed64_def IsElapsed_def started_timer ms_unit_def)
  moreover have "LeftTime64 unit now ?tm = Some (LeftTime unit now ?tm) \<and> Timeout64 unit ?tm = Some (Timeout unit ?tm)"
    if t: "0 \<le> timeout" "timeout * ms_unit < 2 ^ 63"
  proof -
    have rem: "\<bar>timeout - ?e\<bar> * ms_unit < 2 ^ 63"
    proof (cases "?e \<le> timeout")
      case True
      then have "\<bar>timeout - ?e\<bar> * ms_unit \<le> timeout * ms_unit" using range(1) by (simp add: ms_unit_def)
      with t show ?thesis by linarith
    next
      case False
      then have "\<bar>timeout - ?e\<bar> * ms_unit \<le> ?e * ms_unit" using t(1) by (simp add: ms_unit_def)
      with range(2) show ?thesis by linarith
    qed
    then have "in64 (timeout - ?e)" by (rule in64_scaled)
    moreover have "ElapsedTime ms_unit now ?tm = ?e" by (simp add: ElapsedTime_def IsRunning_def started_timer)
    ultimately show ?thesis
      using duration_cast64_total [OF assms(4) rem] elapsed [of ms_unit] duration_cast64_total [OF assms(4), of timeout] t
      by (simp add: LeftTime64_def LeftTime_def Timeout64_def Timeout_def IsRunning_def started_timer chk64_def ms_unit_def Let_def)
  qed
  ultimately show ?thesis using elapsed [OF assms(4)] by (simp add: Let_def)
qed

theorem timer_never_overflows_witness:
  "let tm = snd (Start_with 1 100 5000000 timer_new) in
     IsElapsed64 106000000 tm = Some (Some True) \<and> LeftTime64 1000 106000000 tm = Some (-1000)"
proof -
  let ?tm = "snd (Start_with 1 100 5000000 timer_new)"
  have "IsElapsed 106000000 ?tm = Some True" "LeftTime 1000 106000000 ?tm = -1000" by code_simp+
  with timer_never_overflows [of 5000000 106000000 1000 100 timer_new] show ?thesis
    by (simp add: Let_def ms_unit_def)
qed

text \<open>
  Further property (error): beyond that the conversions overflow. A timer with a timeout of 317 years still
  works in milliseconds, but its timeout and its left time cannot be asked in nanoseconds; and a
  timeout given in hours overflows when it is set, long before its count does.
\<close>

theorem timer_overflows:
  "let tm = snd (Start_with 1 10000000000000 0 timer_new) in
     IsElapsed64 1000000 tm = Some (Some False) \<and> LeftTime64 ms_unit 1000000 tm = Some 9999999999999 \<and>
     LeftTime64 1 1000000 tm = None \<and> Timeout64 1 tm = None \<and>
     SetTimeout64 3600000 3000000000000 tm = None \<and> in64 3000000000000"
  by (simp add: Let_def started_timer timer64_defs duration_cast64_def chk64_def in64_def IsRunning_def CurrentTime_def
      ms_unit_def tdiv_def)

end
