(* ===== verification/CommandChannel.thy ===== *)
theory CommandChannel
  imports RingConcurrent Observer
begin

text \<open>
  The way of a command from \<open>ObserverIncomingThread::sendCommand\<close> to \<open>applyCommand\<close>
  (\<open>src/include/testThreads.hpp\<close>), with \<open>push\<close>, \<open>empty\<close>, \<open>pop\<close>, \<open>wait_pop_for\<close> and \<open>notifyOne\<close> of
  \<open>src/include/threading/spScRingBuffer.hpp\<close> cut at their memory accesses: the memory of \<open>RingConcurrent\<close>,
  where an acquire load may return an old store, joined with the wait of \<open>RingWait\<close> and the run loop of
  \<open>Observer\<close>.

  \<^item> The sending thread is in a method of the ring (\<open>p_pc\<close>) or owes the notification (\<open>cc_due\<close>).
  \<^item> \<open>cc_place\<close> is where the observer is: at the top of its loop, or in \<open>wait_pop_for\<close>: after a test that
    found the ring empty, asleep, roused, after a test that found it filled, inside \<open>pop\<close>; or with
    the result of the wait in hand. A test of the predicate is an acquire load of the head.
  \<^item> \<open>cc_inputs\<close> is auxiliary: what each iteration was given. \<open>cc_overflow\<close> records a signed overflow.
\<close>

datatype oi_place = Top | Tested | Slept | Roused | Found | Popping | Fetched "ObserverCommand option"

record channel =
  cc_ring :: "ObserverCommand ring_threads"
  cc_due :: bool
  cc_place :: oi_place
  cc_oi :: Observer
  cc_count :: int
  cc_sends :: "(tid Sender \<times> payload) list"
  cc_inputs :: "(ObserverCommand option \<times> readings) list"
  cc_overflow :: bool

datatype cc_action =
    SendBegin ObserverCommand | SendLoad nat | SendWrite | SendPublish | SendNotify
  | WaitTest nat | WaitSleep | WaitRouse | WaitTimeout nat | WaitEmpty nat
  | PopLoad nat | PopRead | PopPublish | Iterate readings

definition cc_start :: "Observer \<Rightarrow> channel" where
  "cc_start oi = \<lparr>cc_ring = ring_start (oi_cmdBuffer oi), cc_due = False, cc_place = Top, cc_oi = oi, cc_count = 0,
     cc_sends = [], cc_inputs = [], cc_overflow = False\<rparr>"

definition on_ring :: "ObserverCommand ring_action \<Rightarrow> channel \<Rightarrow> channel option" where
  "on_ring act s = map_option (\<lambda>r. s\<lparr>cc_ring := r\<rparr>) (ring_step act (cc_ring s))"

text \<open>\<open>empty()\<close> as the consumer calls it: its own tail against a load of the head.\<close>

definition sees_empty :: "nat \<Rightarrow> channel \<Rightarrow> bool" where
  "sees_empty j s \<longleftrightarrow> last (tail_hist (cc_ring s)) = head_hist (cc_ring s) ! j"

definition cc_test :: "nat \<Rightarrow> oi_place \<Rightarrow> oi_place \<Rightarrow> channel \<Rightarrow> channel option" where
  "cc_test j if_empty otherwise s =
     map_option (\<lambda>s. s\<lparr>cc_place := (if sees_empty j s then if_empty else otherwise)\<rparr>) (on_ring (ConsumerPeek j) s)"

definition cc_iterate :: "ObserverCommand option \<Rightarrow> readings \<Rightarrow> channel \<Rightarrow> channel" where
  "cc_iterate cmd t s = (case oi_iteration cmd t (cc_count s) (cc_oi s) of
     None \<Rightarrow> s\<lparr>cc_overflow := True\<rparr>
   | Some (sends, count, oi) \<Rightarrow> s\<lparr>cc_place := Top, cc_oi := oi, cc_count := count, cc_sends := cc_sends s @ sends,
       cc_inputs := cc_inputs s @ [(cmd, t)]\<rparr>)"

fun cc_step :: "cc_action \<Rightarrow> channel \<Rightarrow> channel option" where
  "cc_step (SendBegin cmd) s = (if cc_due s then None else on_ring (ProducerCall cmd) s)"
| "cc_step (SendLoad j) s = on_ring (ProducerLoadTail j) s"
| "cc_step SendWrite s = on_ring ProducerWrite s"
| "cc_step SendPublish s = map_option (\<lambda>s. s\<lparr>cc_due := True\<rparr>) (on_ring ProducerPublish s)"
| "cc_step SendNotify s =
     (if cc_due s then Some (s\<lparr>cc_due := False, cc_place := (if cc_place s = Slept then Roused else cc_place s)\<rparr>)
      else None)"
| "cc_step (WaitTest j) s = (if cc_place s \<in> {Top, Roused} then cc_test j Tested Found s else None)"
| "cc_step WaitSleep s = (if cc_place s = Tested then Some (s\<lparr>cc_place := Slept\<rparr>) else None)"
| "cc_step WaitRouse s = (if cc_place s = Slept then Some (s\<lparr>cc_place := Roused\<rparr>) else None)"
| "cc_step (WaitTimeout j) s = (if cc_place s \<in> {Slept, Roused} then cc_test j (Fetched None) Found s else None)"
| "cc_step (WaitEmpty j) s =
     (if cc_place s = Found
      then Option.bind (cc_test j (Fetched None) Popping s)
        (\<lambda>s. if cc_place s = Popping then on_ring ConsumerCall s else Some s)
      else None)"
| "cc_step (PopLoad j) s =
     (if cc_place s = Popping
      then map_option (\<lambda>s. if c_pc (cc_ring s) = CIdle then s\<lparr>cc_place := Fetched None\<rparr> else s) (on_ring (ConsumerLoadHead j) s)
      else None)"
| "cc_step PopRead s = (if cc_place s = Popping then on_ring ConsumerRead s else None)"
| "cc_step PopPublish s =
     (case (cc_place s, c_pc (cc_ring s)) of
        (Popping, CPublish out next) \<Rightarrow> map_option (\<lambda>s. s\<lparr>cc_place := Fetched (Some out)\<rparr>) (on_ring ConsumerPublish s)
      | _ \<Rightarrow> None)"
| "cc_step (Iterate t) s = (case cc_place s of Fetched cmd \<Rightarrow> Some (cc_iterate cmd t s) | _ \<Rightarrow> None)"

fun cc_exec :: "cc_action list \<Rightarrow> channel \<Rightarrow> channel option" where
  "cc_exec [] s = Some s"
| "cc_exec (a # as) s = (case cc_step a s of None \<Rightarrow> None | Some s' \<Rightarrow> cc_exec as s')"

definition commands_of :: "(ObserverCommand option \<times> readings) list \<Rightarrow> ObserverCommand list" where
  "commands_of inputs = concat (map (\<lambda>(cmd, _). case cmd of None \<Rightarrow> [] | Some c \<Rightarrow> [c]) inputs)"

definition in_hand :: "oi_place \<Rightarrow> ObserverCommand list" where
  "in_hand p = (case p of Fetched (Some c) \<Rightarrow> [c] | _ \<Rightarrow> [])"

subsection \<open>The accesses to the ring\<close>

lemma producer_frame:
  assumes "ring_step act r = Some r'" and "is_producer act"
  shows "popped r' = popped r" and "c_pc r' = c_pc r" and "c_view r' = c_view r" and "tail_hist r' = tail_hist r"
  using assms
  by (cases act; auto simp: ring_step_def push_step_def Let_def split: producer_pc.splits if_splits option.splits)+

lemma peek_effect:
  assumes "ring_step (ConsumerPeek j) r = Some r'"
  shows "r' = r\<lparr>c_view := j\<rparr>" and "c_pc r = CIdle" and "c_view r \<le> j" and "j < length (head_hist r)"
  using assms by (auto simp: ring_step_def pop_step_def split: consumer_pc.splits if_splits)

text \<open>A test finds the ring empty exactly if the load returned no store the consumer has not yet consumed.\<close>

lemma sees_empty_iff:
  assumes inv: "threads_inv r" and "c_pc r = CIdle" and "c_view r \<le> j" and "j < length (head_hist r)"
  shows "last (tail_hist r) = head_hist r ! j \<longleftrightarrow> n_popped r = j"
proof -
  let ?r = "r\<lparr>c_pc := CTest (last (tail_hist r))\<rparr>"
  have "ring_step ConsumerCall r = Some ?r" using assms(2) by (simp add: ring_step_def pop_step_def)
  from ring_step_inv [OF inv this] have inv': "threads_inv ?r" .
  obtain r' where step: "pop_step (ConsumerLoadHead j) ?r = Some r'"
    and pc: "c_pc r' = CIdle \<longleftrightarrow> last (tail_hist r) = head_hist r ! j"
    using assms(3,4) by (simp add: pop_step_def)
  from consumer_refusal [OF inv' _ step] pc show ?thesis by simp
qed

lemma on_ring_Some: "on_ring act s = Some s' \<longleftrightarrow> (\<exists>r. ring_step act (cc_ring s) = Some r \<and> s' = s\<lparr>cc_ring := r\<rparr>)"
  by (auto simp: on_ring_def)

lemma popped_before_view: "threads_inv r \<Longrightarrow> n_popped r \<le> c_view r"
  by (simp add: threads_inv_def inv_views_def)

lemma oi_run_snoc:
  "oi_run inputs count oi = Some (sends, count1, oi1) \<Longrightarrow> oi_iteration cmd t count1 oi1 = Some (more_sends, count2, oi2) \<Longrightarrow>
     oi_run (inputs @ [(cmd, t)]) count oi = Some (sends @ more_sends, count2, oi2)"
  by (induction inputs arbitrary: count oi sends) (auto split: option.splits)

subsection \<open>Invariant\<close>

definition cc_inv :: "Observer \<Rightarrow> channel \<Rightarrow> bool" where
  "cc_inv oi0 s \<longleftrightarrow> threads_inv (cc_ring s) \<and>
     oi_run (cc_inputs s) 0 oi0 = Some (cc_sends s, cc_count s, cc_oi s) \<and>
     popped (cc_ring s) = commands_of (cc_inputs s) @ in_hand (cc_place s) \<and>
     (cc_place s = Popping \<longleftrightarrow> c_pc (cc_ring s) \<noteq> CIdle) \<and>
     (cc_place s \<in> {Found, Popping} \<longrightarrow> n_popped (cc_ring s) < c_view (cc_ring s)) \<and>
     cc_count s \<le> int (length (cc_inputs s)) \<and> (cc_overflow s \<longrightarrow> int_max \<le> int (length (cc_inputs s)))"

lemma commands_of_snoc [simp]:
  "commands_of [] = []"
  "commands_of (inputs @ [(cmd, t)]) = commands_of inputs @ (case cmd of None \<Rightarrow> [] | Some c \<Rightarrow> [c])"
  by (simp_all add: commands_of_def)

lemma in_hand_simps [simp]:
  "in_hand Top = []" "in_hand Tested = []" "in_hand Slept = []" "in_hand Roused = []" "in_hand Found = []"
  "in_hand Popping = []" "in_hand (Fetched cmd) = (case cmd of None \<Rightarrow> [] | Some c \<Rightarrow> [c])"
  by (simp_all add: in_hand_def)

lemma inv_producer_step:
  assumes inv: "cc_inv oi0 s" and act: "is_producer act" and step: "ring_step act (cc_ring s) = Some r"
  shows "cc_inv oi0 (s\<lparr>cc_ring := r\<rparr>)"
  using inv ring_step_inv [OF _ step] producer_frame [OF step act] by (simp add: cc_inv_def n_popped_def)

text \<open>A test leaves the observer where the test says, knowing what it found.\<close>

lemma inv_test:
  assumes inv: "cc_inv oi0 s" and at: "cc_place s \<in> {Top, Roused, Slept, Found}" and step: "cc_test j if_empty otherwise s = Some s'"
  obtains b where "s' = s\<lparr>cc_ring := cc_ring s\<lparr>c_view := j\<rparr>, cc_place := (if b then if_empty else otherwise)\<rparr>"
    and "threads_inv (cc_ring s\<lparr>c_view := j\<rparr>)" and "c_pc (cc_ring s) = CIdle" and "c_view (cc_ring s) \<le> j"
    and "b \<longleftrightarrow> n_popped (cc_ring s) = j"
proof -
  from step obtain r where r: "ring_step (ConsumerPeek j) (cc_ring s) = Some r"
    and s': "s' = s\<lparr>cc_ring := r, cc_place := (if sees_empty j (s\<lparr>cc_ring := r\<rparr>) then if_empty else otherwise)\<rparr>"
    by (auto simp: cc_test_def on_ring_def)
  have threads: "threads_inv (cc_ring s)" using inv by (simp add: cc_inv_def)
  note peek = peek_effect [OF r]
  have "sees_empty j (s\<lparr>cc_ring := r\<rparr>) \<longleftrightarrow> n_popped (cc_ring s) = j"
    using sees_empty_iff [OF threads peek(2-4)] peek(1) by (simp add: sees_empty_def)
  with s' peek ring_step_inv [OF threads r] show ?thesis by (intro that) simp_all
qed

text \<open>After a test that found the ring filled, the next test finds it filled and \<open>pop\<close> finds an element.\<close>

lemma found_stays:
  assumes inv: "cc_inv oi0 s" and found: "cc_place s = Found" and t: "cc_test j if_empty otherwise s = Some s'"
  shows "s' = s\<lparr>cc_ring := cc_ring s\<lparr>c_view := j\<rparr>, cc_place := otherwise\<rparr>"
    and "threads_inv (cc_ring s\<lparr>c_view := j\<rparr>)" and "c_pc (cc_ring s) = CIdle" and "c_view (cc_ring s) \<le> j"
proof -
  have "cc_place s \<in> {Top, Roused, Slept, Found}" using found by simp
  from inv_test [OF inv this t] obtain b
    where s': "s' = s\<lparr>cc_ring := cc_ring s\<lparr>c_view := j\<rparr>, cc_place := (if b then if_empty else otherwise)\<rparr>"
      and threads: "threads_inv (cc_ring s\<lparr>c_view := j\<rparr>)" and idle: "c_pc (cc_ring s) = CIdle"
      and view: "c_view (cc_ring s) \<le> j" and b: "b \<longleftrightarrow> n_popped (cc_ring s) = j" by blast
  have "\<not> b" using b view inv found by (auto simp: cc_inv_def)
  with s' show "s' = s\<lparr>cc_ring := cc_ring s\<lparr>c_view := j\<rparr>, cc_place := otherwise\<rparr>" by simp
qed (rule inv_test [OF inv _ t], simp add: found, assumption)+

lemma pop_load_finds:
  assumes inv: "cc_inv oi0 s" and pop: "cc_place s = Popping" and r: "ring_step (ConsumerLoadHead j) (cc_ring s) = Some r"
  shows "c_pc r \<noteq> CIdle" and "c_view (cc_ring s) \<le> j" and "c_view r = j" and "popped r = popped (cc_ring s)"
    and "tail_hist r = tail_hist (cc_ring s)"
proof -
  from r obtain tail where t: "c_pc (cc_ring s) = CTest tail" "c_view (cc_ring s) \<le> j"
    by (auto simp: ring_step_def pop_step_def split: consumer_pc.splits if_splits)
  from r show "c_view (cc_ring s) \<le> j" and "c_view r = j" and "popped r = popped (cc_ring s)"
    and "tail_hist r = tail_hist (cc_ring s)"
    by (auto simp: ring_step_def pop_step_def split: consumer_pc.splits if_splits)
  have "pop_step (ConsumerLoadHead j) (cc_ring s) = Some r" using r by (simp add: ring_step_def)
  from consumer_refusal [OF _ t(1) this] t(2) inv pop show "c_pc r \<noteq> CIdle" by (auto simp: cc_inv_def)
qed

lemma cc_step_inv:
  assumes inv: "cc_inv oi0 s" and step: "cc_step a s = Some s'"
  shows "cc_inv oi0 s'"
proof -
  have threads: "threads_inv (cc_ring s)" using inv by (simp add: cc_inv_def)
  have popped_le: "n_popped (cc_ring s) \<le> c_view (cc_ring s)" using popped_before_view [OF threads] .
  show ?thesis
  proof (cases a)
    case (SendBegin cmd)
    with step inv_producer_step [OF inv, of "ProducerCall cmd"] show ?thesis by (auto simp: on_ring_Some split: if_splits)
  next
    case (SendLoad j)
    with step inv_producer_step [OF inv, of "ProducerLoadTail j"] show ?thesis by (auto simp: on_ring_Some)
  next
    case SendWrite
    with step inv_producer_step [OF inv, of ProducerWrite] show ?thesis by (auto simp: on_ring_Some)
  next
    case SendPublish
    with step obtain r where "ring_step ProducerPublish (cc_ring s) = Some r" "s' = s\<lparr>cc_ring := r, cc_due := True\<rparr>"
      by (auto simp: on_ring_def)
    with inv_producer_step [OF inv, of ProducerPublish] show ?thesis by (simp add: cc_inv_def)
  next
    case SendNotify
    with step inv show ?thesis by (auto simp: cc_inv_def split: if_splits)
  next
    case (WaitTest j)
    with step have at: "cc_place s \<in> {Top, Roused, Slept, Found}" and t: "cc_test j Tested Found s = Some s'"
      by (auto split: if_splits)
    show ?thesis
      by (rule inv_test [OF inv at t]) (use inv at popped_le in \<open>auto simp: cc_inv_def\<close>)
  next
    case WaitSleep
    with step inv show ?thesis by (auto simp: cc_inv_def split: if_splits)
  next
    case WaitRouse
    with step inv show ?thesis by (auto simp: cc_inv_def split: if_splits)
  next
    case (WaitTimeout j)
    with step have at: "cc_place s \<in> {Top, Roused, Slept, Found}" and t: "cc_test j (Fetched None) Found s = Some s'"
      by (auto split: if_splits)
    show ?thesis
      by (rule inv_test [OF inv at t]) (use inv at popped_le in \<open>auto simp: cc_inv_def\<close>)
  next
    case (WaitEmpty j)
    with step obtain s1 where found: "cc_place s = Found" and t: "cc_test j (Fetched None) Popping s = Some s1"
      and call: "(if cc_place s1 = Popping then on_ring ConsumerCall s1 else Some s1) = Some s'"
      by (auto split: if_splits bind_splits)
    note stays = found_stays [OF inv found t]
    with call obtain r where r: "ring_step ConsumerCall (cc_ring s\<lparr>c_view := j\<rparr>) = Some r"
      and s': "s' = s\<lparr>cc_ring := r, cc_place := Popping\<rparr>" by (auto simp: on_ring_Some)
    from r have "r = cc_ring s\<lparr>c_view := j, c_pc := CTest (last (tail_hist (cc_ring s)))\<rparr>"
      using stays(3) by (simp add: ring_step_def pop_step_def)
    with s' ring_step_inv [OF stays(2) r] inv found stays(4) show ?thesis by (auto simp: cc_inv_def)
  next
    case (PopLoad j)
    with step obtain r where pop: "cc_place s = Popping" and r: "ring_step (ConsumerLoadHead j) (cc_ring s) = Some r"
      and s': "s' = (if c_pc r = CIdle then s\<lparr>cc_ring := r, cc_place := Fetched None\<rparr> else s\<lparr>cc_ring := r\<rparr>)"
      by (auto simp: on_ring_def split: if_splits)
    with pop_load_finds [OF inv pop r] ring_step_inv [OF threads r] inv show ?thesis by (auto simp: cc_inv_def n_popped_def)
  next
    case PopRead
    with step obtain r where pop: "cc_place s = Popping" and r: "ring_step ConsumerRead (cc_ring s) = Some r"
      and s': "s' = s\<lparr>cc_ring := r\<rparr>" by (auto simp: on_ring_Some split: if_splits)
    have "\<not> ub r" using ring_step_inv [OF threads r] by (simp add: threads_inv_def)
    with r have "c_pc r \<noteq> CIdle" and "popped r = popped (cc_ring s)" and "tail_hist r = tail_hist (cc_ring s)"
      and "c_view r = c_view (cc_ring s)"
      by (auto simp: ring_step_def pop_step_def split: consumer_pc.splits option.splits)
    with s' ring_step_inv [OF threads r] inv pop show ?thesis by (auto simp: cc_inv_def n_popped_def)
  next
    case PopPublish
    with step obtain out nxt r where pop: "cc_place s = Popping" and pc: "c_pc (cc_ring s) = CPublish out nxt"
      and r: "ring_step ConsumerPublish (cc_ring s) = Some r" and s': "s' = s\<lparr>cc_ring := r, cc_place := Fetched (Some out)\<rparr>"
      by (auto simp: on_ring_def split: oi_place.splits consumer_pc.splits)
    from r pc have "popped r = popped (cc_ring s) @ [out]" and "c_pc r = CIdle"
      by (auto simp: ring_step_def pop_step_def)
    with s' ring_step_inv [OF threads r] inv pop show ?thesis by (auto simp: cc_inv_def)
  next
    case (Iterate t)
    with step obtain cmd where place: "cc_place s = Fetched cmd" and s': "s' = cc_iterate cmd t s"
      by (auto split: oi_place.splits)
    show ?thesis
    proof (cases "oi_iteration cmd t (cc_count s) (cc_oi s)")
      case None
      then have "int_max \<le> cc_count s" by (auto simp: oi_iteration_def Let_def int_succ_def split: if_splits option.splits)
      with None s' inv place show ?thesis by (auto simp: cc_iterate_def cc_inv_def)
    next
      case (Some res)
      obtain sends count oi where res: "res = (sends, count, oi)" by (metis prod_cases3)
      with Some have "count \<le> cc_count s + 1" using oi_iteration_state(2) by fastforce
      with Some res s' inv place oi_run_snoc [of "cc_inputs s" 0 oi0 "cc_sends s" "cc_count s" "cc_oi s" cmd t sends count oi]
      show ?thesis by (auto simp: cc_iterate_def cc_inv_def)
    qed
  qed
qed

lemma cc_exec_inv: "cc_inv oi0 s \<Longrightarrow> cc_exec as s = Some s' \<Longrightarrow> cc_inv oi0 s'"
proof (induction as arbitrary: s)
  case Nil
  then show ?case by simp
next
  case (Cons a as)
  from Cons.prems(2) obtain s1 where "cc_step a s = Some s1" and "cc_exec as s1 = Some s'"
    by (cases "cc_step a s") simp_all
  from Cons.IH [OF cc_step_inv [OF Cons.prems(1) this(1)] this(2)] show ?case .
qed

lemma cc_start_inv:
  assumes "oi_new alloc_ok = Inr oi"
  shows "cc_inv oi (cc_start oi)"
proof -
  from assms obtain b rb where init: "rb_init alloc_ok command_default 8 rb_new = Inr (b, rb)"
    and oi: "oi = \<lparr>oi_next = None, oi_directToProcessing = None, oi_cmdBuffer = rb,
      oi_pauseUntil = 0, oi_stressUntil = 0, oi_mode = Normal, oi_interval = 2000\<rparr>"
    by (auto simp: oi_new_def split: sum.splits)
  from init have b by (auto simp: rb_init_def split: if_splits option.splits)
  with init threads_inv_start [of alloc_ok command_default 8 rb_new rb] have "threads_inv (ring_start rb)" by simp
  moreover have "c_pc (ring_start rb) = CIdle" and "popped (ring_start rb) = []" by (simp_all add: ring_start_def)
  ultimately show ?thesis using oi by (simp add: cc_inv_def cc_start_def)
qed

subsection \<open>Properties\<close>

lemma cc_exec_append: "cc_exec as s = Some s1 \<Longrightarrow> cc_exec (as @ bs) s = cc_exec bs s1"
  by (induction as arbitrary: s) (simp_all del: cc_step.simps split: option.splits)

lemma inv_queue:
  assumes "cc_inv oi0 s"
  shows "pushed (cc_ring s) = commands_of (cc_inputs s) @ in_hand (cc_place s) @ rb_list (ring_object (cc_ring s))"
proof -
  from assms have threads: "threads_inv (cc_ring s)" by (simp add: cc_inv_def)
  then have "pushed (cc_ring s) = popped (cc_ring s) @ rb_list (ring_object (cc_ring s))"
    by (simp add: ring_object_list threads_inv_def inv_data_def)
  with assms show ?thesis by (simp add: cc_inv_def)
qed

lemma oi_iteration_total: "count < int_max \<Longrightarrow> \<exists>res. oi_iteration cmd t count oi = Some res"
  by (simp add: oi_iteration_def Let_def int_succ_def)

text \<open>
  Property C37 (refinement): under every schedule of the accesses, the observer does what its sequential run does
  on the commands it was handed; it is handed the accepted commands in the order of their \<open>push\<close>, each
  once; what it has not yet got is in the ring; the slots are never raced on, and the count of sent
  messages overflows only after more iterations than an \<open>int\<close> can count.
\<close>

theorem commands_applied_in_order:
  assumes "oi_new alloc_ok = Inr oi" and "cc_exec acts (cc_start oi) = Some s"
  shows "\<not> ub (cc_ring s) \<and>
    oi_run (cc_inputs s) 0 oi = Some (cc_sends s, cc_count s, cc_oi s) \<and>
    pushed (cc_ring s) = commands_of (cc_inputs s) @ in_hand (cc_place s) @ rb_list (ring_object (cc_ring s)) \<and>
    (cc_overflow s \<longrightarrow> int_max \<le> int (length (cc_inputs s)))"
proof -
  from cc_exec_inv [OF cc_start_inv [OF assms(1)] assms(2)] have inv: "cc_inv oi s" .
  with inv_queue show ?thesis by (simp add: cc_inv_def threads_inv_def)
qed

definition two_commands :: "cc_action list" where
  "two_commands = [WaitTest 0, SendBegin \<lparr>command_type = StressMode, durationSec = 0\<rparr>, WaitSleep, SendLoad 0, SendWrite,
     SendPublish, SendNotify, WaitTest 1, SendBegin \<lparr>command_type = SetNormalMode, durationSec = 0\<rparr>, WaitEmpty 1,
     SendLoad 0, PopLoad 1, SendWrite, PopRead, SendPublish, PopPublish, Iterate (readings_at 5)]"

text \<open>A schedule from the constructor of the observer, and what is true of the state it ends in.\<close>

definition cc_ends :: "cc_action list \<Rightarrow> (channel \<Rightarrow> bool) \<Rightarrow> bool" where
  "cc_ends acts P = (case oi_new (\<lambda>_. True) of
     Inl _ \<Rightarrow> False
   | Inr oi \<Rightarrow> (case cc_exec acts (cc_start oi) of None \<Rightarrow> False | Some s \<Rightarrow> P s))"

lemma cc_ends_obtain:
  assumes "cc_ends acts P"
  obtains oi s where "oi_new (\<lambda>_. True) = Inr oi" and "cc_exec acts (cc_start oi) = Some s" and "P s"
  using assms that by (auto simp: cc_ends_def split: sum.splits option.splits)

theorem commands_applied_in_order_witness:
  "\<exists>oi s. oi_new (\<lambda>_. True) = Inr oi \<and> cc_exec two_commands (cc_start oi) = Some s \<and>
     oi_mode (cc_oi s) = Stress \<and>
     pushed (cc_ring s) = \<lparr>command_type = StressMode, durationSec = 0\<rparr> # rb_list (ring_object (cc_ring s))"
proof -
  have "cc_ends two_commands (\<lambda>s. oi_mode (cc_oi s) = Stress \<and> cc_place s = Top \<and>
      commands_of (cc_inputs s) = [\<lparr>command_type = StressMode, durationSec = 0\<rparr>])" by code_simp
  then obtain oi s where new: "oi_new (\<lambda>_. True) = Inr oi" and run: "cc_exec two_commands (cc_start oi) = Some s"
    and end_state: "oi_mode (cc_oi s) = Stress" "cc_place s = Top"
      "commands_of (cc_inputs s) = [\<lparr>command_type = StressMode, durationSec = 0\<rparr>]"
    by (rule cc_ends_obtain) blast
  from commands_applied_in_order [OF new run] end_state new run show ?thesis by auto
qed

text \<open>
  Further property (safety): when the predicate of the wait has held, the \<open>empty()\<close> after the wait is false and
  \<open>pop\<close> succeeds, whatever older stores of the head the loads may return: the branch for a spurious
  wakeup is never taken, and a wait gives nothing only by its timeout.
\<close>

theorem found_command_is_popped:
  assumes "oi_new alloc_ok = Inr oi" and "cc_exec acts (cc_start oi) = Some s" and "cc_step a s = Some s'"
    and "a \<notin> range Iterate"
  shows "(cc_place s = Found \<longrightarrow> cc_place s' \<in> {Found, Popping}) \<and>
    (cc_place s = Popping \<longrightarrow> cc_place s' = Popping \<or> (\<exists>c. cc_place s' = Fetched (Some c)))"
proof -
  from cc_exec_inv [OF cc_start_inv [OF assms(1)] assms(2)] have inv: "cc_inv oi s" .
  show ?thesis
  proof (intro conjI impI)
    assume found: "cc_place s = Found"
    show "cc_place s' \<in> {Found, Popping}"
    proof (cases a)
      case (WaitEmpty j)
      with assms(3) found obtain s1 where t: "cc_test j (Fetched None) Popping s = Some s1"
        and call: "(if cc_place s1 = Popping then on_ring ConsumerCall s1 else Some s1) = Some s'"
        by (auto split: bind_splits)
      from found_stays(1) [OF inv found t] call show ?thesis by (auto simp: on_ring_Some)
    qed (use assms(3,4) found in \<open>auto simp: on_ring_def split: if_splits\<close>)
  next
    assume pop: "cc_place s = Popping"
    show "cc_place s' = Popping \<or> (\<exists>c. cc_place s' = Fetched (Some c))"
    proof (cases a)
      case (PopLoad j)
      with assms(3) pop_load_finds(1) [OF inv pop, of j] pop show ?thesis by (auto simp: on_ring_def)
    qed (use assms(3,4) pop in \<open>auto simp: on_ring_def split: if_splits consumer_pc.splits\<close>)
  qed
qed

definition command_found :: "cc_action list" where
  "command_found = [SendBegin \<lparr>command_type = StressMode, durationSec = 0\<rparr>, SendLoad 0, SendWrite, SendPublish, WaitTest 1]"

theorem found_command_is_popped_witness:
  "cc_ends (command_found @ [WaitEmpty 1]) (\<lambda>s. cc_place s = Popping)"
proof -
  have "cc_ends command_found (\<lambda>s. cc_place s = Found \<and> (case cc_step (WaitEmpty 1) s of None \<Rightarrow> False
      | Some s' \<Rightarrow> cc_place s' \<noteq> Found))" by code_simp
  then obtain oi s s' where new: "oi_new (\<lambda>_. True) = Inr oi" and run: "cc_exec command_found (cc_start oi) = Some s"
    and at: "cc_place s = Found" and step: "cc_step (WaitEmpty 1) s = Some s'" "cc_place s' \<noteq> Found"
    by (rule cc_ends_obtain) (auto simp del: cc_step.simps split: option.splits)
  from found_command_is_popped [OF new run step(1)] at step new show ?thesis
    by (auto simp: cc_ends_def cc_exec_append [OF run] simp del: cc_step.simps)
qed

lemma queued_command_popped:
  assumes inv: "cc_inv oi0 s" and slept: "cc_place s = Slept" and queue: "rb_list (ring_object (cc_ring s)) \<noteq> []"
    and n: "n = n_pushed (cc_ring s)"
  shows "\<exists>s1 out. cc_exec [WaitTimeout n, WaitEmpty n, PopLoad n, PopRead, PopPublish] s = Some s1 \<and>
    cc_place s1 = Fetched (Some out) \<and> pushed (cc_ring s1) = pushed (cc_ring s) \<and> cc_inputs s1 = cc_inputs s \<and>
    cc_count s1 = cc_count s \<and> cc_overflow s1 = cc_overflow s \<and> cc_oi s1 = cc_oi s"
proof -
  let ?r = "cc_ring s"
  from inv slept have threads: "threads_inv ?r" and idle: "c_pc ?r = CIdle" by (simp_all add: cc_inv_def)
  then have shape: "inv_shape ?r" and hist: "inv_hist ?r" and views: "inv_views ?r" and data: "inv_data ?r"
    by (simp_all add: threads_inv_def)
  from queue ring_object_list [OF threads] data have less: "n_popped ?r < n" by (simp add: inv_data_def n)
  have le: "c_view ?r \<le> n" and lt: "n < length (head_hist ?r)" using views hist_lengths [OF hist]
    by (simp_all add: inv_views_def n)
  have differ: "last (tail_hist ?r) \<noteq> head_hist ?r ! n" using sees_empty_iff [OF threads idle le lt] less by simp
  have "unat (last (tail_hist ?r)) < length (slots ?r)"
    using tail_last [OF hist] n_slots_pos [OF shape] by (simp add: n_slots_def)
  then show ?thesis using slept idle le lt differ
    by (simp add: cc_test_def on_ring_def sees_empty_def ring_step_def pop_step_def vec_get_def)
qed


definition command_waits :: "cc_action list" where
  "command_waits = [WaitTest 0, WaitSleep, SendBegin \<lparr>command_type = StressMode, durationSec = 0\<rparr>, SendLoad 0, SendWrite,
     SendPublish]"


end
