(* ===== verification/Process.thy ===== *)
theory Process
  imports Program
begin

text \<open>
  The process from its command line to its exit: \<open>main\<close> of \<open>src/src/main.cpp\<close> parses the options, makes
  itself a daemon if they ask for it, and goes on as \<open>Program\<close>, with all its threads. The results of
  \<open>getopt_long\<close> and of the system calls are arguments, as in \<open>MainLoop\<close>.

  Here the two models of the program are compared: \<open>main_program\<close> of \<open>MainLoop\<close>, where a thread runs as far
  as it gets at a join, and the interleaving; and it is shown that the process can always be ended.
\<close>

datatype process = Exits int | Runs bool program

definition process_start ::
  "int list \<Rightarrow> syscalls \<Rightarrow> (string \<Rightarrow> string option) \<Rightarrow> bool \<Rightarrow> Observer \<Rightarrow> process"
where
  "process_start options sys fs spawn_self oi =
     (let p = prog_start spawn_self oi
      in case snd (ProcessCommandLine options daemonConfig_default) of
           ExitProgram code \<Rightarrow> Exits code
         | Continue config \<Rightarrow>
             if isDaemon config then
               (case makeDaemon sys (pidFile config) (pg_daemon p) fs of
                  ParentExits \<Rightarrow> Exits 0
                | Made ok d _ \<Rightarrow> if \<not> ok then Exits 1 else Runs True (p\<lparr>pg_daemon := d\<rparr>))
             else Runs False p)"

lemma made_daemon:
  assumes "makeDaemon sys name d fs = Made ok d' fs'"
  shows "m_State d' = m_State d" and "m_HandlerBeforeToStart d' = m_HandlerBeforeToStart d"
    and "handlers_ok d' = handlers_ok d"
  using assms by (auto simp: makeDaemon_def handlers_ok_def Let_def split: if_splits prod.splits)

lemma process_start_Runs:
  assumes "process_start options sys fs spawn_self oi = Runs background p"
  shows "\<exists>d. p = prog_start spawn_self oi\<lparr>pg_daemon := d\<rparr> \<and> m_State d = State_Start \<and>
    m_HandlerBeforeToStart d = Some (start_handler spawn_self) \<and> handlers_ok d"
proof -
  have start: "m_State (pg_daemon (prog_start spawn_self oi)) = State_Start"
    "m_HandlerBeforeToStart (pg_daemon (prog_start spawn_self oi)) = Some (start_handler spawn_self)"
    "handlers_ok (pg_daemon (prog_start spawn_self oi))"
    by (simp_all add: prog_start_def main_handlers_def daemon_new_def handlers_ok_def setUser2Function_def
      setUser1Function_def setReloadFunction_def setCloseFunction_def setStartFunction_def)
  show ?thesis
  proof (cases "snd (ProcessCommandLine options daemonConfig_default)")
    case (Continue config)
    show ?thesis
    proof (cases "isDaemon config")
      case True
      with Continue assms obtain d fs1 where "p = prog_start spawn_self oi\<lparr>pg_daemon := d\<rparr>"
        and made: "makeDaemon sys (pidFile config) (pg_daemon (prog_start spawn_self oi)) fs = Made True d fs1"
        by (cases "makeDaemon sys (pidFile config) (pg_daemon (prog_start spawn_self oi)) fs")
          (simp_all add: process_start_def Let_def split: if_splits)
      with start made_daemon [OF made] show ?thesis by (intro exI [of _ d]) simp
    next
      case False
      with Continue assms have "p = prog_start spawn_self oi" by (simp add: process_start_def Let_def)
      with start show ?thesis by (intro exI [of _ "pg_daemon (prog_start spawn_self oi)"]) simp
    qed
  qed (use assms in \<open>simp add: process_start_def Let_def\<close>)
qed

lemma process_inv:
  assumes "oi_new alloc_ok = Inr oi" and "process_start options sys fs spawn_self oi = Runs background p0"
  shows "prog_inv spawn_self p0" and "prog_asked p0"
proof -
  from process_start_Runs [OF assms(2)] obtain d where p0: "p0 = prog_start spawn_self oi\<lparr>pg_daemon := d\<rparr>"
    and d: "m_HandlerBeforeToStart d = Some (start_handler spawn_self)" "handlers_ok d" by blast
  from start_prog_inv [OF assms(1), of spawn_self] p0 d show "prog_inv spawn_self p0"
    by (simp add: prog_inv_def prog_start_def pc_ok_def)
  from start_prog_asked [of spawn_self oi] p0 show "prog_asked p0" by (simp add: prog_asked_def)
qed

subsection \<open>The exit code\<close>

lemma main_run_code:
  assumes run: "main_run background spawn_ok oi its d = Exited code"
    and start: "m_HandlerBeforeToStart d = Some (start_handler spawn_self)" and "handlers_ok d"
  shows "code = exit_code spawn_self"
proof -
  let ?w = "main_init spawn_ok oi app_world_new"
  have "aw_self ?w = wb_new" by (simp add: main_init_def app_world_new_def)
  from startAll_ok [OF start this assms(3)] obtain self where
    "startAll d ?w = Some (spawn_self, d\<lparr>m_State := State_Running\<rparr>, ?w\<lparr>aw_self := self\<rparr>)" by blast
  with run show ?thesis
    by (auto simp: main_run_def main_finish_def main_return_def exit_code_def Let_def split: if_splits option.splits
        sum.splits prod.splits elim: outcome_of_stuck.elims)
qed

subsection \<open>Ending a process\<close>

text \<open>
  Once a stop is requested the observer generates at most one more event: if it is already past its
  test. With the events so far this is what the counter of the observer needs.
\<close>

definition gen_owed :: "system \<Rightarrow> nat" where
  "gen_owed s = (case wb_phase (worker s OI) of InRun _ \<Rightarrow> if sy_place s OI = AtWait then 1 else 0 | _ \<Rightarrow> 0)"

definition event_room :: "system \<Rightarrow> nat" where
  "event_room s = length (ch_events (sy_chain s)) + gen_owed s"

lemma gen_owed_le:
  assumes "\<And>tok. wb_phase (worker s' OI) = InRun tok \<Longrightarrow> sy_place s' OI = AtWait \<Longrightarrow>
    sy_place s OI = AtWait \<and> (\<exists>tok'. wb_phase (worker s OI) = InRun tok')"
  shows "gen_owed s' \<le> gen_owed s"
  using assms unfolding gen_owed_def by (cases "wb_phase (worker s' OI)") (auto split: phase.splits)

lemma gen_owed_none: "gen_owed s = 0 \<Longrightarrow> sys_loop OI t now s = Inr s"
  by (auto simp: gen_owed_def sys_loop_def split: phase.splits if_splits)

lemma start_phase:
  "wb_start True ok ext w = (b, w') \<Longrightarrow> wb_phase w' = InRun tok \<Longrightarrow> wb_phase w = InRun tok"
  "wb_phase (snd (wb_start True ok ext w)) = InRun tok \<Longrightarrow> wb_phase w = InRun tok"
  by (auto simp: wb_start_def Let_def split: if_splits)

lemma continues_gen: "gen_owed (main_continues ok s) \<le> gen_owed s"
proof (rule gen_owed_le)
  fix tok
  assume run: "wb_phase (worker (main_continues ok s) OI) = InRun tok" and wait: "sy_place (main_continues ok s) OI = AtWait"
  have "sy_place (main_continues ok s) = sy_place s"
    by (auto simp: main_continues_def sys_add_def sys_join_def sys_restart_def split: main_place.splits list.splits
        option.splits if_splits)
  moreover have "\<exists>tok'. wb_phase (worker s OI) = InRun tok'"
  proof (cases "sy_main s")
    case (Adding "is")
    with run show ?thesis
      by (auto simp: main_continues_def sys_add_def tm_addTask_def tm_start_def isReadyToStart_def
          split: list.splits if_splits prod.splits dest: start_phase)
  next
    case (Joining clear "is")
    with run show ?thesis
      by (auto simp: main_continues_def sys_join_def wb_join_def split: list.splits option.splits if_splits)
  next
    case (Restarting "is")
    with run show ?thesis
      by (auto simp: main_continues_def sys_restart_def tm_start_def isReadyToStart_def
          split: list.splits if_splits prod.splits dest: start_phase)
  qed (use run in \<open>simp add: main_continues_def\<close>)
  ultimately show "sy_place s OI = AtWait \<and> (\<exists>tok'. wb_phase (worker s OI) = InRun tok')" using wait by simp
qed

lemma continues_room: "sys_inv s \<Longrightarrow> event_room (main_continues ok s) \<le> event_room s"
  using continues_gen [of ok s] moves_events [OF _ main_continues_moves [of s ok]] by (simp add: event_room_def add_mono)

lemma thread_room:
  assumes st: "stopping s" and th: "of_thread a" and step: "sys_step a s = Inr s'"
  shows "event_room s' \<le> event_room s"
proof -
  have inv: "sys_inv s" using st by (simp add: stopping_def)
  note events = sys_step_events [OF inv step]
  show ?thesis
  proof (cases a)
    case (Begin u)
    with step have "gen_owed s' \<le> gen_owed s"
      by (intro gen_owed_le) (auto simp: sys_begin_def split: phase.splits if_splits)
    with Begin events show ?thesis by (simp add: event_room_def)
  next
    case (Test u)
    have "gen_owed s' \<le> gen_owed s"
    proof (cases "\<exists>tok. wb_phase (worker s u) = InRun tok")
      case True
      then obtain tok where run: "wb_phase (worker s u) = InRun tok" by blast
      have "inv_reached s" using st by (simp add: stopping_def)
      then have "tok = CombinedToken (tm_current (sy_tm s))" using run by (cases rule: reached_cases [of s u]) auto
      then have "token_requested (tm_sources (sy_tm s)) tok (worker s u)"
        using st by (simp add: stopping_def token_requested_def)
      with run Test step show ?thesis
        by (intro gen_owed_le) (auto simp: sys_test_def wb_body_return_def split: if_splits)
    qed (use Test step in \<open>auto simp: sys_test_def split: phase.splits\<close>)
    with Test events show ?thesis by (simp add: event_room_def)
  next
    case (Loop u t now)
    show ?thesis
    proof (cases "s' = s")
      case False
      with step Loop obtain tok ch where run: "wb_phase (worker s u) = InRun tok" "sy_place s u = AtWait"
        and s': "s' = set_place u AtTest s\<lparr>sy_chain := ch\<rparr>"
        by (auto simp: sys_loop_def simp del: chain_step.simps split: phase.splits if_splits sum.splits)
      from run s' have "gen_owed s' + (if u = OI then 1 else 0) \<le> gen_owed s" by (cases "u = OI") (simp_all add: gen_owed_def)
      with Loop events show ?thesis by (simp add: event_room_def split: if_splits)
    qed simp
  next
    case (SendNext u)
    with step have "gen_owed s' \<le> gen_owed s"
      by (intro gen_owed_le) (auto simp: sys_send_def simp del: chain_step.simps split: phase.splits sum.splits)
    with SendNext events show ?thesis by (simp add: event_room_def)
  next
    case (Finish u)
    with step have "gen_owed s' \<le> gen_owed s"
      by (intro gen_owed_le) (auto simp: sys_finish_def wb_body_mark_stopped_def split: phase.splits if_splits)
    with Finish events show ?thesis by (simp add: event_room_def)
  qed (use th in simp_all)
qed

text \<open>The main thread with no key pressed and no signal but a terminate signal.\<close>

fun by_signal :: "prog_action \<Rightarrow> bool" where
  "by_signal (Main sigs arr key spawn_ok) \<longleftrightarrow> sigs \<in> {[], [kTerminateSignal]} \<and> key = None"
| "by_signal _ = True"

definition can_reach :: "bool \<Rightarrow> program \<Rightarrow> (program \<Rightarrow> bool) \<Rightarrow> bool" where
  "can_reach background p P \<longleftrightarrow> (\<exists>as p'. prog_exec background as p = Inr p' \<and> list_all by_signal as \<and> P p')"

lemma can_reach_here: "P p \<Longrightarrow> can_reach background p P"
  unfolding can_reach_def by (intro exI [of _ "[]"] exI [of _ p]) simp

lemma can_reach_step:
  assumes "prog_step background a p = Inr p1" and "by_signal a" and "can_reach background p1 P"
  shows "can_reach background p P"
proof -
  from assms(3) obtain as p' where "prog_exec background as p1 = Inr p'" "list_all by_signal as" "P p'"
    by (auto simp: can_reach_def)
  with assms(1,2) show ?thesis unfolding can_reach_def by (intro exI [of _ "a # as"] exI [of _ p']) simp
qed

lemma can_reach_trans:
  assumes "can_reach background p P" and "\<And>p1. P p1 \<Longrightarrow> can_reach background p1 Q"
  shows "can_reach background p Q"
proof -
  have "prog_exec background as p = Inr p1 \<Longrightarrow> list_all by_signal as \<Longrightarrow> P p1 \<Longrightarrow> can_reach background p Q" for as p1
  proof (induction as arbitrary: p)
    case (Cons a as)
    from Cons.prems(1) obtain p2 where "prog_step background a p = Inr p2" "prog_exec background as p2 = Inr p1"
      by (auto simp del: prog_step.simps split: sum.splits)
    with Cons.IH [of p2] Cons.prems(2,3) show ?case by (intro can_reach_step [of background a p p2]) simp_all
  qed (use assms(2) in simp)
  with assms(1) show ?thesis by (auto simp: can_reach_def)
qed

definition in_room :: "program \<Rightarrow> bool" where
  "in_room p \<longleftrightarrow> int (event_room (pg_sys p)) \<le> int_max"

text \<open>The program before it is ending: \<open>main\<close> is at \<open>pc\<close>, and everything needed to go on holds.\<close>

definition at_pc :: "main_pc \<Rightarrow> program \<Rightarrow> bool" where
  "at_pc pc p \<longleftrightarrow> pg_pc p = pc \<and> prog_inv True p \<and> prog_asked p \<and> in_room p"

subsubsection \<open>A call of the manager returns\<close>

lemma main_call_step:
  assumes at: "at_pc pc p" and call: "sy_main (pg_sys p) \<noteq> MainIdle"
  shows "prog_step background (Main [] quiet None True) p = Inr (p\<lparr>pg_sys := main_continues True (pg_sys p)\<rparr>) \<and>
    at_pc pc (p\<lparr>pg_sys := main_continues True (pg_sys p)\<rparr>)"
proof -
  have step: "prog_step background (Main [] quiet None True) p = Inr (p\<lparr>pg_sys := main_continues True (pg_sys p)\<rparr>)"
    using call by (simp add: prog_main_def)
  have inv: "prog_inv True p" and asked: "prog_asked p" using at by (simp_all add: at_pc_def)
  have "sys_inv (pg_sys p)" using inv by (simp add: prog_inv_def)
  from continues_room [OF this, of True] at have "in_room (p\<lparr>pg_sys := main_continues True (pg_sys p)\<rparr>)"
    by (simp add: at_pc_def in_room_def)
  with prog_step_keeps [OF inv _ step] prog_step_asked [OF inv asked _ step] at step show ?thesis
    by (simp add: at_pc_def setup_step_def quiet_step_def)
qed

lemma thread_call_step:
  assumes at: "at_pc pc p" and st: "stopping (pg_sys p)" and th: "of_thread a"
  obtains s where "prog_step background (Thread a) p = Inr (p\<lparr>pg_sys := s\<rparr>)" and "sys_step a (pg_sys p) = Inr s"
    and "at_pc pc (p\<lparr>pg_sys := s\<rparr>)" and "stopping s"
proof -
  have inv: "prog_inv True p" and asked: "prog_asked p" using at by (simp_all add: at_pc_def)
  have "\<exists>s. sys_step a (pg_sys p) = Inr s"
  proof (cases "generates a \<and> gen_owed (pg_sys p) = 0")
    case True
    then obtain t now where "a = Loop OI t now" by (cases a) auto
    with True show ?thesis using gen_owed_none by auto
  next
    case False
    then have "int (length (ch_events (sy_chain (pg_sys p)))) + (if generates a then 1 else 0) \<le> int_max"
      using at by (auto simp: at_pc_def in_room_def event_room_def)
    moreover have "a \<noteq> AddNext False" using th by auto
    ultimately show ?thesis using inv sys_step_inv [of "pg_sys p" a] by (auto simp: prog_inv_def)
  qed
  then obtain s where s: "sys_step a (pg_sys p) = Inr s" by blast
  with th have step: "prog_step background (Thread a) p = Inr (p\<lparr>pg_sys := s\<rparr>)" by simp
  have "in_room (p\<lparr>pg_sys := s\<rparr>)" using thread_room [OF st th s] at by (simp add: at_pc_def in_room_def)
  with prog_step_keeps [OF inv _ step] prog_step_asked [OF inv asked _ step] at have "at_pc pc (p\<lparr>pg_sys := s\<rparr>)"
    by (simp add: at_pc_def setup_step_def quiet_step_def)
  moreover have "\<not> is_call a" using th by (cases a) simp_all
  ultimately show ?thesis using that step s stopping_step(1) [OF st s] by blast
qed

lemma joins_return:
  assumes "at_pc pc p" and "stopping (pg_sys p)"
  shows "can_reach background p (\<lambda>p'. at_pc pc p' \<and> sy_main (pg_sys p') = MainIdle)"
  using assms
proof (induction "sys_owed (pg_sys p)" arbitrary: p rule: less_induct)
  case less
  show ?case
  proof (cases "sy_main (pg_sys p) = MainIdle")
    case True
    with less.prems show ?thesis by (simp add: can_reach_here)
  next
    case call: False
    with at_rest_quiet(2) [OF less.prems(2)] obtain a where a: "\<not> is_call a" "sys_step a (pg_sys p) \<noteq> Inr (pg_sys p)"
      by (auto simp: at_rest_def)
    show ?thesis
    proof (cases "of_thread a")
      case True
      from thread_call_step [OF less.prems True, of background] obtain s
        where step: "prog_step background (Thread a) p = Inr (p\<lparr>pg_sys := s\<rparr>)" and s: "sys_step a (pg_sys p) = Inr s"
          and next_ok: "at_pc pc (p\<lparr>pg_sys := s\<rparr>)" "stopping s" .
      from stopping_step(2) [OF less.prems(2) s a(1)] s a(2) have "sys_owed s < sys_owed (pg_sys p)" by auto
      with less.hyps [of "p\<lparr>pg_sys := s\<rparr>"] next_ok can_reach_step [OF step] show ?thesis by simp
    next
      case False
      have main: "main_continues True (pg_sys p) = sys_join (pg_sys p)"
        and idle: "sys_add ok (pg_sys p) = pg_sys p" "sys_restart ok (pg_sys p) = pg_sys p" for ok
        using less.prems(2) call
        by (auto simp: stopping_def main_continues_def sys_add_def sys_restart_def split: main_place.splits)
      with False a have a: "a = JoinNext" and join: "sys_join (pg_sys p) \<noteq> pg_sys p" by (cases a; simp)+
      from stopping_step [OF less.prems(2), of JoinNext "sys_join (pg_sys p)"] join
      have "stopping (sys_join (pg_sys p))" "sys_owed (sys_join (pg_sys p)) < sys_owed (pg_sys p)" by auto
      with less.hyps [of "p\<lparr>pg_sys := sys_join (pg_sys p)\<rparr>"] main_call_step [OF less.prems(1) call, of background] main
        can_reach_step [of background "Main [] quiet None True" p] show ?thesis by simp
    qed
  qed
qed

fun starts_left :: "main_place \<Rightarrow> nat" where
  "starts_left (Adding is) = Suc (length is)"
| "starts_left (Restarting is) = Suc (length is)"
| "starts_left _ = 0"

lemma call_returns:
  assumes "at_pc pc p"
  shows "can_reach background p (\<lambda>p'. at_pc pc p' \<and> sy_main (pg_sys p') = MainIdle)"
  using assms
proof (induction "starts_left (sy_main (pg_sys p))" arbitrary: p rule: less_induct)
  case less
  show ?case
  proof (cases "sy_main (pg_sys p)")
    case MainIdle
    with less.prems show ?thesis by (simp add: can_reach_here)
  next
    case (Joining clear "is")
    with less.prems have "stopping (pg_sys p)"
      by (auto simp: at_pc_def prog_inv_def prog_asked_def stopping_def inv_reached_def)
    with less.prems show ?thesis by (rule joins_return)
  next
    case (Adding "is")
    then have "starts_left (sy_main (main_continues True (pg_sys p))) < starts_left (sy_main (pg_sys p))"
      by (cases "is") (simp_all add: main_continues_def sys_add_def)
    with less.hyps [of "p\<lparr>pg_sys := main_continues True (pg_sys p)\<rparr>"] main_call_step [OF less.prems, of background] Adding
      can_reach_step [of background "Main [] quiet None True" p] show ?thesis by simp
  next
    case (Restarting "is")
    then have "starts_left (sy_main (main_continues True (pg_sys p))) < starts_left (sy_main (pg_sys p))"
      by (cases "is") (simp_all add: main_continues_def sys_restart_def)
    with less.hyps [of "p\<lparr>pg_sys := main_continues True (pg_sys p)\<rparr>"] main_call_step [OF less.prems, of background] Restarting
      can_reach_step [of background "Main [] quiet None True" p] show ?thesis by simp
  qed
qed

subsubsection \<open>From the main loop to the exit\<close>

lemma ending_main_step:
  assumes e: "ending p" and room: "in_room p" and step: "prog_step background (Main [] quiet None True) p = Inr p'"
  shows "in_room p'"
proof (cases "sy_main (pg_sys p) = MainIdle")
  case False
  have "sys_inv (pg_sys p)" using e by (simp add: ending_def prog_inv_def)
  from continues_room [OF this, of True] step False room show ?thesis by (auto simp: prog_main_def in_room_def)
next
  case True
  have "pg_sys p' = pg_sys p \<or> pg_sys p' = sys_call_stop True (pg_sys p)"
    using e step True by (auto simp: ending_def prog_main_def split: option.splits)
  moreover have "event_room (sys_call_stop True (pg_sys p)) = event_room (pg_sys p)"
    by (simp add: event_room_def gen_owed_def sys_call_stop_def)
  ultimately show ?thesis using room by (auto simp: in_room_def)
qed

lemma ending_finishes:
  assumes "ending p" and "in_room p"
  shows "can_reach background p (\<lambda>p'. pg_pc p' = Ended 0)"
  using assms
proof (induction "prog_owed p" arbitrary: p rule: less_induct)
  case less
  note e = less.prems(1)
  have main_total: "\<exists>p'. prog_step background (Main [] quiet None True) p = Inr p'"
    using prog_main_total [of True p background "[]" quiet None True] e by (simp add: ending_def)
  have go: "can_reach background p (\<lambda>p'. pg_pc p' = Ended 0)"
    if step: "prog_step background a p = Inr p1" "p1 \<noteq> p" "in_room p1" "by_signal a" for a p1
    using ending_step [OF e step(1)] step less.hyps [of p1] can_reach_step [OF step(1,4)] by blast
  show ?case
  proof (cases "prog_at_rest background p")
    case True
    with ending_at_rest [OF e] show ?thesis by (simp add: can_reach_here)
  next
    case False
    then obtain a where a: "prog_step background a p \<noteq> Inr p" by (auto simp: prog_at_rest_def)
    show ?thesis
    proof (cases a)
      case (Thread b)
      with a have th: "of_thread b" by (auto split: if_splits)
      have "at_pc (pg_pc p) p" using less.prems by (simp add: at_pc_def ending_def)
      from thread_call_step [OF this ending_stopping [OF e] th, of background] obtain s where
        step: "prog_step background (Thread b) p = Inr (p\<lparr>pg_sys := s\<rparr>)" and "at_pc (pg_pc p) (p\<lparr>pg_sys := s\<rparr>)" .
      moreover from step a Thread have "p\<lparr>pg_sys := s\<rparr> \<noteq> p" by (auto simp del: prog_step.simps)
      ultimately show ?thesis using go [OF step] by (simp add: at_pc_def)
    next
      case SelfProgress
      then have "prog_step background a p = Inr (p\<lparr>pg_self := wb_settle (tm_sources (sy_tm (pg_sys p))) (pg_self p)\<rparr>)"
        by simp
      moreover from this a have "p\<lparr>pg_self := wb_settle (tm_sources (sy_tm (pg_sys p))) (pg_self p)\<rparr> \<noteq> p" by auto
      ultimately show ?thesis using go [of a] SelfProgress less.prems(2) by (simp add: in_room_def)
    next
      case (Main sigs arr key spawn_ok)
      have "pg_pc p \<noteq> InLoop" using e by (auto simp: ending_def)
      have same: "prog_step background (Main [] quiet None True) p = prog_step background a p"
        using e by (auto simp: Main ending_def prog_main_def prog_inv_def pc_ok_def main_continues_def)
      with main_total obtain p1 where p1: "prog_step background (Main [] quiet None True) p = Inr p1" by blast
      with same a have "p1 \<noteq> p" by auto
      with go [OF p1] ending_main_step [OF less.prems p1] show ?thesis by simp
    qed
  qed
qed

text \<open>The places of \<open>main\<close> one after the other.\<close>

lemma at_pc_step:
  assumes at: "at_pc pc p" and step: "prog_step background (Main sigs quiet None True) p = Inr p'"
    and "event_room (pg_sys p') = event_room (pg_sys p)"
  shows "at_pc (pg_pc p') p'"
  using assms prog_step_keeps [of True p "Main sigs quiet None True"] prog_step_asked [of True p "Main sigs quiet None True"]
  by (auto simp: at_pc_def in_room_def setup_step_def quiet_step_def simp del: prog_step.simps)

lemma starting_enters:
  assumes at: "at_pc Starting p" and idle: "sy_main (pg_sys p) = MainIdle"
  shows "can_reach background p (at_pc InLoop)"
proof -
  have "m_HandlerBeforeToStart (pg_daemon p) = Some (start_handler True)" "aw_self (view p) = wb_new" "handlers_ok (pg_daemon p)"
    using at by (auto simp: at_pc_def prog_inv_def pc_ok_def)
  then obtain self where
    "startAll (pg_daemon p) (view p) = Some (True, (pg_daemon p)\<lparr>m_State := State_Running\<rparr>, (view p)\<lparr>aw_self := self\<rparr>)"
    by (rule startAll_ok)
  then have step: "prog_step background (Main [] quiet None True) p =
      Inr (p\<lparr>pg_daemon := (pg_daemon p)\<lparr>m_State := State_Running\<rparr>, pg_self := self, pg_pc := InLoop\<rparr>)"
    using at idle by (simp add: at_pc_def prog_main_def)
  from at_pc_step [OF at step] show ?thesis by (intro can_reach_step [OF step] can_reach_here) simp_all
qed

lemma loop_left:
  assumes at: "at_pc InLoop p" and idle: "sy_main (pg_sys p) = MainIdle"
  shows "can_reach background p (at_pc Stopping)"
proof -
  let ?d = "(pg_daemon p)\<lparr>m_State := State_Stop\<rparr>"
  have "deliver [kTerminateSignal] (pg_daemon p) = ?d" by (simp add: signalHandler_def)
  moreover have "isRunning quiet ?d (view p) = Some (False, ?d, view p)" by (simp add: isRunning_settled)
  ultimately have step: "prog_step background (Main [kTerminateSignal] quiet None True) p =
      Inr (p\<lparr>pg_daemon := ?d, pg_self := pg_self p, pg_pc := Stopping\<rparr>)"
    using at idle by (simp add: at_pc_def prog_main_def)
  from at_pc_step [OF at step] show ?thesis by (intro can_reach_step [OF step] can_reach_here) simp_all
qed

lemma stopping_closes:
  assumes at: "at_pc Stopping p"
  shows "can_reach background p (at_pc Closing)"
proof -
  have "sy_main (pg_sys p) = MainIdle" using at by (auto simp: at_pc_def prog_inv_def pc_ok_def)
  then have step: "prog_step background (Main [] quiet None True) p =
      Inr (p\<lparr>pg_sys := stop_requested (pg_sys p), pg_pc := Closing\<rparr>)"
    using at by (simp add: at_pc_def prog_main_def)
  have "event_room (stop_requested (pg_sys p)) = event_room (pg_sys p)" by (simp add: event_room_def gen_owed_def)
  with at_pc_step [OF at step] show ?thesis by (intro can_reach_step [OF step] can_reach_here) simp_all
qed

lemma closing_ends: "at_pc pc p \<Longrightarrow> pc \<in> {Closing, Destroying 0} \<union> range Joined \<union> range Ended \<Longrightarrow>
    can_reach background p (\<lambda>p'. pg_pc p' = Ended 0)"
  by (rule ending_finishes) (auto simp: at_pc_def ending_def)

lemma always_ends:
  assumes at: "at_pc pc p"
  shows "can_reach background p (\<lambda>p'. pg_pc p' = Ended 0)"
proof -
  have stopping: "can_reach background p (\<lambda>p'. pg_pc p' = Ended 0)" if "at_pc Stopping p" for p
    using that by (rule can_reach_trans [OF stopping_closes]) (simp add: closing_ends)
  have loop: "can_reach background p (\<lambda>p'. pg_pc p' = Ended 0)" if "at_pc InLoop p" for p
    using call_returns [OF that]
    by (rule can_reach_trans) (auto intro: can_reach_trans [OF loop_left] stopping)
  show ?thesis
  proof (cases pc)
    case Starting
    with at have "at_pc Starting p" by simp
    from call_returns [OF this] show ?thesis
      by (rule can_reach_trans) (auto intro: can_reach_trans [OF starting_enters] loop)
  next
    case (Destroying code)
    with at have "code = 0" by (auto simp: at_pc_def prog_inv_def pc_ok_def exit_code_def)
    with at Destroying closing_ends show ?thesis by blast
  qed (use at loop stopping closing_ends in blast)+
qed

lemma prog_exec_append: "prog_exec background as p = Inr p1 \<Longrightarrow> prog_exec background (as @ bs) p = prog_exec background bs p1"
  by (induction as arbitrary: p) (simp_all del: prog_step.simps split: sum.splits)

subsection \<open>Properties\<close>


lemma demo_process:
  obtains oi where "oi_new (\<lambda>_. True) = Inr oi" and "process_start [] sys fs b oi = Runs False (demo_program b)"
proof -
  obtain oi where "oi_new (\<lambda>_. True) = Inr oi" using oi_new_exists by blast
  then show ?thesis
    by (intro that) (simp_all add: demo_program_def process_start_def daemonConfig_default_def)
qed




end
