(* ===== verification/ThreadLog.thy ===== *)
theory ThreadLog
  imports Output System
begin

text \<open>
  The lines that the threads of \<open>src/include/testThreads.hpp\<close> print: for each iteration of a \<open>run\<close> loop the
  calls of \<open>safe_print\<close> and \<open>printMemoryUsage\<close> that it makes, each as the list of its arguments in text
  form, collected along the schedules of \<open>System\<close>.

  \<^item> The wall clock and the status file an iteration reads are arguments (\<open>surroundings\<close>); \<open>None\<close> is a
    number in the status file that \<open>sscanf\<close> has no defined value for, or a fault of the iteration.
  \<^item> The source is UTF-8. A \<open>double\<close> in the default format is modelled where it is whole and below a
    million, so that it has no fraction and no exponent; the theorems show that no other is printed.
  \<^item> Readers (\<open>read_event\<close>, \<open>read_result\<close>) turn a line back into what it reports. They say what a log
    file can be trusted for: which lines it has, in which order, and that nothing in it is cut or mixed.
\<close>

subsection \<open>What an iteration prints\<close>

definition right_arrow :: string where "right_arrow = [CHR 0xE2, CHR 0x86, CHR 0x92]"
definition micro_sign :: string where "micro_sign = [CHR 0xC2, CHR 0xB5]"

definition double_text :: "rat \<Rightarrow> string option" where
  "double_text x =
     (if of_int \<lfloor>x\<rfloor> = x \<and> \<bar>x\<bar> < 1000000 then Some (decimal_int \<lfloor>x\<rfloor>) else None)"

text \<open>\<open>printMemoryUsage\<close> takes the mutex of \<open>safe_print\<close>: its text is one more such call.\<close>

definition memory_args :: "string \<Rightarrow> string \<Rightarrow> string list option" where
  "memory_args label statusFile =
     (case read_status (getlines [] statusFile) (-1, -1) of
        None \<Rightarrow> None
      | Some (vmSize, vmRSS) \<Rightarrow>
          Some [''[MEMORY] '', left_padded 25 label, '' | VmSize: '', left_padded 8 (decimal_int vmSize), '' kB'',
            '' | VmRSS: '', left_padded 8 (decimal_int vmRSS), '' kB''])"

lemma memory_args_line:
  "printMemoryUsage label statusFile = map_option (\<lambda>args. printed_line (t, args)) (memory_args label statusFile)"
  by (simp add: printMemoryUsage_def memory_args_def memory_line_def printed_line_def split: option.split)

definition applyCommand_prints :: "ObserverCommand \<Rightarrow> string list" where
  "applyCommand_prints cmd = (case command_type cmd of
     StopObserving \<Rightarrow> [''[OI] pause '', decimal_int (durationSec cmd), ''s'']
   | StartObserving \<Rightarrow> [''[OI] resume in '', decimal_int (durationSec cmd), ''s'']
   | StressMode \<Rightarrow> [''[OI] '' @ right_arrow @ '' STRESS  (10ms / 30s)'']
   | SetNormalMode \<Rightarrow> [''[OI] '' @ right_arrow @ '' normal  (500ms)''])"

definition leaveStress_prints :: "string \<Rightarrow> int \<Rightarrow> Observer \<Rightarrow> string list list option" where
  "leaveStress_prints statusFile now oi =
     (if oi_mode oi = Stress \<and> now \<ge> oi_stressUntil oi
      then map_option (\<lambda>memory. [memory, [''[OI] '' @ right_arrow @ '' normal  (2s, stress ended)'']])
             (memory_args ''After Stress (Auto)'' statusFile)
      else Some [])"

definition event_args :: "string \<Rightarrow> int \<Rightarrow> Observer \<Rightarrow> string list" where
  "event_args stamp count oi = [stamp, ''  [OI] #'', decimal_int count, ''  ['', oi_modeLabel oi, ''/'',
     decimal_int (oi_interval oi), ''ms]'']"

record surroundings =
  wall_clock :: int
  status_text :: string

definition oi_prints ::
  "(int \<Rightarrow> int \<times> int \<times> int) \<Rightarrow> surroundings \<Rightarrow> ObserverCommand option \<Rightarrow> readings \<Rightarrow> int \<Rightarrow> Observer \<Rightarrow>
     string list list option"
where
  "oi_prints localtime e cmd t count oi =
     (let commands = (case cmd of None \<Rightarrow> [] | Some c \<Rightarrow> [applyCommand_prints c]);
          oi = (case cmd of None \<Rightarrow> oi | Some c \<Rightarrow> oi_applyCommand (at_command t) c oi)
      in case leaveStress_prints (status_text e) (at_stress t) oi of
           None \<Rightarrow> None
         | Some ended \<Rightarrow>
             let oi = oi_leaveStress (at_stress t) oi
             in if at_pause t < oi_pauseUntil oi then Some (commands @ ended)
                else (case int_succ count of
                        None \<Rightarrow> None
                      | Some count \<Rightarrow> Some (commands @ ended @
                          [event_args (currentTimestamp localtime (wall_clock e)) count oi])))"

definition result_args :: "string \<Rightarrow> string \<Rightarrow> string \<Rightarrow> int \<Rightarrow> string list" where
  "result_args stamp name val chainUs = [stamp, ''  [RT] done: '', name, ''  val='', val, ''  chain='',
     decimal_int chainUs, micro_sign @ ''s'']"

definition rt_prints ::
  "(int \<Rightarrow> int \<times> int \<times> int) \<Rightarrow> surroundings \<Rightarrow> payload option \<Rightarrow> int \<Rightarrow> string list list option"
where
  "rt_prints localtime e msg recvTime = (case rt_iteration msg recvTime of
     None \<Rightarrow> Some []
   | Some (name, val, chainUs) \<Rightarrow>
       (case double_text val of
          None \<Rightarrow> None
        | Some text \<Rightarrow> Some [result_args (currentTimestamp localtime (wall_clock e)) name text chainUs]))"

subsection \<open>What a schedule prints\<close>

text \<open>The other three threads never print.\<close>

definition chain_prints ::
  "(int \<Rightarrow> int \<times> int \<times> int) \<Rightarrow> surroundings \<Rightarrow> chain_action \<Rightarrow> chain \<Rightarrow> string list list option"
where
  "chain_prints localtime e a s = (case a of
     Tick t \<Rightarrow>
       if ch_outbox s OI \<noteq> [] then Some []
       else (case rb_pop (oi_cmdBuffer (ch_oi s)) of
               Inl _ \<Rightarrow> None
             | Inr (cmd, rb) \<Rightarrow> oi_prints localtime e cmd t (ch_count s) (ch_oi s\<lparr>oi_cmdBuffer := rb\<rparr>))
   | Take u now \<Rightarrow>
       if u \<noteq> RT \<or> ch_outbox s u \<noteq> [] then Some []
       else (case sw_queues (ch_world s) u of
               None \<Rightarrow> None
             | Some mq \<Rightarrow> rt_prints localtime e (fst (mq_pop mq)) now)
   | _ \<Rightarrow> Some [])"

definition sys_prints ::
  "(int \<Rightarrow> int \<times> int \<times> int) \<Rightarrow> surroundings \<Rightarrow> sys_action \<Rightarrow> system \<Rightarrow> (nat \<times> string list) list option"
where
  "sys_prints localtime e a s = (case a of
     Loop u t now \<Rightarrow>
       (case wb_phase (worker s u) of
          InRun _ \<Rightarrow>
            if sy_place s u = AtWait
            then map_option (map (Pair (thread_number u)))
                   (chain_prints localtime e (if u = OI then Tick t else Take u now) (sy_chain s))
            else Some []
        | _ \<Rightarrow> Some [])
   | _ \<Rightarrow> Some [])"

fun sys_log ::
  "(int \<Rightarrow> int \<times> int \<times> int) \<Rightarrow> (sys_action \<times> surroundings) list \<Rightarrow> system \<Rightarrow> (nat \<times> string list) list option"
where
  "sys_log localtime [] s = Some []"
| "sys_log localtime ((a, e) # es) s =
     (case (sys_prints localtime e a s, sys_step a s) of
        (Some calls, Inr s') \<Rightarrow> map_option ((@) calls) (sys_log localtime es s')
      | _ \<Rightarrow> None)"

subsection \<open>Reading a log\<close>

fun expect :: "string \<Rightarrow> string \<Rightarrow> string option" where
  "expect [] s = Some s"
| "expect (c # cs) (d # ds) = (if c = d then expect cs ds else None)"
| "expect (c # cs) [] = None"

definition no_blank :: "char \<Rightarrow> bool" where
  "no_blank c \<longleftrightarrow> c \<noteq> CHR '' ''"

definition read_int :: "string \<Rightarrow> int" where
  "read_int s = (if s \<noteq> [] \<and> hd s = CHR ''-'' then - int (parse_decimal (tl s)) else int (parse_decimal s))"

definition number_char :: "char \<Rightarrow> bool" where
  "number_char c \<longleftrightarrow> is_digit c \<or> c = CHR ''-''"

definition read_event :: "string \<Rightarrow> (int \<times> string \<times> int) option" where
  "read_event line = (case expect ''  [OI] #'' (dropWhile no_blank line) of
     None \<Rightarrow> None
   | Some s \<Rightarrow> (case expect ''  ['' (dropWhile no_blank s) of
       None \<Rightarrow> None
     | Some s' \<Rightarrow> (case expect ''/'' (dropWhile (\<lambda>c. c \<noteq> CHR ''/'') s') of
         None \<Rightarrow> None
       | Some s'' \<Rightarrow>
           if dropWhile number_char s'' = ''ms]''
           then Some (read_int (takeWhile no_blank s), takeWhile (\<lambda>c. c \<noteq> CHR ''/'') s',
             read_int (takeWhile number_char s''))
           else None)))"

definition read_result :: "string \<Rightarrow> (string \<times> int \<times> int) option" where
  "read_result line = (case expect ''  [RT] done: '' (dropWhile no_blank line) of
     None \<Rightarrow> None
   | Some s \<Rightarrow> (case expect ''  val='' (dropWhile no_blank s) of
       None \<Rightarrow> None
     | Some s' \<Rightarrow> (case expect ''  chain='' (dropWhile no_blank s') of
         None \<Rightarrow> None
       | Some s'' \<Rightarrow>
           if dropWhile number_char s'' = micro_sign @ ''s''
           then Some (takeWhile no_blank s, read_int (takeWhile no_blank s'), read_int (takeWhile number_char s''))
           else None)))"

definition read_events :: "string \<Rightarrow> (int \<times> string \<times> int) list" where
  "read_events text = List.map_filter read_event (getlines [] text)"

definition read_results :: "string \<Rightarrow> (string \<times> int \<times> int) list" where
  "read_results text = List.map_filter read_result (getlines [] text)"


subsection \<open>Each line is read as what it is\<close>

lemma read_int_decimal [simp]: "read_int (decimal_int i) = i"
proof (cases "i < 0")
  case False
  have "hd (decimal (nat i)) \<noteq> CHR ''-''" using decimal_no_minus [of "nat i"] by (metis decimal_nonempty hd_in_set)
  with False show ?thesis by (simp add: read_int_def decimal_int_def parse_decimal_inverse)
qed (simp add: read_int_def decimal_int_def parse_decimal_inverse)

lemma decimal_int_chars: "c \<in> set (decimal_int i) \<Longrightarrow> number_char c"
  using decimal_digits by (auto simp: decimal_int_def number_char_def list_all_iff split: if_splits)

lemma number_char_no_blank [simp]: "number_char c \<Longrightarrow> no_blank c" "number_char c \<Longrightarrow> c \<noteq> newline"
  by (auto simp: number_char_def no_blank_def is_digit_def newline_def)

text \<open>What can stand where the readers look for the next blank, and what a line may consist of.\<close>

definition no_gap :: "string \<Rightarrow> bool" where
  "no_gap s \<longleftrightarrow> (\<forall>c \<in> set s. no_blank c \<and> c \<noteq> newline)"

lemma no_gap_decimal_int [simp]: "no_gap (decimal_int i)"
  using decimal_int_chars by (auto simp: no_gap_def)

lemma no_gap_decimal [simp]: "no_gap (decimal n)"
  using no_gap_decimal_int [of "int n"] by (simp add: decimal_int_def)

lemma no_gap_append [simp]: "no_gap (s @ t) \<longleftrightarrow> no_gap s \<and> no_gap t"
  by (auto simp: no_gap_def)

lemma no_gap_Cons [simp]: "no_gap (c # s) \<longleftrightarrow> no_blank c \<and> c \<noteq> newline \<and> no_gap s"
  by (auto simp: no_gap_def)

lemma no_gap_Nil [simp]: "no_gap []"
  by (simp add: no_gap_def)

lemma no_gap_stamp [simp]: "no_gap (currentTimestamp localtime now)"
proof -
  have "no_gap (replicate k (CHR ''0''))" for k by (simp add: no_gap_def no_blank_def newline_def)
  then have zero: "no_gap (zero_padded w i)" for w i
    by (simp add: zero_padded_def) (simp add: no_blank_def newline_def)
  have "no_gap (snprintf n s)" if "no_gap s" for n s
    using that by (auto simp: snprintf_def no_gap_def dest: in_set_takeD)
  with zero show ?thesis
    by (simp add: currentTimestamp_def Let_def no_blank_def newline_def split: prod.split)
qed

lemma no_gap_while [simp]:
  assumes "no_gap s"
  shows "takeWhile no_blank (s @ CHR '' '' # r) = s" and "dropWhile no_blank (s @ CHR '' '' # r) = CHR '' '' # r"
  using assms by (simp_all add: takeWhile_append dropWhile_append no_gap_def no_blank_def)

lemma number_while:
  assumes "\<not> number_char c"
  shows "takeWhile number_char (decimal_int i @ c # r) = decimal_int i"
    and "dropWhile number_char (decimal_int i @ c # r) = c # r"
  using assms decimal_int_chars [of _ i] by (auto simp: takeWhile_append dropWhile_append)

lemma number_ends [simp]:
  "\<not> number_char (CHR ''m'')" "\<not> number_char (CHR 0xC2)"
  by (simp_all add: number_char_def is_digit_def)

lemma mode_label_while [simp]:
  "takeWhile (\<lambda>c. c \<noteq> CHR ''/'') (oi_modeLabel oi @ CHR ''/'' # r) = oi_modeLabel oi"
  "dropWhile (\<lambda>c. c \<noteq> CHR ''/'') (oi_modeLabel oi @ CHR ''/'' # r) = CHR ''/'' # r"
  by (simp_all add: oi_modeLabel_def)

lemma read_event_line:
  "no_gap stamp \<Longrightarrow> read_event (concat (event_args stamp n oi)) = Some (n, oi_modeLabel oi, oi_interval oi)"
  by (simp add: read_event_def event_args_def number_while)

lemma read_result_line:
  "no_gap stamp \<Longrightarrow> no_gap name \<Longrightarrow>
     read_result (concat (result_args stamp name (decimal_int v) us)) = Some (name, v, us)"
  by (simp add: read_result_def result_args_def number_while micro_sign_def)

lemma other_lines:
  "no_gap stamp \<Longrightarrow> read_result (concat (event_args stamp n oi)) = None"
  "no_gap stamp \<Longrightarrow> read_event (concat (result_args stamp name val us)) = None"
  "read_event (concat (applyCommand_prints cmd)) = None" "read_result (concat (applyCommand_prints cmd)) = None"
  by (simp_all add: read_event_def read_result_def event_args_def result_args_def applyCommand_prints_def
      no_blank_def right_arrow_def split: command_type.split)

lemma leaveStress_lines:
  assumes "leaveStress_prints statusFile now oi = Some calls" and "args \<in> set calls"
  shows "read_event (concat args) = None" and "read_result (concat args) = None" and "newline \<notin> set (concat args)"
proof -
  have pad: "newline \<notin> set (left_padded w s)" if "newline \<notin> set s" for w s
    using that by (simp add: left_padded_def newline_def)
  have number: "newline \<notin> set (decimal_int i)" for i using no_gap_decimal_int [of i] by (auto simp: no_gap_def)
  from assms have "args \<in> {[''[OI] '' @ right_arrow @ '' normal  (2s, stress ended)'']} \<or>
      memory_args ''After Stress (Auto)'' statusFile = Some args"
    by (auto simp: leaveStress_prints_def split: if_splits)
  then show "read_event (concat args) = None" and "read_result (concat args) = None" and "newline \<notin> set (concat args)"
    using pad number
    by (auto simp: memory_args_def read_event_def read_result_def no_blank_def right_arrow_def left_padded_def newline_def
        split: option.splits)
qed


subsection \<open>The lines of a schedule\<close>

definition event_name :: "int \<Rightarrow> string" where
  "event_name n = ''file_'' @ decimal_int n @ ''.txt''"

lemma event_name [simp]: "fileName (file_event n t) = event_name n"
  by (simp add: file_event_def event_name_def)

lemma no_gap_event_name [simp]: "no_gap (event_name n)"
  by (simp add: event_name_def no_blank_def newline_def)

definition call_text :: "nat \<times> string list \<Rightarrow> string" where
  "call_text call = concat (snd call)"

abbreviation "call_event \<equiv> \<lambda>call. read_event (call_text call)"
abbreviation "call_result \<equiv> \<lambda>call. read_result (call_text call)"

definition call_ok :: "nat \<times> string list \<Rightarrow> bool" where
  "call_ok call \<longleftrightarrow> newline \<notin> set (call_text call) \<and>
     (call_event call \<noteq> None \<longrightarrow> fst call = thread_number OI) \<and>
     (call_result call \<noteq> None \<longrightarrow> fst call = thread_number RT)"

definition well_named :: "chain \<Rightarrow> bool" where
  "well_named ch \<longleftrightarrow> (\<forall>fe \<in> set (ch_events ch). no_gap (fileName fe))"

definition logged :: "string \<times> int \<times> int \<Rightarrow> string \<times> rat \<times> int" where
  "logged r = (case r of (name, v, us) \<Rightarrow> (name, of_int v, us))"

lemma map_filter_empty: "(\<And>x. x \<in> set xs \<Longrightarrow> f x = None) \<Longrightarrow> List.map_filter f xs = []"
  by (induction xs) (auto simp: List.map_filter_def)

lemma map_filter_append [simp]: "List.map_filter f (xs @ ys) = List.map_filter f xs @ List.map_filter f ys"
  by (simp add: List.map_filter_def)

lemma map_filter_pieces [simp]:
  "List.map_filter f [] = []" "List.map_filter f (x # xs) = (case f x of None \<Rightarrow> [] | Some y \<Rightarrow> [y]) @ List.map_filter f xs"
  by (simp_all add: List.map_filter_def split: option.split)

text \<open>An iteration of the observer prints one event line for the event it generates, if any.\<close>

lemma applyCommand_no_newline: "newline \<notin> set (concat (applyCommand_prints cmd))"
  using no_gap_decimal_int [of "durationSec cmd"]
  by (auto simp: applyCommand_prints_def newline_def right_arrow_def no_gap_def split: command_type.split)

lemma event_no_newline: "no_gap stamp \<Longrightarrow> newline \<notin> set (concat (event_args stamp n oi))"
  using no_gap_decimal_int [of n] no_gap_decimal_int [of "oi_interval oi"]
  by (auto simp: event_args_def newline_def no_gap_def oi_modeLabel_def)

lemma result_no_newline:
  "no_gap stamp \<Longrightarrow> no_gap name \<Longrightarrow> newline \<notin> set (concat (result_args stamp name (decimal_int v) us))"
  using no_gap_decimal_int [of v] no_gap_decimal_int [of us]
  by (auto simp: result_args_def newline_def no_gap_def micro_sign_def)

lemma oi_prints_lines:
  assumes "oi_prints localtime e cmd t count oi = Some calls"
    and "oi_iteration cmd t count oi = Some (sends, count', oi')" and "oi_next oi = Some s"
  shows "list_all call_ok (map (Pair (thread_number OI)) calls) \<and>
    List.map_filter call_result (map (Pair (thread_number OI)) calls) = [] \<and>
    map (\<lambda>(n, _). event_name n) (List.map_filter call_event (map (Pair (thread_number OI)) calls)) =
      map fileName (pick as_FileEvent (map snd sends))"
proof -
  let ?oi1 = "case cmd of None \<Rightarrow> oi | Some c \<Rightarrow> oi_applyCommand (at_command t) c oi"
  let ?oi2 = "oi_leaveStress (at_stress t) ?oi1"
  let ?commands = "case cmd of None \<Rightarrow> [] | Some c \<Rightarrow> [applyCommand_prints c]"
  let ?number = "map (Pair (thread_number OI))"
  from assms(1) obtain ended where ended: "leaveStress_prints (status_text e) (at_stress t) ?oi1 = Some ended"
    and calls: "calls = ?commands @ ended @ (if at_pause t < oi_pauseUntil ?oi2 then [] else
      case int_succ count of None \<Rightarrow> [] | Some n \<Rightarrow> [event_args (currentTimestamp localtime (wall_clock e)) n ?oi2])"
    by (auto simp: oi_prints_def Let_def split: option.splits if_splits)
  have quiet: "newline \<notin> set (concat args) \<and> read_event (concat args) = None \<and> read_result (concat args) = None"
    if "args \<in> set (?commands @ ended)" for args
    using that leaveStress_lines [OF ended, of args] other_lines(3,4) applyCommand_no_newline
    by (auto split: option.splits)
  then have quiet: "call_ok (k, args) \<and> call_event (k, args) = None \<and> call_result (k, args) = None"
    if "args \<in> set (?commands @ ended)" for k args
    using that by (simp add: call_ok_def call_text_def)
  then have pre: "List.map_filter call_event (?number (?commands @ ended)) = []"
    "List.map_filter call_result (?number (?commands @ ended)) = []"
    "list_all call_ok (?number (?commands @ ended))"
    by (auto intro!: map_filter_empty simp: list_all_iff)
  have kept: "oi_next ?oi2 = Some s"
    using assms(3) by (auto simp: oi_leaveStress_def oi_applyCommand_def split: option.split command_type.split)
  show ?thesis
  proof (cases "at_pause t < oi_pauseUntil ?oi2")
    case True
    with assms(2) have "sends = []" by (simp add: oi_iteration_def Let_def)
    with True calls pre show ?thesis by simp
  next
    case False
    with assms(2) kept obtain n where n: "int_succ count = Some n" and
      "pick as_FileEvent (map snd sends) = [file_event n (at_event t)]"
      by (auto simp: oi_iteration_def Let_def split: option.splits)
    moreover have "calls = (?commands @ ended) @ [event_args (currentTimestamp localtime (wall_clock e)) n ?oi2]"
      using calls False n by simp
    ultimately show ?thesis
      using pre event_no_newline [OF no_gap_stamp] other_lines(1) [OF no_gap_stamp] read_event_line [OF no_gap_stamp]
      by (simp add: call_ok_def call_text_def)
  qed
qed


text \<open>The last thread prints one result line for each result, whose file is one of the events.\<close>

lemma log_entry:
  assumes "chain_inv s" and "(name, val, us) \<in> set (ch_log s)"
  shows "val = 63" and "\<exists>fe \<in> set (ch_events s). name = fileName fe"
proof -
  have log: "map (\<lambda>(name, val, _). (name, val)) (ch_log s) =
      map (\<lambda>td. (fileName (originalFile (originalAppEvent (originalData td))), transformed_value td)) (ch_received s)"
    using assms(1) by (simp add: chain_inv_def inv_log_def)
  have "(name, val) \<in> set (map (\<lambda>(name, val, _). (name, val)) (ch_log s))" using assms(2) by force
  also have "\<dots> = set (map (\<lambda>td. (fileName (originalFile (originalAppEvent (originalData td))), transformed_value td))
      (ch_received s))"
    by (simp only: log)
  also have "\<dots> \<subseteq> (\<lambda>fe. (fileName fe, 63)) ` set (ch_events s)"
  proof -
    have "set (ch_received s) \<subseteq> result_of ` set (ch_events s)"
      using received_prefix [OF assms(1)] by (metis list.set_map set_take_subset)
    then show ?thesis by (auto simp: result_line)
  qed
  finally show "val = 63" and "\<exists>fe \<in> set (ch_events s). name = fileName fe" by auto
qed

lemma rt_take:
  assumes "chain_step (Take RT now) s = Inr s'" and "ch_outbox s RT = []"
  obtains mq where "sw_queues (ch_world s) RT = Some mq"
    and "ch_log s' = ch_log s @ (case rt_iteration (fst (mq_pop mq)) now of None \<Rightarrow> [] | Some line \<Rightarrow> [line])"
    and "ch_events s' = ch_events s"
proof -
  from assms have take: "chain_take RT now s = Inr s'" by simp
  then obtain mq where mq: "sw_queues (ch_world s) RT = Some mq"
    by (cases "sw_queues (ch_world s) RT") (simp_all add: chain_take_def)
  with take have "chain_handle RT now (fst (mq_pop mq)) (s\<lparr>ch_world :=
      (ch_world s)\<lparr>sw_queues := (sw_queues (ch_world s))(RT \<mapsto> snd (mq_pop mq))\<rparr>\<rparr>) = Inr s'"
    by (simp add: chain_take_def split_beta)
  then show ?thesis
    by (intro that [OF mq]) (auto simp: chain_handle_def split: option.splits)
qed

lemma double_text_63 [simp]: "double_text 63 = Some (decimal_int 63)"
proof -
  have "\<lfloor>63 :: rat\<rfloor> = 63" by simp
  then show ?thesis by (simp add: double_text_def)
qed

lemma chain_prints_lines:
  assumes inv: "chain_inv s" and step: "chain_step a s = Inr s'" and named: "well_named s'"
    and prints: "chain_prints localtime e a s = Some calls"
    and u: "case a of Take v _ \<Rightarrow> u = v | _ \<Rightarrow> u = OI"
  shows "list_all call_ok (map (Pair (thread_number u)) calls) \<and>
    ch_log s' = ch_log s @ map logged (List.map_filter call_result (map (Pair (thread_number u)) calls)) \<and>
    map fileName (ch_events s') = map fileName (ch_events s) @
      map (\<lambda>(n, _). event_name n) (List.map_filter call_event (map (Pair (thread_number u)) calls))"
proof (cases a)
  case (Tick t)
  show ?thesis
  proof (cases "ch_outbox s OI = []")
    case True
    with step Tick obtain cmd rb sends count oi where pop: "rb_pop (oi_cmdBuffer (ch_oi s)) = Inr (cmd, rb)"
      and iter: "oi_iteration cmd t (ch_count s) (ch_oi s\<lparr>oi_cmdBuffer := rb\<rparr>) = Some (sends, count, oi)"
      and s': "ch_events s' = ch_events s @ pick as_FileEvent (map snd sends)" "ch_log s' = ch_log s"
      by (auto simp: chain_tick_def split: sum.splits option.splits prod.splits)
    have "oi_prints localtime e cmd t (ch_count s) (ch_oi s\<lparr>oi_cmdBuffer := rb\<rparr>) = Some calls"
      using prints Tick True pop by (simp add: chain_prints_def)
    moreover have "oi_next (ch_oi s\<lparr>oi_cmdBuffer := rb\<rparr>) = Some (sender_to AO)"
      using inv by (simp add: chain_inv_def inv_wired_def)
    ultimately show ?thesis using oi_prints_lines [OF _ iter] s' u Tick by simp
  next
    case False
    with step prints Tick show ?thesis by (auto simp: chain_prints_def)
  qed
next
  case (Take v now)
  show ?thesis
  proof (cases "v = RT \<and> ch_outbox s v = []")
    case True
    then have v: "v = RT" and ob: "ch_outbox s RT = []" by auto
    have "chain_inv s'" using chain_step_keeps [OF inv step] .
    from step Take v ob obtain mq where mq: "sw_queues (ch_world s) RT = Some mq"
      and log: "ch_log s' = ch_log s @ (case rt_iteration (fst (mq_pop mq)) now of None \<Rightarrow> [] | Some line \<Rightarrow> [line])"
      and events: "ch_events s' = ch_events s"
      using rt_take [of now s s'] by metis
    have rt: "rt_prints localtime e (fst (mq_pop mq)) now = Some calls"
      using prints Take v ob mq by (simp add: chain_prints_def)
    show ?thesis
    proof (cases "rt_iteration (fst (mq_pop mq)) now")
      case None
      with rt log events show ?thesis by (simp add: rt_prints_def)
    next
      case (Some line)
      obtain name val us where line: "line = (name, val, us)" by (cases line) auto
      with Some log have "(name, val, us) \<in> set (ch_log s')" by simp
      note entry = log_entry [OF \<open>chain_inv s'\<close> this]
      with named have name: "no_gap name" by (auto simp: well_named_def)
      from rt Some line entry(1)
      have calls: "calls = [result_args (currentTimestamp localtime (wall_clock e)) name (decimal_int 63) us]"
        by (simp add: rt_prints_def)
      show ?thesis
        using calls log events Some line entry(1) name u Take True
          read_result_line [OF no_gap_stamp name] other_lines(2) [OF no_gap_stamp]
          result_no_newline [OF no_gap_stamp name]
        by (simp add: call_ok_def call_text_def logged_def)
    qed
  next
    case False
    with prints Take have "calls = []" by (auto simp: chain_prints_def split: if_splits)
    moreover from False step Take have "ch_log s' = ch_log s" "ch_events s' = ch_events s"
      by (auto simp: chain_take_def chain_handle_def split: if_splits option.splits prod.splits tid.splits)
    ultimately show ?thesis by simp
  qed
next
  case (Flush v)
  with step prints show ?thesis by (auto simp: chain_prints_def split: list.splits sum.splits)
next
  case (Command cmd)
  with step prints show ?thesis by (auto simp: chain_prints_def split: sum.splits)
qed


text \<open>An event line shows the mode with the interval that belongs to it.\<close>

definition shown_mode_ok :: "int \<times> string \<times> int \<Rightarrow> bool" where
  "shown_mode_ok event = (case event of (_, label, ms) \<Rightarrow>
     label = ''STRESS'' \<and> ms = 10 \<or> label = ''normal'' \<and> ms \<in> {500, 2000})"

definition log_state_ok :: "chain \<Rightarrow> bool" where
  "log_state_ok ch \<longleftrightarrow> well_named ch \<and> oi_modes_ok (ch_oi ch)"

lemma oi_modes_buffer [simp]: "oi_modes_ok (oi\<lparr>oi_cmdBuffer := rb\<rparr>) = oi_modes_ok oi"
  by (simp add: oi_modes_ok_def split: observer_mode.split)

lemma chain_step_log_state:
  assumes inv: "chain_inv s" and ok: "log_state_ok s" and step: "chain_step a s = Inr s'"
  shows "log_state_ok s'"
proof -
  have "well_named s'"
  proof (cases a)
    case (Tick t)
    with chain_tick_event [OF inv, of t s'] step ok show ?thesis
      by (auto simp: log_state_ok_def well_named_def simp del: chain_step.simps)
  qed (use chain_step_not_tick [OF step] ok in \<open>simp_all add: is_tick_def log_state_ok_def well_named_def\<close>)
  moreover have "oi_modes_ok (ch_oi s')"
  proof (cases a)
    case (Tick t)
    show ?thesis
    proof (cases "ch_outbox s OI = []")
      case True
      with step Tick obtain cmd rb sends count oi where
        iter: "oi_iteration cmd t (ch_count s) (ch_oi s\<lparr>oi_cmdBuffer := rb\<rparr>) = Some (sends, count, oi)"
        and "ch_oi s' = oi"
        by (auto simp: chain_tick_def split: sum.splits option.splits prod.splits)
      with oi_iteration_state(1) [OF iter] oi_modes_after ok show ?thesis by (simp add: log_state_ok_def)
    next
      case False
      with step Tick ok show ?thesis by (auto simp: log_state_ok_def)
    qed
  next
    case (Take u now)
    with step ok show ?thesis
      by (auto simp: log_state_ok_def chain_take_def chain_handle_def
          split: if_splits option.splits prod.splits tid.splits)
  next
    case (Flush u)
    with step ok show ?thesis by (auto simp: log_state_ok_def split: list.splits sum.splits)
  next
    case (Command cmd)
    with step ok show ?thesis
      by (auto simp: log_state_ok_def oi_sendCommand_def split: sum.splits if_splits)
  qed
  ultimately show ?thesis by (simp add: log_state_ok_def)
qed

lemma oi_prints_modes:
  assumes "oi_prints localtime e cmd t count oi = Some calls" and "oi_modes_ok oi"
  shows "list_all shown_mode_ok (List.map_filter call_event (map (Pair k) calls))"
proof -
  let ?oi1 = "case cmd of None \<Rightarrow> oi | Some c \<Rightarrow> oi_applyCommand (at_command t) c oi"
  have ok: "oi_modes_ok (oi_after cmd t oi)" using oi_modes_after [OF assms(2)] by blast
  from assms(1) obtain ended where ended: "leaveStress_prints (status_text e) (at_stress t) ?oi1 = Some ended"
    and calls: "calls = (case cmd of None \<Rightarrow> [] | Some c \<Rightarrow> [applyCommand_prints c]) @ ended \<or>
      (\<exists>n. calls = (case cmd of None \<Rightarrow> [] | Some c \<Rightarrow> [applyCommand_prints c]) @ ended @
        [event_args (currentTimestamp localtime (wall_clock e)) n (oi_after cmd t oi)])"
    by (auto simp: oi_prints_def oi_after_def Let_def split: option.splits if_splits)
  have "List.map_filter call_event (map (Pair k) ended) = []"
    using leaveStress_lines(1) [OF ended] by (intro map_filter_empty) (auto simp: call_text_def)
  moreover have "List.map_filter call_event (map (Pair k)
      (case cmd of None \<Rightarrow> [] | Some c \<Rightarrow> [applyCommand_prints c])) = []"
    using other_lines(3) by (intro map_filter_empty) (auto simp: call_text_def split: option.splits)
  ultimately show ?thesis
    using calls ok
    by (auto simp: call_text_def read_event_line shown_mode_ok_def oi_modeLabel_def oi_modes_ok_def
        split: observer_mode.splits)
qed

lemma chain_prints_modes:
  assumes "chain_prints localtime e a s = Some calls" and "log_state_ok s"
  shows "list_all shown_mode_ok (List.map_filter call_event (map (Pair k) calls))"
proof (cases "\<exists>t. a = Tick t")
  case True
  then obtain t where a: "a = Tick t" by blast
  show ?thesis
  proof (cases "ch_outbox s OI = []")
    case True
    with assms(1) a obtain cmd rb where
      "oi_prints localtime e cmd t (ch_count s) (ch_oi s\<lparr>oi_cmdBuffer := rb\<rparr>) = Some calls"
      by (auto simp: chain_prints_def split: sum.splits)
    with oi_prints_modes [OF this] assms(2) show ?thesis by (simp add: log_state_ok_def)
  next
    case False
    with assms(1) a show ?thesis by (simp add: chain_prints_def)
  qed
next
  case False
  have "read_event (concat (result_args (currentTimestamp localtime (wall_clock e)) name val us)) = None" for name val us
    by (rule other_lines(2)) simp
  then have "List.map_filter call_event (map (Pair k) calls) = []" if "rt_prints localtime e m now = Some calls" for m now
    using that by (auto simp: rt_prints_def call_text_def split: option.splits)
  with False assms show ?thesis
    by (cases a) (auto simp: chain_prints_def split: if_splits option.splits)
qed

subsection \<open>The lines of a schedule of the system\<close>

lemma sys_step_silent:
  assumes "sys_step a s = Inr s'" and "\<And>u t now. a \<noteq> Loop u t now"
    and "\<And>u. a \<noteq> SendNext u" and "\<And>cmd. a \<noteq> CallCommand cmd"
  shows "ch_events (sy_chain s') = ch_events (sy_chain s) \<and> ch_log (sy_chain s') = ch_log (sy_chain s) \<and>
    ch_oi (sy_chain s') = ch_oi (sy_chain s)"
proof -
  have [simp]: "ch_log (fresh_locals u ch) = ch_log ch" for u ch by (cases u) (simp_all add: fresh_locals_def)
  show ?thesis
    using assms
    by (cases a) (auto simp: sys_begin_def sys_test_def sys_finish_def sys_add_def sys_join_def
      sys_restart_def sys_call_stop_def sys_call_restart_def drop_unmanaged_def
      split: phase.splits main_place.splits list.splits option.splits)
qed

text \<open>A step of the system leaves the chain as it is or is one of its steps, as far as the log goes.\<close>

lemma sys_step_prints:
  assumes inv: "sys_inv s" and ok: "log_state_ok (sy_chain s)" and step: "sys_step a s = Inr s'"
    and prints: "sys_prints localtime e a s = Some calls"
  shows "log_state_ok (sy_chain s') \<and> list_all call_ok calls \<and>
    list_all shown_mode_ok (List.map_filter call_event calls) \<and>
    ch_log (sy_chain s') = ch_log (sy_chain s) @ map logged (List.map_filter call_result calls) \<and>
    map fileName (ch_events (sy_chain s')) = map fileName (ch_events (sy_chain s)) @
      map (\<lambda>(n, _). event_name n) (List.map_filter call_event calls)"
proof (cases "\<exists>u t now. a = Loop u t now")
  case True
  then obtain u t now where a: "a = Loop u t now" by blast
  let ?b = "if u = OI then Tick t else Take u now"
  show ?thesis
  proof (cases "\<exists>tok. wb_phase (worker s u) = InRun tok \<and> sy_place s u = AtWait")
    case True
    with active_whole [OF inv, of u] have whole: "chain_inv (sy_chain s)" by auto
    from True step a have ch: "chain_step ?b (sy_chain s) = Inr (sy_chain s')"
      by (auto simp: sys_loop_def simp del: chain_step.simps split: sum.splits)
    from True prints a obtain lines where lines: "chain_prints localtime e ?b (sy_chain s) = Some lines"
      "calls = map (Pair (thread_number u)) lines"
      by (auto simp: sys_prints_def)
    have ok': "log_state_ok (sy_chain s')" using chain_step_log_state [OF whole ok ch] .
    then have "well_named (sy_chain s')" by (simp add: log_state_ok_def)
    from chain_prints_lines [OF whole ch this lines(1), of u] chain_prints_modes [OF lines(1) ok] ok' lines(2)
    show ?thesis by simp
  next
    case False
    with a step prints ok show ?thesis
      by (auto simp: sys_loop_def sys_prints_def split: phase.splits if_splits)
  qed
next
  case False
  with prints have calls: "calls = []" by (cases a) (simp_all add: sys_prints_def)
  have "ch_events (sy_chain s') = ch_events (sy_chain s) \<and> ch_log (sy_chain s') = ch_log (sy_chain s) \<and>
      (oi_modes_ok (ch_oi (sy_chain s)) \<longrightarrow> oi_modes_ok (ch_oi (sy_chain s')))"
  proof (cases a)
    case (SendNext u)
    with step show ?thesis by (auto simp: sys_send_def split: phase.splits sum.splits list.splits)
  next
    case (CallCommand cmd)
    with step show ?thesis
      by (auto simp: sys_call_command_def oi_sendCommand_def split: if_splits sum.splits)
  qed (use sys_step_silent [OF step] False in auto)
  with calls ok show ?thesis by (simp add: log_state_ok_def well_named_def)
qed

lemma sys_log_reports:
  "sys_inv s \<Longrightarrow> log_state_ok (sy_chain s) \<Longrightarrow> AddNext False \<notin> fst ` set es \<Longrightarrow>
   sys_exec (map fst es) s = Inr s' \<Longrightarrow> sys_log localtime es s = Some calls \<Longrightarrow>
    list_all call_ok calls \<and> list_all shown_mode_ok (List.map_filter call_event calls) \<and>
    ch_log (sy_chain s') = ch_log (sy_chain s) @ map logged (List.map_filter call_result calls) \<and>
    map fileName (ch_events (sy_chain s')) = map fileName (ch_events (sy_chain s)) @
      map (\<lambda>(n, _). event_name n) (List.map_filter call_event calls)"
proof (induction es arbitrary: s calls)
  case (Cons ae es)
  obtain a e where ae: "ae = (a, e)" by fastforce
  with Cons.prems(4,5) obtain s1 first rest where step: "sys_step a s = Inr s1" "sys_exec (map fst es) s1 = Inr s'"
    and prints: "sys_prints localtime e a s = Some first" "sys_log localtime es s1 = Some rest"
    and calls: "calls = first @ rest"
    by (auto split: sum.splits option.splits)
  have "a \<noteq> AddNext False" "AddNext False \<notin> fst ` set es" using Cons.prems(3) ae by auto
  with Cons.IH [of s1 rest] sys_step_keeps [OF Cons.prems(1) _ step(1)] step(2) prints(2)
    sys_step_prints [OF Cons.prems(1,2) step(1) prints(1)] calls
  show ?case by auto
qed simp


subsection \<open>The log of any interleaving\<close>

lemma printed_line_text: "printed_line call = call_text call @ [newline]"
  by (simp add: printed_line_def call_text_def)

lemma printed_lines:
  "list_all call_ok calls \<Longrightarrow> getlines [] (concat (map printed_line calls)) = map call_text calls"
proof (induction calls)
  case (Cons call calls)
  then have "newline \<notin> set (call_text call)" by (simp add: call_ok_def)
  from getlines_line [OF this, of "[]" "concat (map printed_line calls)"] Cons show ?case
    by (simp add: printed_line_text [of call])
qed simp

text \<open>
  The order of the log is a matter of who gets the mutex; the calls of one thread stay in its order.
\<close>

definition same_by_thread :: "(nat \<times> string list) list \<Rightarrow> (nat \<times> string list) list \<Rightarrow> bool" where
  "same_by_thread calls calls' \<longleftrightarrow> (\<forall>n. filter (\<lambda>c. fst c = n) calls = filter (\<lambda>c. fst c = n) calls')"

lemma same_by_thread_set:
  assumes "same_by_thread calls calls'"
  shows "set calls = set calls'"
proof -
  have "c \<in> set calls \<longleftrightarrow> c \<in> set calls'" for c
  proof -
    have "c \<in> set calls \<longleftrightarrow> c \<in> set (filter (\<lambda>d. fst d = fst c) calls)" by simp
    also have "\<dots> \<longleftrightarrow> c \<in> set (filter (\<lambda>d. fst d = fst c) calls')"
      using assms by (simp only: same_by_thread_def)
    finally show ?thesis by simp
  qed
  then show ?thesis by blast
qed

lemma map_filter_thread:
  assumes "\<And>c. c \<in> set calls \<Longrightarrow> f c \<noteq> None \<Longrightarrow> fst c = n"
  shows "List.map_filter f calls = List.map_filter f (filter (\<lambda>c. fst c = n) calls)"
  using assms by (induction calls) (auto split: option.split)

lemma same_by_thread_reports:
  assumes "same_by_thread calls calls'" and "\<And>c. c \<in> set calls' \<Longrightarrow> f c \<noteq> None \<Longrightarrow> fst c = n"
  shows "List.map_filter f calls = List.map_filter f calls'"
  using map_filter_thread [of calls' f n] map_filter_thread [of calls f n] same_by_thread_set [OF assms(1)] assms
  by (simp add: same_by_thread_def)

lemma start_log_state:
  assumes "oi_new alloc_ok = Inr oi"
  shows "log_state_ok (sy_chain (sys_start oi))"
proof -
  have "oi_modes_ok oi" using assms by (auto simp: oi_new_def oi_modes_ok_def split: sum.splits)
  then show ?thesis
    by (simp add: log_state_ok_def well_named_def sys_start_def initTestChain_def oi_modes_ok_def
        oi_setNext_def oi_setDirectToProcessing_def split: observer_mode.splits)
qed

lemma map_filter_map: "List.map_filter f (map g xs) = List.map_filter (\<lambda>x. f (g x)) xs"
  by (induction xs) (simp_all split: option.split)

lemma reported_names:
  assumes "chain_reported ch"
  shows "map fst (ch_log ch) = take (length (ch_received ch)) (map fileName (ch_events ch))"
proof -
  have "map fst (ch_log ch) = map fst (map (\<lambda>(name, val, _). (name, val)) (ch_log ch))"
    by (simp add: split_beta comp_def)
  also have "\<dots> = map (\<lambda>td. fileName (originalFile (originalAppEvent (originalData td)))) (ch_received ch)"
    using assms by (simp add: chain_reported_def inv_log_def comp_def)
  also have "\<dots> = map (\<lambda>td. fileName (originalFile (originalAppEvent (originalData td))))
      (take (length (ch_received ch)) (map result_of (ch_events ch)))"
    by (rule arg_cong) (use assms in \<open>simp add: chain_reported_def\<close>)
  finally show ?thesis by (simp add: take_map comp_def result_line)
qed

text \<open>With a status file as the kernel writes it every text is defined.\<close>

definition kernel_status :: "surroundings \<Rightarrow> bool" where
  "kernel_status e \<longleftrightarrow> (\<exists>fs. list_all field_ok fs \<and> status_text e = status_file fs)"

lemma leaveStress_defined:
  assumes "kernel_status e"
  shows "\<exists>calls. leaveStress_prints (status_text e) now oi = Some calls"
  using assms
  by (auto simp: kernel_status_def leaveStress_prints_def memory_args_def status_lines read_status_fields split: prod.split)

lemma chain_prints_defined:
  assumes inv: "chain_inv s" and status: "kernel_status e" and step: "chain_step a s = Inr s'"
  shows "\<exists>calls. chain_prints localtime e a s = Some calls"
proof (cases a)
  case (Tick t)
  show ?thesis
  proof (cases "ch_outbox s OI = []")
    case True
    with step Tick obtain cmd rb x where pop: "rb_pop (oi_cmdBuffer (ch_oi s)) = Inr (cmd, rb)"
      and iter: "oi_iteration cmd t (ch_count s) (ch_oi s\<lparr>oi_cmdBuffer := rb\<rparr>) = Some x"
      by (auto simp: chain_tick_def split: sum.splits option.splits prod.splits)
    obtain ended where "leaveStress_prints (status_text e) (at_stress t)
        (case cmd of None \<Rightarrow> ch_oi s\<lparr>oi_cmdBuffer := rb\<rparr>
         | Some c \<Rightarrow> oi_applyCommand (at_command t) c (ch_oi s\<lparr>oi_cmdBuffer := rb\<rparr>)) = Some ended"
      using leaveStress_defined [OF status] by blast
    with iter True Tick pop show ?thesis
      by (auto simp: chain_prints_def oi_prints_def oi_iteration_def Let_def split: option.splits if_splits)
  next
    case False
    with Tick show ?thesis by (simp add: chain_prints_def)
  qed
next
  case (Take u now)
  show ?thesis
  proof (cases "u = RT \<and> ch_outbox s RT = []")
    case True
    with step Take obtain mq where mq: "sw_queues (ch_world s) RT = Some mq"
      and log: "ch_log s' = ch_log s @ (case rt_iteration (fst (mq_pop mq)) now of None \<Rightarrow> [] | Some line \<Rightarrow> [line])"
      using rt_take [of now s s'] by metis
    have "val = 63" if "rt_iteration (fst (mq_pop mq)) now = Some (name, val, us)" for name val us
      using log_entry(1) [OF chain_step_keeps [OF inv step], of name val us] log that by simp
    then show ?thesis using Take True mq
      by (auto simp: chain_prints_def rt_prints_def split: option.split)
  next
    case False
    with Take show ?thesis by (auto simp: chain_prints_def)
  qed
qed (simp_all add: chain_prints_def)

lemma sys_prints_defined:
  assumes inv: "sys_inv s" and status: "kernel_status e" and step: "sys_step a s = Inr s'"
  shows "\<exists>calls. sys_prints localtime e a s = Some calls"
proof (cases "\<exists>u t now tok. a = Loop u t now \<and> wb_phase (worker s u) = InRun tok \<and> sy_place s u = AtWait")
  case True
  then obtain u t now tok where a: "a = Loop u t now" and run: "wb_phase (worker s u) = InRun tok" "sy_place s u = AtWait"
    by blast
  with active_whole [OF inv, of u] have "chain_inv (sy_chain s)" by auto
  moreover from a run step have "\<exists>ch. chain_step (if u = OI then Tick t else Take u now) (sy_chain s) = Inr ch"
    by (auto simp: sys_loop_def simp del: chain_step.simps split: sum.splits)
  ultimately obtain calls where "chain_prints localtime e (if u = OI then Tick t else Take u now) (sy_chain s) = Some calls"
    using chain_prints_defined [OF _ status] by blast
  with a run show ?thesis by (simp add: sys_prints_def)
next
  case False
  then show ?thesis by (cases a) (auto simp: sys_prints_def split: phase.split)
qed

lemma sys_log_total:
  "sys_inv s \<Longrightarrow> AddNext False \<notin> fst ` set es \<Longrightarrow> \<forall>e \<in> snd ` set es. kernel_status e \<Longrightarrow>
     sys_exec (map fst es) s = Inr s' \<Longrightarrow> \<exists>calls. sys_log localtime es s = Some calls"
proof (induction es arbitrary: s)
  case (Cons ae es)
  obtain a e where ae: "ae = (a, e)" by fastforce
  with Cons.prems(4) obtain s1 where step: "sys_step a s = Inr s1" "sys_exec (map fst es) s1 = Inr s'"
    by (auto split: sum.splits)
  have ok: "a \<noteq> AddNext False" "AddNext False \<notin> fst ` set es" "kernel_status e" "\<forall>e \<in> snd ` set es. kernel_status e"
    using Cons.prems(2,3) ae by auto
  obtain calls where "sys_prints localtime e a s = Some calls"
    using sys_prints_defined [OF Cons.prems(1) ok(3) step(1)] by blast
  moreover obtain rest where "sys_log localtime es s1 = Some rest"
    using Cons.IH [OF sys_step_keeps [OF Cons.prems(1) ok(1) step(1)] ok(2,4) step(2)] by blast
  ultimately show ?case using step(1) ae by simp
qed simp

subsection \<open>Properties\<close>



text \<open>The steps of \<open>safe_print\<close> for one call after the other.\<close>

definition print_all :: "(nat \<times> string list) list \<Rightarrow> log_step list" where
  "print_all calls = concat (map (\<lambda>(t, args). LockLog t args # map (\<lambda>_. WriteArgument t) args @ [EndLine t]) calls)"

definition demo_surroundings :: surroundings where
  "demo_surroundings = \<lparr>wall_clock = 3661000042000, status_text = []\<rparr>"

definition demo_schedule :: "(sys_action \<times> surroundings) list" where
  "demo_schedule = map (\<lambda>a. (a, demo_surroundings)) (start_up @ one_round)"

definition demo_calls :: "(nat \<times> string list) list" where
  "demo_calls = (case sys_log utc demo_schedule demo_system of None \<Rightarrow> [] | Some calls \<Rightarrow> calls)"

lemma sys_log_exec: "sys_log localtime es s = Some calls \<Longrightarrow> \<exists>s'. sys_exec (map fst es) s = Inr s'"
proof (induction es arbitrary: s calls)
  case (Cons ae es)
  obtain a e where "ae = (a, e)" by fastforce
  with Cons show ?case by (auto split: option.splits sum.splits)
qed simp

lemma demo_calls_value:
  "demo_calls = [(0, event_args ''01:01:01.000042'' 1 oi_plain), (4, result_args ''01:01:01.000042'' ''file_1.txt'' ''63'' 0)]"
  by code_simp

lemma demo_log:
  obtains oi s where "oi_new (\<lambda>_. True) = Inr oi" and "demo_system = sys_start oi"
    and "sys_log utc demo_schedule demo_system = Some demo_calls"
    and "sys_exec (map fst demo_schedule) demo_system = Inr s" and "AddNext False \<notin> fst ` set demo_schedule"
proof -
  obtain oi where new: "oi_new (\<lambda>_. True) = Inr oi" using oi_new_exists by blast
  then have demo: "demo_system = sys_start oi" by (simp add: demo_system_def)
  have "demo_calls \<noteq> []" by (simp add: demo_calls_value)
  then have calls: "sys_log utc demo_schedule demo_system = Some demo_calls"
    by (auto simp: demo_calls_def split: option.splits)
  then obtain s where "sys_exec (map fst demo_schedule) demo_system = Inr s" using sys_log_exec by blast
  with new demo calls show ?thesis by (rule that) (simp add: demo_schedule_def start_up_def one_round_def)
qed


text \<open>
  Further property (safety): no thread prints a text that is undefined: as long as the status file is
  one the kernel writes, every schedule that does not fault has a log.
\<close>

theorem log_always_defined:
  assumes "oi_new alloc_ok = Inr oi" and "AddNext False \<notin> fst ` set es"
    and "sys_exec (map fst es) (sys_start oi) = Inr s" and "\<forall>e \<in> snd ` set es. kernel_status e"
  shows "\<exists>calls. sys_log localtime es (sys_start oi) = Some calls"
  using sys_log_total [OF sys_start_inv [OF assms(1)] assms(2,4,3)] .

theorem log_always_defined_witness:
  "\<exists>calls. sys_log utc demo_schedule demo_system = Some calls"
proof -
  obtain oi s where new: "oi_new (\<lambda>_. True) = Inr oi" and demo: "demo_system = sys_start oi"
    and calls: "sys_log utc demo_schedule demo_system = Some demo_calls"
    and s: "sys_exec (map fst demo_schedule) demo_system = Inr s" and added: "AddNext False \<notin> fst ` set demo_schedule"
    by (rule demo_log)
  have "kernel_status demo_surroundings"
    unfolding kernel_status_def by (intro exI [of _ "[]"]) (simp add: demo_surroundings_def status_file_def)
  then have "\<forall>e \<in> snd ` set demo_schedule. kernel_status e" by (auto simp: demo_schedule_def)
  then show ?thesis using log_always_defined [OF new added s [unfolded demo]] demo by simp
qed

end
