(* ===== verification/MainTexts.thy ===== *)
theory MainTexts
  imports Program ThreadLog
begin

text \<open>
  What the main thread prints: the texts of \<open>src/src/main.cpp\<close>, \<open>src/include/threadManager.hpp\<close> and
  \<open>src/src/daemon.cpp\<close>, step by step of \<open>Program\<close>, in the order in which they are written.

  \<^item> A text is complete, with its line end, and goes to the standard output or the standard error. The
    main thread writes without the log mutex, so on a terminal it can fall into a line of a thread
    (\<open>unlocked_text_splits_a_line\<close> of \<open>Output\<close>).
  \<^item> A signal handler writes when its signal arrives. A signal that arrives while a handler of the
    daemon runs is taken to write after that handler.
  \<^item> The name of the program, the status file, the flags of the standard input and the messages of
    \<open>strerror\<close> are arguments.
\<close>

datatype printed_text = StdOut string | StdErr string

definition endl :: "string \<Rightarrow> string" where
  "endl s = s @ [newline]"

definition printed_texts :: "printed \<Rightarrow> printed_text list" where
  "printed_texts p = (if err_text p = [] then [] else [StdErr (err_text p)]) @
     (if out_text p = [] then [] else [StdOut (out_text p)])"

subsection \<open>The daemon and the manager\<close>

definition signalHandler_text :: "int \<Rightarrow> printed_text" where
  "signalHandler_text signal = StdOut (endl (''Interrupt signal number ['' @ decimal_int signal @ ''] received.''))"

definition writePidToFile_texts :: "bool \<Rightarrow> string \<Rightarrow> printed_text list" where
  "writePidToFile_texts open_ok pidFileName =
     (if pidFileName \<noteq> [] \<and> \<not> open_ok then [StdErr (endl (''Failed to open '' @ pidFileName))] else [])"

definition makeDaemon_texts :: "string \<Rightarrow> syscalls \<Rightarrow> string \<Rightarrow> 'w daemon \<Rightarrow> printed_text list" where
  "makeDaemon_texts strerror sys pidFileName d =
     (if \<not> m_IsInitialized d then
        if sys_fork sys < 0 then [StdErr (endl (''Failed demonizing (fork): '' @ strerror))]
        else if sys_fork sys > 0 then []
        else if sys_setsid sys < 0 then [StdErr (endl (''Failed demonizing (setsid): '' @ strerror))]
        else if sys_chdir sys < 0 then [StdErr (endl (''Failed demonizing (chdir): '' @ strerror))]
        else writePidToFile_texts (sys_open_ok sys) pidFileName
      else [])"

definition ensureQueueAvailable_texts :: "string \<Rightarrow> 'q Sender \<Rightarrow> printed_text list" where
  "ensureQueueAvailable_texts messageTypeName s =
     (if messageQueuePtr s \<noteq> None then [] else [StdErr (endl (''Sender: no queue for message '' @ messageTypeName))])"

definition initTestChain_text :: printed_text where
  "initTestChain_text = StdOut (endl ''[ThreadManager] Test chain initialized with 5 threads.'')"

definition sent_text :: "bool \<Rightarrow> string" where
  "sent_text ok = (if ok then ''sent'' else ''FAILED (buffer full)'')"

definition tm_sendObserverCommand_texts :: "ObserverCommand \<Rightarrow> Observer option \<Rightarrow> printed_text list" where
  "tm_sendObserverCommand_texts cmd observer = (case observer of
     None \<Rightarrow> [StdErr (endl ''[TM] sendObserverCommand: chain not initialised.'')]
   | Some oi \<Rightarrow>
       (case oi_sendCommand cmd oi of
          Inl _ \<Rightarrow> []
        | Inr (ok, _) \<Rightarrow>
            (case command_type cmd of
               StopObserving \<Rightarrow> [StdOut (endl (''[TM] StopObserving '' @ decimal_int (durationSec cmd) @ ''s  '' @
                 right_arrow @ '' '' @ sent_text ok))]
             | StartObserving \<Rightarrow> [StdOut (endl (''[TM] StartObserving in '' @ decimal_int (durationSec cmd) @ ''s  '' @
                 right_arrow @ '' '' @ sent_text ok))]
             | _ \<Rightarrow> [])))"

definition tm_restart_texts :: "('i \<Rightarrow> bool) \<Rightarrow> ('i \<Rightarrow> bool) \<Rightarrow> 'i \<Rightarrow> 'i ThreadManager \<Rightarrow> printed_text list" where
  "tm_restart_texts ready spawn_ok i tm =
     (if \<not> wb_isRunning (tm_workers tm i) \<and> fst (tm_start ready spawn_ok i tm)
      then [StdOut (endl ''[ThreadManager] Restarted thread.'')] else [])"

subsection \<open>The main loop\<close>

definition user1_text :: printed_text where "user1_text = StdOut (endl ''User1 function called.'')"
definition user2_text :: printed_text where "user2_text = StdOut (endl ''User2 function called.'')"

text \<open>The signals that arrive inside \<open>isRunning\<close>, with the text of the handler it calls.\<close>

definition isRunning_texts :: "arrivals \<Rightarrow> 'w daemon \<Rightarrow> printed_text list" where
  "isRunning_texts arr d =
     (let signals = map signalHandler_text;
          performed = (\<lambda>text. signals (before_run arr) @ text @ signals (in_handler arr))
      in (if m_State d = State_Reload then performed []
          else signals (read2 arr) @
            (let d = deliver (read2 arr) d
             in if m_State d = State_User1 then performed [user1_text]
                else signals (read3 arr) @
                  (let d = deliver (read3 arr) d
                   in if m_State d = State_User2 then performed [user2_text] else []))) @
         signals (final arr))"

record main_surroundings =
  ms_name :: string
  ms_status :: string
  ms_stdin_flags :: int

text \<open>\<open>fcntl\<close>: the flags with which the standard input goes on, if they could be read.\<close>

definition stdin_flags_set :: "int \<Rightarrow> int \<Rightarrow> int option" where
  "stdin_flags_set o_nonblock flags = (if flags \<noteq> -1 then Some (or flags o_nonblock) else None)"

definition stdin_texts :: "int \<Rightarrow> printed_text list" where
  "stdin_texts flags = StdOut (endl ''Press the h key to display the Console Menu...'') #
     (if flags = -1 then [StdErr (endl ''WARN: Failed to get stdin flags for non-blocking input'')] else [])"

definition memory_text :: "string \<Rightarrow> main_surroundings \<Rightarrow> printed_text list option" where
  "memory_text label e = map_option (\<lambda>text. [StdOut text]) (printMemoryUsage label (ms_status e))"

definition dispatch_texts ::
  "main_surroundings \<Rightarrow> char option \<Rightarrow> Observer option \<Rightarrow> printed_text list option"
where
  "dispatch_texts e key observer = (case HandleConsole key of
     Console_stopObserving \<Rightarrow>
       Some (tm_sendObserverCommand_texts \<lparr>command_type = StopObserving, durationSec = 60\<rparr> observer)
   | Console_startObserving \<Rightarrow>
       Some (tm_sendObserverCommand_texts \<lparr>command_type = StartObserving, durationSec = 1\<rparr> observer)
   | Console_stressMode \<Rightarrow> map_option
       (\<lambda>memory. memory @ tm_sendObserverCommand_texts \<lparr>command_type = StressMode, durationSec = 0\<rparr> observer)
       (memory_text ''Before Stress'' e)
   | Console_setNormalMode \<Rightarrow> map_option
       (\<lambda>memory. tm_sendObserverCommand_texts \<lparr>command_type = SetNormalMode, durationSec = 0\<rparr> observer @ memory)
       (memory_text ''After Stress (Manual)'' e)
   | _ \<Rightarrow> Some (printed_texts (console_printed (ms_name e) key)))"

definition start_failed :: printed_text where
  "start_failed = StdErr (endl ''Error starting the daemon.'')"

definition terminating :: printed_text where
  "terminating = StdOut (endl ''Terminating the daemon process...'')"

definition close_failed :: printed_text where
  "close_failed = StdErr (endl ''ERROR: Failed to close all resources'')"

definition ended_successfully :: printed_text where
  "ended_successfully = StdOut (endl ''The daemon process ended successfully'')"

subsection \<open>The steps of main\<close>

definition continues_texts :: "bool \<Rightarrow> system \<Rightarrow> printed_text list" where
  "continues_texts spawn_ok s = (case sy_main s of
     Adding [] \<Rightarrow> [initTestChain_text]
   | Restarting (i # _) \<Rightarrow> tm_restart_texts isReadyToStart (\<lambda>_. spawn_ok) i (sy_tm s)
   | _ \<Rightarrow> [])"

definition prog_main_texts ::
  "main_surroundings \<Rightarrow> bool \<Rightarrow> int list \<Rightarrow> arrivals \<Rightarrow> char option \<Rightarrow> bool \<Rightarrow> program \<Rightarrow> printed_text list option"
where
  "prog_main_texts e background sigs arr key spawn_ok p =
     (if sy_main (pg_sys p) \<noteq> MainIdle then Some (continues_texts spawn_ok (pg_sys p))
      else (case pg_pc p of
        Starting \<Rightarrow>
          (case startAll (pg_daemon p) (view p) of
             None \<Rightarrow> Some []
           | Some (ok, _, _) \<Rightarrow>
               Some (if \<not> ok then [start_failed] else if background then [] else stdin_texts (ms_stdin_flags e)))
      | InLoop \<Rightarrow>
          (let d = deliver sigs (pg_daemon p);
               polled = map signalHandler_text sigs @ isRunning_texts arr d
           in case isRunning arr d (view p) of
                Some (True, _, w) \<Rightarrow>
                  if background then Some polled
                  else map_option ((@) polled) (dispatch_texts e key (aw_observer w))
              | _ \<Rightarrow> Some polled)
      | Stopping \<Rightarrow> Some [terminating]
      | Closing \<Rightarrow>
          (case closeAll (pg_daemon p) (view p) of
             None \<Rightarrow> Some []
           | Some (ok, _, _) \<Rightarrow> Some ((if ok then [] else [close_failed]) @ [ended_successfully]))
      | _ \<Rightarrow> Some []))"

fun prog_texts ::
  "bool \<Rightarrow> (prog_action \<times> main_surroundings) list \<Rightarrow> program \<Rightarrow> printed_text list option"
where
  "prog_texts background [] p = Some []"
| "prog_texts background ((a, e) # es) p =
     (case (case a of Main sigs arr key spawn_ok \<Rightarrow> prog_main_texts e background sigs arr key spawn_ok p | _ \<Rightarrow> Some [],
            prog_step background a p) of
        (Some texts, Inr p') \<Rightarrow> map_option ((@) texts) (prog_texts background es p')
      | _ \<Rightarrow> None)"


subsection \<open>The last words\<close>

definition words_ok :: "printed_text list \<Rightarrow> program \<Rightarrow> bool" where
  "words_ok texts p \<longleftrightarrow>
     (let farewell = (\<lambda>code. if code = 0 then suffix [terminating, ended_successfully] texts
                            else code = 1 \<and> suffix [start_failed] texts)
      in case pg_pc p of
           Closing \<Rightarrow> suffix [terminating] texts
         | Destroying code \<Rightarrow> farewell code
         | Joined code \<Rightarrow> farewell code
         | Ended code \<Rightarrow> farewell code
         | _ \<Rightarrow> True)"

lemma words_frame: "pg_pc p' = pg_pc p \<Longrightarrow> words_ok texts p \<Longrightarrow> words_ok texts p'"
  by (simp add: words_ok_def Let_def)

lemma words_main:
  assumes inv: "prog_inv spawn_self p" and words: "words_ok texts p"
    and prints: "prog_main_texts e background sigs arr key spawn_ok p = Some added"
    and step: "prog_main background sigs arr key spawn_ok p = Inr p'"
  shows "words_ok (texts @ added) p'"
proof (cases "sy_main (pg_sys p) = MainIdle")
  case False
  with step have pc: "pg_pc p' = pg_pc p" by (auto simp: prog_main_def)
  show ?thesis
  proof (cases "\<exists>code. pg_pc p = Joined code")
    case True
    with inv False obtain "is" where "sy_main (pg_sys p) = Joining True is" by (auto simp: prog_inv_def pc_ok_def)
    with prints have "added = []" by (simp add: prog_main_texts_def continues_texts_def)
    with words_frame [OF pc words] show ?thesis by simp
  next
    case False
    with inv \<open>sy_main (pg_sys p) \<noteq> MainIdle\<close> have "pg_pc p \<in> {Starting, InLoop}"
      by (auto simp: prog_inv_def pc_ok_def split: main_pc.splits)
    with pc show ?thesis by (auto simp: words_ok_def Let_def)
  qed
next
  case idle: True
  show ?thesis
  proof (cases "pg_pc p")
    case Starting
    with prints step idle show ?thesis
      by (auto simp: prog_main_texts_def prog_main_def words_ok_def suffix_def Let_def split: option.splits if_splits)
  next
    case InLoop
    with step idle have "pg_pc p' \<in> {InLoop, Stopping}"
      by (auto simp: prog_main_def split: option.splits sum.splits if_splits)
    then show ?thesis by (auto simp: words_ok_def Let_def)
  next
    case Stopping
    with prints step idle show ?thesis
      by (auto simp: prog_main_texts_def prog_main_def words_ok_def suffix_def Let_def)
  next
    case Closing
    from inv obtain self where
      "closeAll (pg_daemon p) (view p) = Some (True, (pg_daemon p)\<lparr>m_State := State_Stop\<rparr>, (view p)\<lparr>aw_self := self\<rparr>)"
      by (auto simp: prog_inv_def elim: closeAll_ok [where w = "view p"])
    with prints step idle words Closing show ?thesis
      by (auto simp: prog_main_texts_def prog_main_def words_ok_def suffix_def Let_def)
  qed (use prints step idle words in \<open>auto simp: prog_main_texts_def prog_main_def words_ok_def Let_def\<close>)
qed

lemma words_step:
  assumes inv: "prog_inv spawn_self p" and words: "words_ok texts p"
    and prints: "(case a of Main sigs arr key spawn_ok \<Rightarrow> prog_main_texts e background sigs arr key spawn_ok p | _ \<Rightarrow> Some []) =
      Some added"
    and step: "prog_step background a p = Inr p'"
  shows "words_ok (texts @ added) p'"
proof (cases a)
  case (Main sigs arr key spawn_ok)
  with prints step words_main [OF inv words] show ?thesis by simp
next
  case (Thread b)
  with step have "pg_pc p' = pg_pc p" by (auto split: if_splits sum.splits)
  with prints Thread words_frame words show ?thesis by simp
next
  case SelfProgress
  with step have "pg_pc p' = pg_pc p" by auto
  with prints SelfProgress words_frame words show ?thesis by simp
qed

lemma words_exec:
  "prog_inv spawn_self p \<Longrightarrow> words_ok texts p \<Longrightarrow> setup_ok background (map fst es) p \<Longrightarrow>
   prog_exec background (map fst es) p = Inr p' \<Longrightarrow> prog_texts background es p = Some added \<Longrightarrow>
     words_ok (texts @ added) p'"
proof (induction es arbitrary: p texts added)
  case (Cons ae es)
  obtain a e where ae: "ae = (a, e)" by fastforce
  with Cons.prems(4,5) obtain p1 first rest where step: "prog_step background a p = Inr p1"
    "prog_exec background (map fst es) p1 = Inr p'"
    and prints: "(case a of Main sigs arr key spawn_ok \<Rightarrow> prog_main_texts e background sigs arr key spawn_ok p | _ \<Rightarrow> Some []) =
      Some first"
    "prog_texts background es p1 = Some rest" and calls: "added = first @ rest"
    by (auto simp del: prog_step.simps split: sum.splits option.splits)
  have "setup_step a p" using Cons.prems(3) ae by (simp add: setup_step_def split: prog_action.splits)
  with prog_step_keeps [OF Cons.prems(1) _ step(1)] have "prog_inv spawn_self p1" by blast
  moreover have "setup_ok background (map fst es) p1" using Cons.prems(3) ae step(1) by simp
  ultimately show ?case
    using Cons.IH [OF _ words_step [OF Cons.prems(1,2) prints(1) step(1)]] step(2) prints(2) calls by simp
qed simp

subsection \<open>Properties\<close>


definition quiet_surroundings :: main_surroundings where
  "quiet_surroundings = \<lparr>ms_name = ''threadMsg'', ms_status = [], ms_stdin_flags = 2\<rparr>"

definition in_quiet :: "prog_action list \<Rightarrow> (prog_action \<times> main_surroundings) list" where
  "in_quiet as = map (\<lambda>a. (a, quiet_surroundings)) as"

lemma in_quiet_actions [simp]: "map fst (in_quiet as) = as"
  by (induction as) (simp_all add: in_quiet_def)


text \<open>
  Further property (functional): what the manager says of a command is what happened to it: it says
  \<open>sent\<close> if and only if the command is in the buffer, and reports a full buffer exactly if the buffer is
  left as it was. Of the stress and the normal mode it says nothing in either case.
\<close>

theorem command_text_truth:
  assumes "oi_cmds_ok oi"
  shows "\<exists>ok oi'. oi_sendCommand cmd oi = Inr (ok, oi') \<and>
    oi_pending oi' = oi_pending oi @ (if ok then [cmd] else []) \<and> (ok \<longleftrightarrow> length (oi_pending oi) < 7) \<and>
    (command_type cmd \<in> {StressMode, SetNormalMode} \<longrightarrow> tm_sendObserverCommand_texts cmd (Some oi) = []) \<and>
    (command_type cmd \<in> {StopObserving, StartObserving} \<longrightarrow> (\<exists>text.
       tm_sendObserverCommand_texts cmd (Some oi) = [StdOut (endl (text @ sent_text ok))]))"
proof -
  obtain oi' where "oi_sendCommand cmd oi = Inr (length (oi_pending oi) < 7, oi')"
    "oi_pending oi' = oi_pending oi @ (if length (oi_pending oi) < 7 then [cmd] else [])"
    using oi_sendCommand_correct [OF assms, of cmd] by metis
  then show ?thesis
    by (intro exI [of _ "length (oi_pending oi) < 7"] exI [of _ oi'])
      (auto simp: tm_sendObserverCommand_texts_def endl_def split: command_type.split
        intro: exI [of _ "''[TM] StopObserving '' @ decimal_int (durationSec cmd) @ ''s  '' @ right_arrow @ '' ''"]
          exI [of _ "''[TM] StartObserving in '' @ decimal_int (durationSec cmd) @ ''s  '' @ right_arrow @ '' ''"])
qed


theorem command_text_truth_witness:
  "\<exists>oi oi'. oi_new (\<lambda>_. True) = Inr oi \<and>
     oi_sendCommand \<lparr>command_type = StopObserving, durationSec = 60\<rparr> oi = Inr (True, oi') \<and>
     oi_pending oi' = [\<lparr>command_type = StopObserving, durationSec = 60\<rparr>]"
proof -
  obtain oi where new: "oi_new (\<lambda>_. True) = Inr oi" using oi_new_exists by blast
  from oi_new_ok [OF this] have "oi_cmds_ok oi" "oi_pending oi = []" by simp_all
  with command_text_truth [OF this(1), of "\<lparr>command_type = StopObserving, durationSec = 60\<rparr>"] new show ?thesis by auto
qed

end
