(* ===== verification/Linearizable.thy ===== *)
theory Linearizable
  imports Main
begin

text \<open>
  When an object used by many threads behaves as if every call took effect at one instant.

  \<^item> A thread is outside (\<open>NotCalled\<close>), in a call that has not taken effect yet (\<open>Called\<close>), or in one that has and
    whose result is determined (\<open>Effected\<close>). \<open>history\<close> is a run of the threads with the events these
    changes make: the call, its effect, its return.
  \<^item> \<open>seq_run\<close> is the sequential specification: the effects of a history, in order, applied to a content, each
    with the result it has in the history. \<open>call_run\<close> reads the events of one thread: a call,
    its effect once, the return of just the result of the effect.
  \<^item> The locale \<open>linearizable\<close> states what each step of an object owes, and derives that both hold of every
    history: the effects of the calls, each at an instant between call and return, form a
    sequential run with the same results. \<open>QueueCalls\<close> interprets it.
\<close>

datatype ('o, 'r) call_place = NotCalled | Called 'o | Effected 'r

datatype ('o, 'r) call_event = Invoke nat 'o | Effect nat 'o 'r | Return nat 'r

fun events_of :: "nat \<Rightarrow> ('o, 'r) call_place \<Rightarrow> ('o, 'r) call_place \<Rightarrow> ('o, 'r) call_event list" where
  "events_of t NotCalled (Called op) = [Invoke t op]"
| "events_of t (Called op) (Effected r) = [Effect t op r]"
| "events_of t (Effected r) NotCalled = [Return t r]"
| "events_of t _ _ = []"

inductive history ::
  "(nat \<Rightarrow> 's \<Rightarrow> 's \<Rightarrow> bool) \<Rightarrow> ('s \<Rightarrow> nat \<Rightarrow> ('o, 'r) call_place) \<Rightarrow> 's \<Rightarrow> ('o, 'r) call_event list \<Rightarrow> 's \<Rightarrow> bool"
  for step place start
where
  history_start: "history step place start [] start"
| history_step: "history step place start h s \<Longrightarrow> step t s s' \<Longrightarrow>
    history step place start (h @ events_of t (place s t) (place s' t)) s'"

fun seq_run :: "('o \<Rightarrow> 'c \<Rightarrow> ('r \<times> 'c) option) \<Rightarrow> ('o, 'r) call_event list \<Rightarrow> 'c \<Rightarrow> 'c option" where
  "seq_run atomic [] c = Some c"
| "seq_run atomic (Effect t op r # h) c = (case atomic op c of
     None \<Rightarrow> None
   | Some (r', c') \<Rightarrow> if r' = r then seq_run atomic h c' else None)"
| "seq_run atomic (_ # h) c = seq_run atomic h c"

fun call_run :: "nat \<Rightarrow> ('o, 'r) call_event list \<Rightarrow> ('o, 'r) call_place \<Rightarrow> ('o, 'r) call_place option" where
  "call_run t [] p = Some p"
| "call_run t (Invoke u op # h) p =
     (if u \<noteq> t then call_run t h p else if p = NotCalled then call_run t h (Called op) else None)"
| "call_run t (Effect u op r # h) p =
     (if u \<noteq> t then call_run t h p else if p = Called op then call_run t h (Effected r) else None)"
| "call_run t (Return u r # h) p =
     (if u \<noteq> t then call_run t h p else if p = Effected r then call_run t h NotCalled else None)"

lemma seq_run_append: "seq_run atomic h c = Some c1 \<Longrightarrow> seq_run atomic (h @ h') c = seq_run atomic h' c1"
  by (induction atomic h c rule: seq_run.induct) (auto split: option.splits if_splits)

lemma call_run_append: "call_run t h p = Some p1 \<Longrightarrow> call_run t (h @ h') p = call_run t h' p1"
  by (induction t h p rule: call_run.induct) (auto split: if_splits)

lemma call_run_others: "u \<noteq> t \<Longrightarrow> call_run t (events_of u p p') q = Some q"
  by (cases "(u, p, p')" rule: events_of.cases) simp_all

locale linearizable =
  fixes step :: "nat \<Rightarrow> 's \<Rightarrow> 's \<Rightarrow> bool"
    and place :: "'s \<Rightarrow> nat \<Rightarrow> ('o, 'r) call_place"
    and content :: "'s \<Rightarrow> 'c"
    and atomic :: "'o \<Rightarrow> 'c \<Rightarrow> ('r \<times> 'c) option"
    and start :: 's
  assumes starts_outside: "place start t = NotCalled"
    and others_stay: "step t s s' \<Longrightarrow> u \<noteq> t \<Longrightarrow> place s' u = place s u"
    and own_step: "step t s s' \<Longrightarrow>
      place s' t = place s t \<and> content s' = content s \<or>
      (\<exists>op. place s t = NotCalled \<and> place s' t = Called op) \<and> content s' = content s \<or>
      (\<exists>op r. place s t = Called op \<and> place s' t = Effected r \<and> atomic op (content s) = Some (r, content s')) \<or>
      (\<exists>r. place s t = Effected r \<and> place s' t = NotCalled) \<and> content s' = content s"
begin

lemma step_effect: "step t s s' \<Longrightarrow> seq_run atomic (events_of t (place s t) (place s' t)) (content s) = Some (content s')"
  using own_step [of t s s'] by (cases "place s t"; auto)

lemma step_call: "step t s s' \<Longrightarrow> call_run t (events_of t (place s t) (place s' t)) (place s t) = Some (place s' t)"
  using own_step [of t s s'] by (cases "place s t"; auto)

lemma step_calls: "step t s s' \<Longrightarrow> call_run u (events_of t (place s t) (place s' t)) (place s u) = Some (place s' u)"
  using step_call [of t s s'] others_stay [of t s s' u] call_run_others [of t u] by (cases "u = t") simp_all

lemma history_linearizes:
  "history step place start h s \<Longrightarrow> seq_run atomic h (content start) = Some (content s) \<and>
     (\<forall>t. call_run t h NotCalled = Some (place s t))"
proof (induction rule: history.induct)
  case history_start
  then show ?case by (simp add: starts_outside)
next
  case (history_step h s t s')
  then show ?case using step_effect step_calls by (simp add: seq_run_append call_run_append)
qed

end

end
