(* ===== verification/QueueCalls.thy ===== *)
theory QueueCalls
  imports MessageMonitor TsqMonitor Linearizable
begin

text \<open>
  The calls of \<open>MessageQueue\<close> and \<open>ThreadSafeQueue\<close> take effect at one instant: both monitors interpret
  \<open>linearizable\<close>. \<open>mq_atomic\<close> and \<open>tsq_atomic\<close> are the specifications: what each method would do alone on a
  list. \<open>None\<close> is a call that cannot take effect: \<open>wait\<close> on an empty queue. The theories of the chain, which
  let a thread push or take a message in one step, rest on this.
\<close>

subsection \<open>\<open>MessageQueue\<close>\<close>

datatype 'm mq_call = MqPush "'m option" | MqTryPop | MqWait | MqWaitFor | MqClear | MqEmpty

datatype 'm mq_result = MqDone | MqPopped "'m option" | MqIsEmpty bool

fun mq_atomic :: "'m mq_call \<Rightarrow> 'm option list \<Rightarrow> ('m mq_result \<times> 'm option list) option" where
  "mq_atomic (MqPush m) xs = Some (MqDone, xs @ [m])"
| "mq_atomic MqTryPop xs = Some (case xs of [] \<Rightarrow> (MqPopped None, []) | m # rest \<Rightarrow> (MqPopped m, rest))"
| "mq_atomic MqWait xs = (case xs of [] \<Rightarrow> None | m # rest \<Rightarrow> Some (MqPopped m, rest))"
| "mq_atomic MqWaitFor xs = Some (case xs of [] \<Rightarrow> (MqPopped None, []) | m # rest \<Rightarrow> (MqPopped m, rest))"
| "mq_atomic MqClear xs = Some (MqDone, [])"
| "mq_atomic MqEmpty xs = Some (MqIsEmpty (xs = []), xs)"

fun pop_call :: "pop_kind \<Rightarrow> 'm mq_call" where
  "pop_call Try = MqTryPop"
| "pop_call Wait = MqWait"
| "pop_call (WaitFor _) = MqWaitFor"

fun mo_call :: "'m mo_pc \<Rightarrow> ('m mq_call, 'm mq_result) call_place" where
  "mo_call Idle = NotCalled"
| "mo_call (PushEnter m) = Called (MqPush m)"
| "mo_call (PushIn m) = Called (MqPush m)"
| "mo_call PushLeave = Effected MqDone"
| "mo_call PushNotify = Effected MqDone"
| "mo_call (PopEnter k) = Called (pop_call k)"
| "mo_call (PopTest k) = Called (pop_call k)"
| "mo_call (Sleeping k) = Called (pop_call k)"
| "mo_call (Waking k) = Called (pop_call k)"
| "mo_call (PopLeave r) = Effected (MqPopped r)"
| "mo_call ClearEnter = Called MqClear"
| "mo_call ClearIn = Called MqClear"
| "mo_call ClearLeave = Effected MqDone"
| "mo_call EmptyEnter = Called MqEmpty"
| "mo_call EmptyIn = Called MqEmpty"
| "mo_call (EmptyLeave b) = Effected (MqIsEmpty b)"

definition mo_step :: "nat \<Rightarrow> 'm monitor \<Rightarrow> 'm monitor \<Rightarrow> bool" where
  "mo_step t s s' \<longleftrightarrow> mo_run t s s' \<or> mo_env t s s'"

definition mo_place :: "'m monitor \<Rightarrow> nat \<Rightarrow> ('m mq_call, 'm mq_result) call_place" where
  "mo_place s t = mo_call (mo_pcs s t)"

lemma mo_call_entering: "entering pc = Some pc' \<Longrightarrow> mo_call pc' = mo_call pc \<and> (\<exists>c. mo_call pc = Called c)"
  by (cases pc) auto

lemma mo_call_leaving:
  "leaving pc = Some pc' \<Longrightarrow> mo_call pc' = mo_call pc \<or> (\<exists>r. mo_call pc = Effected r) \<and> mo_call pc' = NotCalled"
  by (cases pc) auto

lemma mo_call_moved [simp]: "mo_call (woken pc) = mo_call pc" "mo_call (expired pc) = mo_call pc"
  by (cases pc; simp) (induct pc rule: expired.induct; simp)

lemma mo_call_starting: "starting pc \<Longrightarrow> \<exists>c. mo_call pc = Called c"
  by (cases pc) auto

interpretation mq_calls: linearizable mo_step mo_place mo_items mq_atomic mo_start
proof unfold_locales
  fix t u :: nat and s s' :: "'a monitor"
  show "mo_place mo_start t = NotCalled" by (simp add: mo_place_def mo_start_def)
  assume step: "mo_step t s s'"
  show "mo_place s' u = mo_place s u" if "u \<noteq> t"
    using step that unfolding mo_step_def mo_place_def by (auto elim!: mo_runE mo_envE)
  show "mo_place s' t = mo_place s t \<and> mo_items s' = mo_items s \<or>
      (\<exists>op. mo_place s t = NotCalled \<and> mo_place s' t = Called op) \<and> mo_items s' = mo_items s \<or>
      (\<exists>op r. mo_place s t = Called op \<and> mo_place s' t = Effected r \<and> mq_atomic op (mo_items s) = Some (r, mo_items s')) \<or>
      (\<exists>r. mo_place s t = Effected r \<and> mo_place s' t = NotCalled) \<and> mo_items s' = mo_items s"
    using step [unfolded mo_step_def]
  proof
    assume "mo_run t s s'"
    then show ?thesis
    proof (rule mo_runE, goal_cases)
      case (4 k r q)
      then show ?thesis by (cases k; cases "mo_items s") (auto simp: mo_place_def mq_pop_def)
    qed (auto simp: mo_place_def mq_push_ptr_def mq_clear_def mq_empty_def dest: mo_call_entering mo_call_leaving)
  next
    assume "mo_env t s s'"
    then show ?thesis by (cases rule: mo_envE) (auto simp: mo_place_def dest: mo_call_starting)
  qed
qed

subsection \<open>\<open>ThreadSafeQueue\<close>\<close>

datatype 'a tsq_call = TsqPush 'a | TsqTryPop | TsqWaitPop | TsqEmpty

datatype 'a tsq_result = TsqDone | TsqPopped "'a option" | TsqIsEmpty bool

text \<open>\<open>waitPop\<close> may return nothing from an empty queue: its stop predicate was true.\<close>

fun tsq_atomic :: "'a tsq_call \<Rightarrow> 'a list \<Rightarrow> ('a tsq_result \<times> 'a list) option" where
  "tsq_atomic (TsqPush x) xs = Some (TsqDone, xs @ [x])"
| "tsq_atomic TsqTryPop xs = Some (case xs of [] \<Rightarrow> (TsqPopped None, []) | x # rest \<Rightarrow> (TsqPopped (Some x), rest))"
| "tsq_atomic TsqWaitPop xs = Some (case xs of [] \<Rightarrow> (TsqPopped None, []) | x # rest \<Rightarrow> (TsqPopped (Some x), rest))"
| "tsq_atomic TsqEmpty xs = Some (TsqIsEmpty (xs = []), xs)"

definition tsq_pop_call :: "bool \<Rightarrow> 'a tsq_call" where
  "tsq_pop_call wait = (if wait then TsqWaitPop else TsqTryPop)"

fun tq_call_place :: "'a tq_pc \<Rightarrow> ('a tsq_call, 'a tsq_result) call_place" where
  "tq_call_place TqIdle = NotCalled"
| "tq_call_place (TqPushEnter x) = Called (TsqPush x)"
| "tq_call_place (TqPushIn x) = Called (TsqPush x)"
| "tq_call_place TqPushLeave = Effected TsqDone"
| "tq_call_place TqPushNotify = Effected TsqDone"
| "tq_call_place (TqPopEnter wait) = Called (tsq_pop_call wait)"
| "tq_call_place (TestItems wait) = Called (tsq_pop_call wait)"
| "tq_call_place TqSleeping = Called TsqWaitPop"
| "tq_call_place TqWaking = Called TsqWaitPop"
| "tq_call_place (TqPopLeave r) = Effected (TsqPopped r)"
| "tq_call_place TqEmptyEnter = Called TsqEmpty"
| "tq_call_place TqEmptyIn = Called TsqEmpty"
| "tq_call_place (TqEmptyLeave b) = Effected (TsqIsEmpty b)"

definition tq_step :: "nat \<Rightarrow> 'a tq_monitor \<Rightarrow> 'a tq_monitor \<Rightarrow> bool" where
  "tq_step t s s' \<longleftrightarrow> tq_run t s s' \<or> tq_env t s s'"

definition tq_place :: "'a tq_monitor \<Rightarrow> nat \<Rightarrow> ('a tsq_call, 'a tsq_result) call_place" where
  "tq_place s t = tq_call_place (tq_pcs s t)"

lemma tq_call_entering: "tq_entering pc = Some pc' \<Longrightarrow> tq_call_place pc' = tq_call_place pc"
  by (cases pc) (auto simp: tsq_pop_call_def)

lemma tq_call_leaving:
  "tq_leaving pc = Some pc' \<Longrightarrow>
     tq_call_place pc' = tq_call_place pc \<or> (\<exists>r. tq_call_place pc = Effected r) \<and> tq_call_place pc' = NotCalled"
  by (cases pc) auto

lemma tq_call_woken [simp]: "tq_call_place (tq_woken pc) = tq_call_place pc"
  by (cases pc) simp_all

lemma tq_call_starting: "tq_starting pc \<Longrightarrow> \<exists>c. tq_call_place pc = Called c"
  by (cases pc) auto

interpretation tsq_calls: linearizable tq_step tq_place tq_items tsq_atomic tq_start
proof unfold_locales
  fix t u :: nat and s s' :: "'a tq_monitor"
  show "tq_place tq_start t = NotCalled" by (simp add: tq_place_def tq_start_def)
  assume step: "tq_step t s s'"
  show "tq_place s' u = tq_place s u" if "u \<noteq> t"
    using step that unfolding tq_step_def tq_place_def by (auto elim!: tq_runE tq_envE)
  show "tq_place s' t = tq_place s t \<and> tq_items s' = tq_items s \<or>
      (\<exists>op. tq_place s t = NotCalled \<and> tq_place s' t = Called op) \<and> tq_items s' = tq_items s \<or>
      (\<exists>op r. tq_place s t = Called op \<and> tq_place s' t = Effected r \<and> tsq_atomic op (tq_items s) = Some (r, tq_items s')) \<or>
      (\<exists>r. tq_place s t = Effected r \<and> tq_place s' t = NotCalled) \<and> tq_items s' = tq_items s"
    using step [unfolded tq_step_def]
  proof
    assume "tq_run t s s'"
    then show ?thesis
    proof (rule tq_runE, goal_cases)
      case (4 wait r q)
      then show ?thesis by (cases "tq_items s") (auto simp: tq_place_def tsq_try_pop_def tsq_pop_call_def)
    next
      case (5 wait)
      then show ?thesis by (simp add: tq_place_def tq_ready_def tsq_pop_call_def)
    qed (auto simp: tq_place_def tsq_push_def tsq_empty_def dest: tq_call_entering tq_call_leaving)
  next
    assume "tq_env t s s'"
    then show ?thesis by (cases rule: tq_envE) (auto simp: tq_place_def dest: tq_call_starting)
  qed
qed

subsection \<open>Properties\<close>

text \<open>
  Property C5 (refinement, safety): \<open>MessageQueue\<close> is linearizable. In every history of any number of threads,
  with any timeouts and spurious wake-ups, the effects of the calls, each made once between the call and its
  return, are a sequential run of \<open>push\<close>, \<open>try_pop\<close>, \<open>wait\<close>, \<open>wait_for\<close>, \<open>clear\<close> and \<open>empty\<close> on a list that ends
  with the content of the queue; each call returns the result of its effect.
\<close>

theorem message_queue_linearizable:
  assumes "history mo_step mo_place mo_start h s"
  shows "seq_run mq_atomic h [] = Some (mo_items s) \<and> (\<forall>t. call_run t h NotCalled = Some (mo_place s t))"
  using mq_calls.history_linearizes [OF assms] by (simp add: mo_start_def mq_new_def)

definition two_threads ::
  "nat mo_pc \<Rightarrow> nat mo_pc \<Rightarrow> nat option \<Rightarrow> nat option list \<Rightarrow> nat option list \<Rightarrow> nat option list \<Rightarrow> nat monitor"
where
  "two_threads p0 p1 lock items pushed removed = \<lparr>mo_object = \<lparr>m_queue = items\<rparr>, mo_lock = lock,
     mo_pcs = (\<lambda>_. Idle)(0 := p0, 1 := p1), mo_pushed = pushed, mo_removed = removed, mo_delivered = removed,
     mo_cleared = False\<rparr>"

lemma two_threads_fields:
  "mo_goto 0 pc (two_threads p0 p1 lock items pushed removed) = two_threads pc p1 lock items pushed removed"
  "mo_goto 1 pc (two_threads p0 p1 lock items pushed removed) = two_threads p0 pc lock items pushed removed"
  "two_threads p0 p1 lock items pushed removed\<lparr>mo_lock := lock'\<rparr> = two_threads p0 p1 lock' items pushed removed"
  "two_threads p0 p1 lock items pushed removed\<lparr>mo_object := \<lparr>m_queue = items'\<rparr>, mo_pushed := pushed'\<rparr> =
     two_threads p0 p1 lock items' pushed' removed"
  "two_threads p0 p1 lock items pushed removed\<lparr>mo_object := \<lparr>m_queue = items'\<rparr>, mo_removed := rs, mo_delivered := rs\<rparr> =
     two_threads p0 p1 lock items' pushed rs"
  "mo_removed (two_threads p0 p1 lock items pushed removed) = removed"
  "mo_delivered (two_threads p0 p1 lock items pushed removed) = removed"
  "mo_pcs (two_threads p0 p1 lock items pushed removed) 0 = p0"
  "mo_pcs (two_threads p0 p1 lock items pushed removed) 1 = p1"
  "mo_lock (two_threads p0 p1 lock items pushed removed) = lock"
  "mo_object (two_threads p0 p1 lock items pushed removed) = \<lparr>m_queue = items\<rparr>"
  "mo_pushed (two_threads p0 p1 lock items pushed removed) = pushed"
  by (auto simp: two_threads_def)

lemmas two_threads_simps = two_threads_fields two_threads_fields [unfolded One_nat_def]

definition two_calls :: "(nat mq_call, nat mq_result) call_event list" where
  "two_calls = [Invoke 0 (MqPush (Some 8)), Invoke 1 MqWait, Effect 0 (MqPush (Some 8)) MqDone, Effect 1 MqWait (MqPopped (Some 8))]"

lemma two_threads_history:
  "\<exists>s. history mo_step mo_place mo_start two_calls s"
proof -
  let ?hist = "history mo_step mo_place mo_start"
  let ?m = "Some (8 :: nat)"
  have run: "?hist h' s'" if "?hist h s" "mo_run t s s' \<or> mo_env t s s'"
    "h' = h @ events_of t (mo_call (mo_pcs s t)) (mo_call (mo_pcs s' t))" for h h' s s' t
    using history_step [OF that(1), of t s'] that(2,3) by (simp add: mo_step_def mo_place_def)
  have "mo_start = two_threads Idle Idle None [] [] []" by (auto simp: two_threads_def mo_start_def mq_new_def)
  then have "?hist [] (two_threads Idle Idle None [] [] [])" using history_start [of mo_step mo_place mo_start] by simp
  note run [OF this, of 0 "two_threads (PushEnter ?m) Idle None [] [] []" "[Invoke 0 (MqPush ?m)]"]
  then have "?hist [Invoke 0 (MqPush ?m)] (two_threads (PushEnter ?m) Idle None [] [] [])"
    using env_call [of "two_threads Idle Idle None [] [] []" 0 "PushEnter ?m"] by (simp add: two_threads_simps)
  note run [OF this, of 1 "two_threads (PushEnter ?m) (PopEnter Wait) None [] [] []" "[Invoke 0 (MqPush ?m), Invoke 1 MqWait]"]
  then have "?hist [Invoke 0 (MqPush ?m), Invoke 1 MqWait] (two_threads (PushEnter ?m) (PopEnter Wait) None [] [] [])"
    using env_call [of "two_threads (PushEnter ?m) Idle None [] [] []" 1 "PopEnter Wait"] by (simp add: two_threads_simps)
  note run [OF this, of 0 "two_threads (PushIn ?m) (PopEnter Wait) (Some 0) [] [] []" "[Invoke 0 (MqPush ?m), Invoke 1 MqWait]"]
  then have "?hist [Invoke 0 (MqPush ?m), Invoke 1 MqWait] (two_threads (PushIn ?m) (PopEnter Wait) (Some 0) [] [] [])"
    using run_lock [of "two_threads (PushEnter ?m) (PopEnter Wait) None [] [] []" 0] by (simp add: two_threads_simps)
  note run [OF this, of 0 "two_threads PushLeave (PopEnter Wait) (Some 0) [?m] [?m] []"
      "[Invoke 0 (MqPush ?m), Invoke 1 MqWait, Effect 0 (MqPush ?m) MqDone]"]
  then have "?hist [Invoke 0 (MqPush ?m), Invoke 1 MqWait, Effect 0 (MqPush ?m) MqDone]
      (two_threads PushLeave (PopEnter Wait) (Some 0) [?m] [?m] [])"
    using run_push [of "two_threads (PushIn ?m) (PopEnter Wait) (Some 0) [] [] []" 0 ?m]
    by (simp add: two_threads_simps mq_push_ptr_def)
  note run [OF this, of 0 "two_threads PushNotify (PopEnter Wait) None [?m] [?m] []"
      "[Invoke 0 (MqPush ?m), Invoke 1 MqWait, Effect 0 (MqPush ?m) MqDone]"]
  then have "?hist [Invoke 0 (MqPush ?m), Invoke 1 MqWait, Effect 0 (MqPush ?m) MqDone]
      (two_threads PushNotify (PopEnter Wait) None [?m] [?m] [])"
    using run_unlock [of "two_threads PushLeave (PopEnter Wait) (Some 0) [?m] [?m] []" 0] by (simp add: two_threads_simps)
  note run [OF this, of 1 "two_threads PushNotify (PopTest Wait) (Some 1) [?m] [?m] []"
      "[Invoke 0 (MqPush ?m), Invoke 1 MqWait, Effect 0 (MqPush ?m) MqDone]"]
  then have "?hist [Invoke 0 (MqPush ?m), Invoke 1 MqWait, Effect 0 (MqPush ?m) MqDone]
      (two_threads PushNotify (PopTest Wait) (Some 1) [?m] [?m] [])"
    using run_lock [of "two_threads PushNotify (PopEnter Wait) None [?m] [?m] []" 1] by (simp add: two_threads_simps)
  note run [OF this, of 1 "two_threads PushNotify (PopLeave ?m) (Some 1) [] [?m] [?m]" two_calls]
  then have "?hist two_calls (two_threads PushNotify (PopLeave ?m) (Some 1) [] [?m] [?m])"
    using run_pop [of "two_threads PushNotify (PopTest Wait) (Some 1) [?m] [?m] []" 1 Wait ?m "\<lparr>m_queue = []\<rparr>"]
    by (simp add: two_threads_simps mq_pop_def two_calls_def)
  then show ?thesis by blast
qed

theorem message_queue_linearizable_witness:
  "\<exists>s. history mo_step mo_place mo_start two_calls s \<and> mo_items s = [] \<and> mo_place s 1 = Effected (MqPopped (Some 8))"
proof -
  obtain s where s: "history mo_step mo_place mo_start two_calls s" using two_threads_history by blast
  with message_queue_linearizable [OF s] have "seq_run mq_atomic two_calls [] = Some (mo_items s)"
    and "call_run 1 two_calls NotCalled = Some (mo_place s 1)" by simp_all
  moreover have "seq_run mq_atomic two_calls [] = Some []"
    and "call_run 1 two_calls NotCalled = Some (Effected (MqPopped (Some 8)))" by (simp_all add: two_calls_def)
  ultimately show ?thesis using s by auto
qed

text \<open>\<open>ThreadSafeQueue\<close> is linearizable in the same way, whatever the stop predicates answer and when.\<close>

lemma thread_safe_queue_linearizable:
  assumes "history tq_step tq_place tq_start h s"
  shows "seq_run tsq_atomic h [] = Some (tq_items s) \<and> (\<forall>t. call_run t h NotCalled = Some (tq_place s t))"
  using tsq_calls.history_linearizes [OF assms] by (simp add: tq_start_def tsq_new_def)

end
