(* ===== verification/SystemCalls.thy ===== *)
theory SystemCalls
  imports System QueueCalls
begin

text \<open>
  \<open>System\<close> again, but with the queues as the monitors of \<open>MessageMonitor\<close>: a thread of the chain that sends a
  message calls \<open>push\<close> on the queue of the target, one that waits calls \<open>wait_for\<close> on its own, and the steps
  of these calls (the mutex, the test, the sleep in the wait set, the notification, the return) interleave
  with those of all other threads and of the main thread.

  \<^item> \<open>fn_sys\<close> is what the threads and the manager hold outside the queues; of its queues only their existence
    counts. \<open>fn_mon\<close> are the monitors, \<open>fn_at\<close> says in which call a thread is.
  \<^item> A step of a thread in a call is a step of its monitor. \<open>push\<close> returns to the next send, \<open>wait_for\<close> to the
    body of the loop with what it popped, or nothing after its timeout. A call on a queue that is gone is a
    fault, at its begin and at any later step.
  \<^item> All senders of the chain have a queue and no notification, so the case of a sender without one is left
    to \<open>Messaging\<close>. The commands cross the ring in one step (see \<open>CommandChannel\<close>).

  The theorem says that this refines \<open>System\<close>: \<open>fn_abs\<close> maps a state to one of \<open>System\<close> that a schedule of it
  reaches. A send happens where \<open>push\<close> takes effect. What a thread takes happens where \<open>wait_for\<close> returns: until
  then the message popped counts as still in the queue, which nobody else can see, because no other thread
  takes from it. A wait that finds nothing happens where it gives up. The proof rests on \<open>mq_calls\<close>, the
  interpretation of \<open>linearizable\<close> for the monitor.
\<close>

datatype in_call = NoCall | Sending tid | Taking

record fine =
  fn_sys :: system
  fn_mon :: "tid \<Rightarrow> payload monitor"
  fn_at :: "tid \<Rightarrow> in_call"

definition fine_start :: "Observer \<Rightarrow> fine" where
  "fine_start oi = \<lparr>fn_sys = sys_start oi, fn_mon = \<lambda>_. mo_start, fn_at = \<lambda>_. NoCall\<rparr>"

abbreviation fn_place :: "fine \<Rightarrow> tid \<Rightarrow> tid \<Rightarrow> (payload mq_call, payload mq_result) call_place" where
  "fn_place f q u \<equiv> mo_place (fn_mon f q) (thread_number u)"

abbreviation set_mon :: "tid \<Rightarrow> payload monitor \<Rightarrow> fine \<Rightarrow> fine" where
  "set_mon q m f \<equiv> f\<lparr>fn_mon := (fn_mon f)(q := m)\<rparr>"

abbreviation set_at :: "tid \<Rightarrow> in_call \<Rightarrow> fine \<Rightarrow> fine" where
  "set_at u c f \<equiv> f\<lparr>fn_at := (fn_at f)(u := c)\<rparr>"

subsection \<open>Steps\<close>

definition queue_exists :: "fine \<Rightarrow> tid \<Rightarrow> bool" where
  "queue_exists f q \<longleftrightarrow> sw_queues (ch_world (sy_chain (fn_sys f))) q \<noteq> None"

text \<open>The actions of \<open>System\<close> that touch no queue, and the thread that does them.\<close>

fun plain :: "sys_action \<Rightarrow> bool" where
  "plain (Loop u _ _) = (u = OI)"
| "plain (SendNext _) = False"
| "plain _ = True"

fun acting :: "sys_action \<Rightarrow> tid option" where
  "acting (Begin u) = Some u"
| "acting (Test u) = Some u"
| "acting (Loop u _ _) = Some u"
| "acting (SendNext u) = Some u"
| "acting (Finish u) = Some u"
| "acting _ = None"

definition sends_to :: "fine \<Rightarrow> tid \<Rightarrow> payload \<Rightarrow> tid \<Rightarrow> bool" where
  "sends_to f u m q \<longleftrightarrow> (\<exists>tok. wb_phase (worker (fn_sys f) u) = InRun tok) \<and>
     (\<exists>sd rest. ch_outbox (sy_chain (fn_sys f)) u = (sd, m) # rest \<and> messageQueuePtr sd = Some q)"

definition waits :: "fine \<Rightarrow> tid \<Rightarrow> bool" where
  "waits f u \<longleftrightarrow> u \<noteq> OI \<and> (\<exists>tok. wb_phase (worker (fn_sys f) u) = InRun tok) \<and> sy_place (fn_sys f) u = AtWait"

definition in_queue :: "fine \<Rightarrow> tid \<Rightarrow> tid \<Rightarrow> bool" where
  "in_queue f u q \<longleftrightarrow> fn_at f u = Sending q \<or> fn_at f u = Taking \<and> q = u"

definition sent :: "tid \<Rightarrow> fine \<Rightarrow> fine" where
  "sent u f = f\<lparr>fn_sys := (fn_sys f)\<lparr>sy_chain := set_outbox u (tl (ch_outbox (sy_chain (fn_sys f)) u)) (sy_chain (fn_sys f))\<rparr>\<rparr>"

definition taken :: "tid \<Rightarrow> int \<Rightarrow> payload option \<Rightarrow> fine \<Rightarrow> chain_fault + fine" where
  "taken u now r f = (case chain_handle u now r (sy_chain (fn_sys f)) of
     Inl fault \<Rightarrow> Inl fault
   | Inr ch \<Rightarrow> Inr (f\<lparr>fn_sys := set_place u AtTest (fn_sys f)\<lparr>sy_chain := ch\<rparr>\<rparr>))"

inductive fine_step :: "fine \<Rightarrow> sys_action option \<Rightarrow> chain_fault + fine \<Rightarrow> bool" where
  fine_plain: "plain a \<Longrightarrow> (\<And>u. acting a = Some u \<Longrightarrow> fn_at f u = NoCall) \<Longrightarrow>
    fine_step f (Some a) (map_sum id (\<lambda>s. f\<lparr>fn_sys := s\<rparr>) (sys_step a (fn_sys f)))"
| fine_send: "fn_at f u = NoCall \<Longrightarrow> sends_to f u m q \<Longrightarrow> queue_exists f q \<Longrightarrow>
    fine_step f None (Inr (set_at u (Sending q) (set_mon q (mo_goto (thread_number u) (PushEnter (Some m)) (fn_mon f q)) f)))"
| fine_wait: "fn_at f u = NoCall \<Longrightarrow> waits f u \<Longrightarrow> queue_exists f u \<Longrightarrow>
    fine_step f None (Inr (set_at u Taking (set_mon u (mo_goto (thread_number u) (PopEnter (WaitFor False)) (fn_mon f u)) f)))"
| fine_inside: "in_queue f u q \<Longrightarrow> queue_exists f q \<Longrightarrow> mo_step (thread_number u) (fn_mon f q) m' \<Longrightarrow>
    mo_place m' (thread_number u) \<noteq> NotCalled \<Longrightarrow> fine_step f None (Inr (set_mon q m' f))"
| fine_sent: "fn_at f u = Sending q \<Longrightarrow> queue_exists f q \<Longrightarrow> mo_step (thread_number u) (fn_mon f q) m' \<Longrightarrow>
    mo_place m' (thread_number u) = NotCalled \<Longrightarrow>
    fine_step f None (Inr (sent u (set_at u NoCall (set_mon q m' f))))"
| fine_taken: "fn_at f u = Taking \<Longrightarrow> queue_exists f u \<Longrightarrow> mo_step (thread_number u) (fn_mon f u) m' \<Longrightarrow>
    mo_place m' (thread_number u) = NotCalled \<Longrightarrow> fn_place f u u = Effected (MqPopped r) \<Longrightarrow>
    fine_step f None (taken u now r (set_at u NoCall (set_mon u m' f)))"
| fine_gone: "fn_at f u = NoCall \<and> sends_to f u m q \<or> fn_at f u = NoCall \<and> waits f u \<and> q = u \<or> in_queue f u q \<Longrightarrow>
    \<not> queue_exists f q \<Longrightarrow> fine_step f None (Inl (SendFault (DanglingQueue q)))"

inductive fine_reach :: "fine \<Rightarrow> sys_action option list \<Rightarrow> fine \<Rightarrow> bool" for start where
  fine_reach_start: "fine_reach start [] start"
| fine_reach_step: "fine_reach start ls f \<Longrightarrow> fine_step f l (Inr f') \<Longrightarrow> fine_reach start (ls @ [l]) f'"

inductive_cases fine_stepE: "fine_step f l r"

subsection \<open>The state of \<open>System\<close> it stands for\<close>

fun popped :: "(payload mq_call, payload mq_result) call_place \<Rightarrow> payload option list" where
  "popped (Effected (MqPopped (Some m))) = [Some m]"
| "popped _ = []"

fun effected :: "('o, 'r) call_place \<Rightarrow> bool" where
  "effected (Effected _) = True"
| "effected _ = False"

definition fn_content :: "fine \<Rightarrow> tid \<Rightarrow> payload option list" where
  "fn_content f q = popped (fn_place f q q) @ mo_items (fn_mon f q)"

definition has_pushed :: "fine \<Rightarrow> tid \<Rightarrow> bool" where
  "has_pushed f u \<longleftrightarrow> (\<exists>q. fn_at f u = Sending q \<and> effected (fn_place f q u))"

definition fn_outbox :: "fine \<Rightarrow> tid \<Rightarrow> (tid Sender \<times> payload) list" where
  "fn_outbox f u =
     (if has_pushed f u then tl (ch_outbox (sy_chain (fn_sys f)) u) else ch_outbox (sy_chain (fn_sys f)) u)"

definition fn_loop :: "fine \<Rightarrow> tid \<Rightarrow> place" where
  "fn_loop f u =
     (if fn_at f u = Taking \<and> fn_place f u u = Effected (MqPopped None) then AtTest else sy_place (fn_sys f) u)"

definition chain_view ::
  "(tid \<Rightarrow> payload option list) \<Rightarrow> (tid \<Rightarrow> (tid Sender \<times> payload) list) \<Rightarrow> chain \<Rightarrow> chain"
where
  "chain_view content outbox ch = ch\<lparr>ch_world := (ch_world ch)\<lparr>sw_queues :=
     (\<lambda>q. map_option (\<lambda>_. \<lparr>m_queue = content q\<rparr>) (sw_queues (ch_world ch) q))\<rparr>, ch_outbox := outbox\<rparr>"

definition sys_view ::
  "(tid \<Rightarrow> payload option list) \<Rightarrow> (tid \<Rightarrow> (tid Sender \<times> payload) list) \<Rightarrow> (tid \<Rightarrow> place) \<Rightarrow> system \<Rightarrow> system"
where
  "sys_view content outbox places s = s\<lparr>sy_chain := chain_view content outbox (sy_chain s), sy_place := places\<rparr>"

definition fn_abs :: "fine \<Rightarrow> system" where
  "fn_abs f = sys_view (fn_content f) (fn_outbox f) (fn_loop f) (fn_sys f)"

subsection \<open>Actions that touch no queue\<close>

lemma chain_view_same [simp]:
  "ch_outbox (chain_view content outbox ch) = outbox" "ch_oi (chain_view content outbox ch) = ch_oi ch"
  "ch_count (chain_view content outbox ch) = ch_count ch" "ch_events (chain_view content outbox ch) = ch_events ch"
  "ch_received (chain_view content outbox ch) = ch_received ch" "ch_log (chain_view content outbox ch) = ch_log ch"
  "ch_ao (chain_view content outbox ch) = ch_ao ch" "ch_mirrorCounter (chain_view content outbox ch) = ch_mirrorCounter ch"
  "ch_pt_next (chain_view content outbox ch) = ch_pt_next ch" "ch_tt_next (chain_view content outbox ch) = ch_tt_next ch"
  "sw_queues (ch_world (chain_view content outbox ch)) q =
     map_option (\<lambda>_. \<lparr>m_queue = content q\<rparr>) (sw_queues (ch_world ch) q)"
  by (simp_all add: chain_view_def)

lemma sys_view_same [simp]:
  "sy_tm (sys_view content outbox places s) = sy_tm s" "sy_main (sys_view content outbox places s) = sy_main s"
  "sy_place (sys_view content outbox places s) = places"
  "sy_chain (sys_view content outbox places s) = chain_view content outbox (sy_chain s)"
  by (simp_all add: sys_view_def)

lemma drop_unmanaged_view: "drop_unmanaged (sys_view content outbox places s) = sys_view content outbox places (drop_unmanaged s)"
  by (simp add: drop_unmanaged_def sys_view_def chain_view_def fun_eq_iff)

lemma main_step_view:
  assumes "acting a = None"
  shows "sys_step a (sys_view content outbox places s) = map_sum id (sys_view content outbox places) (sys_step a s)"
proof (cases a)
  case (AddNext ok)
  then show ?thesis by (auto simp: sys_add_def sys_view_def drop_unmanaged_def chain_view_def fun_eq_iff split: main_place.split list.split)
next
  case JoinNext
  then show ?thesis
    by (auto simp: sys_join_def sys_view_def drop_unmanaged_def chain_view_def fun_eq_iff split: main_place.split list.split option.split)
next
  case (RestartNext ok)
  then show ?thesis by (auto simp: sys_restart_def sys_view_def simp del: tm_restart_tasks.simps split: main_place.split list.split)
next
  case CallStop
  then show ?thesis by (simp add: sys_call_stop_def sys_view_def)
next
  case CallTerminate
  then show ?thesis by (simp add: sys_call_stop_def sys_view_def)
next
  case CallRestart
  then show ?thesis by (simp add: sys_call_restart_def sys_view_def)
next
  case (CallCommand cmd)
  then show ?thesis by (auto simp: sys_call_command_def sys_view_def chain_view_def split: sum.split)
qed (use assms in simp_all)


lemma main_step_same:
  assumes "acting a = None" and "sys_step a s = Inr s'"
  shows "ch_outbox (sy_chain s') = ch_outbox (sy_chain s)" and "sy_place s' = sy_place s"
  using assms
  by (cases a; auto simp: sys_add_def sys_join_def sys_restart_def sys_call_stop_def sys_call_restart_def
      sys_call_command_def split: main_place.splits list.splits option.splits if_splits sum.splits)+

text \<open>The main thread leaves a thread that is in \<open>run\<close> there.\<close>

lemma start_keeps_run:
  assumes "wb_inv w" and "wb_phase w = InRun tok"
  shows "wb_start ready spawn_ok ext w = (False, w)"
  using assms by (simp add: wb_start_def wb_inv_def)

lemma main_step_run:
  assumes "acting a = None" and "sys_step a s = Inr s'" and inv: "inv_workers s"
    and run: "wb_phase (worker s v) = InRun tok"
  shows "wb_phase (worker s' v) = InRun tok"
proof -
  have wb: "wb_inv (worker s v)" using inv by (simp add: inv_workers_def)
  have busy: "wb_isRunning (worker s v)" using wb run by (simp add: wb_inv_def wb_isRunning_def)
  show ?thesis
  proof (cases a)
    case (AddNext ok)
    show ?thesis
    proof (cases "sy_main s")
      case (Adding "is")
      with AddNext assms(2) run start_keeps_run [OF wb run] show ?thesis
        by (cases "is") (auto simp: sys_add_def tm_addTask_def tm_start_def split: prod.splits)
    qed (use AddNext assms(2) run in \<open>simp_all add: sys_add_def\<close>)
  next
    case JoinNext
    show ?thesis
    proof (cases "sy_main s")
      case (Joining clear "is")
      have "wb_join (worker s v) = None" using wb run by (simp add: wb_join_def wb_inv_def)
      with JoinNext Joining assms(2) run show ?thesis
        by (cases "is") (auto simp: sys_join_def split: option.splits if_splits)
    qed (use JoinNext assms(2) run in \<open>simp_all add: sys_join_def\<close>)
  next
    case (RestartNext ok)
    show ?thesis
    proof (cases "sy_main s")
      case (Restarting "is")
      with RestartNext assms(2) run busy show ?thesis
        by (cases "is") (auto simp: sys_restart_def tm_start_def split: prod.splits)
    qed (use RestartNext assms(2) run in \<open>simp_all add: sys_restart_def\<close>)
  qed (use assms run in \<open>auto simp: sys_call_stop_def sys_call_restart_def sys_call_command_def split: if_splits sum.splits\<close>)
qed

text \<open>The steps of a thread between its calls.\<close>

lemma chain_tick_view:
  "chain_tick t (chain_view content outbox ch) =
     map_sum id (\<lambda>ch'. chain_view content (outbox(OI := ch_outbox ch' OI)) ch') (chain_tick t ch)"
  by (auto simp: chain_tick_def split: sum.split option.split prod.split) (simp add: chain_view_def)

lemma chain_step_tick_view:
  assumes "outbox OI = ch_outbox ch OI"
  shows "chain_step (Tick t) (chain_view content outbox ch) =
    map_sum id (\<lambda>ch'. chain_view content (outbox(OI := ch_outbox ch' OI)) ch') (chain_step (Tick t) ch)"
proof -
  have "outbox(OI := ch_outbox ch OI) = outbox" using assms by auto
  then show ?thesis using assms by (simp add: chain_tick_view)
qed

lemma fresh_locals_view: "fresh_locals u (chain_view content outbox ch) = chain_view content outbox (fresh_locals u ch)"
  by (cases u) (simp_all add: fresh_locals_def chain_view_def)

lemma fn_at_outside: "fn_at f u = NoCall \<Longrightarrow> fn_outbox f u = ch_outbox (sy_chain (fn_sys f)) u \<and> fn_loop f u = sy_place (fn_sys f) u"
  by (simp add: fn_outbox_def fn_loop_def has_pushed_def)

lemma fn_abs_update:
  assumes "fn_outbox (f\<lparr>fn_sys := s'\<rparr>) = outbox" and "fn_loop (f\<lparr>fn_sys := s'\<rparr>) = places"
  shows "fn_abs (f\<lparr>fn_sys := s'\<rparr>) = sys_view (fn_content f) outbox places s'"
proof -
  have "fn_content (f\<lparr>fn_sys := s'\<rparr>) = fn_content f" by (simp add: fn_content_def fun_eq_iff)
  with assms show ?thesis by (simp add: fn_abs_def)
qed

lemma fn_outbox_update:
  assumes "\<And>v. v \<noteq> u \<Longrightarrow> ch_outbox (sy_chain s') v = ch_outbox (sy_chain (fn_sys f)) v" and "fn_at f u = NoCall"
  shows "fn_outbox (f\<lparr>fn_sys := s'\<rparr>) = (fn_outbox f)(u := ch_outbox (sy_chain s') u)"
  using assms by (auto simp: fn_outbox_def has_pushed_def fun_eq_iff)

lemma fn_loop_update:
  assumes "\<And>v. v \<noteq> u \<Longrightarrow> sy_place s' v = sy_place (fn_sys f) v" and "fn_at f u = NoCall"
  shows "fn_loop (f\<lparr>fn_sys := s'\<rparr>) = (fn_loop f)(u := sy_place s' u)"
  using assms by (auto simp: fn_loop_def fun_eq_iff)

lemma plain_step_abs:
  assumes "plain a" and free: "\<And>u. acting a = Some u \<Longrightarrow> fn_at f u = NoCall"
  shows "sys_step a (fn_abs f) = map_sum id (\<lambda>s. fn_abs (f\<lparr>fn_sys := s\<rparr>)) (sys_step a (fn_sys f))"
proof (cases "acting a")
  case None
  have "sys_view (fn_content f) (fn_outbox f) (fn_loop f) s' = fn_abs (f\<lparr>fn_sys := s'\<rparr>)" if "sys_step a (fn_sys f) = Inr s'" for s'
    by (subst fn_abs_update [where outbox = "fn_outbox f" and places = "fn_loop f"])
      (use main_step_same [OF None that] in \<open>auto simp: fn_outbox_def has_pushed_def fn_loop_def fun_eq_iff\<close>)
  with main_step_view [OF None] show ?thesis by (cases "sys_step a (fn_sys f)") (simp_all add: fn_abs_def)
next
  case (Some u)
  note out = fn_at_outside [OF free [OF Some]]
  have view: "fn_abs (f\<lparr>fn_sys := s'\<rparr>) =
      sys_view (fn_content f) ((fn_outbox f)(u := ch_outbox (sy_chain s') u)) ((fn_loop f)(u := sy_place s' u)) s'"
    if "\<And>v. v \<noteq> u \<Longrightarrow> ch_outbox (sy_chain s') v = ch_outbox (sy_chain (fn_sys f)) v"
      "\<And>v. v \<noteq> u \<Longrightarrow> sy_place s' v = sy_place (fn_sys f) v" for s'
    by (rule fn_abs_update) (use fn_outbox_update fn_loop_update that free [OF Some] in blast)+
  have same: "(fn_outbox f)(u := ch_outbox (sy_chain (fn_sys f)) u) = fn_outbox f"
    "(fn_loop f)(u := sy_place (fn_sys f) u) = fn_loop f" using out by (auto simp: fun_eq_iff)
  show ?thesis
  proof (cases a)
    case (Begin v)
    with Some have v: "v = u" by simp
    have "sys_begin u (fn_abs f) = fn_abs (f\<lparr>fn_sys := sys_begin u (fn_sys f)\<rparr>)"
      by (subst view; (simp add: sys_begin_def split: phase.split)?)
        (use out same in \<open>auto simp: fn_abs_def sys_begin_def fresh_locals_view sys_view_def split: phase.split\<close>)
    with Begin v show ?thesis by simp
  next
    case (Test v)
    with Some have v: "v = u" by simp
    have "sys_test u (fn_abs f) = fn_abs (f\<lparr>fn_sys := sys_test u (fn_sys f)\<rparr>)"
      by (subst view; (simp add: sys_test_def split: phase.split)?)
        (use out same in \<open>auto simp: fn_abs_def sys_test_def sys_view_def split: phase.split\<close>)
    with Test v show ?thesis by simp
  next
    case (Finish v)
    with Some have v: "v = u" by simp
    have "sys_finish u (fn_abs f) = fn_abs (f\<lparr>fn_sys := sys_finish u (fn_sys f)\<rparr>)"
      by (subst view; (simp add: sys_finish_def)?) (use same in \<open>simp add: fn_abs_def sys_finish_def sys_view_def\<close>)
    with Finish v show ?thesis by simp
  next
    case (Loop v t now)
    with Some assms(1) have v: "v = OI" "u = OI" by simp_all
    have "sys_loop OI t now (fn_abs f) = map_sum id (\<lambda>s. fn_abs (f\<lparr>fn_sys := s\<rparr>)) (sys_loop OI t now (fn_sys f))"
    proof (cases "\<exists>tok. wb_phase (worker (fn_sys f) OI) = InRun tok \<and> sy_place (fn_sys f) OI = AtWait")
      case True
      then obtain tok where run: "wb_phase (worker (fn_sys f) OI) = InRun tok" "sy_place (fn_sys f) OI = AtWait" by blast
      note tick = chain_step_tick_view [of "fn_outbox f" "sy_chain (fn_sys f)" t "fn_content f"]
      show ?thesis
      proof (cases "chain_step (Tick t) (sy_chain (fn_sys f))")
        case (Inl fault)
        with run tick out v show ?thesis by (simp add: sys_loop_def fn_abs_def del: chain_step.simps)
      next
        case (Inr ch)
        have "fn_abs (f\<lparr>fn_sys := set_place OI AtTest (fn_sys f)\<lparr>sy_chain := ch\<rparr>\<rparr>) =
            sys_view (fn_content f) ((fn_outbox f)(OI := ch_outbox ch OI)) ((fn_loop f)(OI := AtTest))
              (set_place OI AtTest (fn_sys f)\<lparr>sy_chain := ch\<rparr>)"
          by (subst view) (use chain_step_outbox [OF Inr] v in auto)
        with Inr run tick out v show ?thesis
          by (simp add: sys_loop_def fn_abs_def sys_view_def del: chain_step.simps)
      qed
    next
      case False
      with out v show ?thesis by (auto simp: sys_loop_def fn_abs_def split: phase.split)
    qed
    with Loop v show ?thesis by simp
  qed (use assms Some in simp_all)
qed


subsection \<open>Invariant\<close>

definition thread_ok :: "fine \<Rightarrow> tid \<Rightarrow> bool" where
  "thread_ok f u \<longleftrightarrow> (\<forall>q. \<not> in_queue f u q \<longrightarrow> fn_place f q u = NotCalled) \<and>
     (\<forall>q. fn_at f u = Sending q \<longrightarrow>
        (\<exists>m. sends_to f u m q \<and> (fn_place f q u = Called (MqPush (Some m)) \<or> fn_place f q u = Effected MqDone))) \<and>
     (fn_at f u = Taking \<longrightarrow> waits f u \<and> ch_outbox (sy_chain (fn_sys f)) u = [] \<and>
        (fn_place f u u = Called MqWaitFor \<or> (\<exists>r. fn_place f u u = Effected (MqPopped r))))"

definition fine_ok :: "fine \<Rightarrow> bool" where
  "fine_ok f \<longleftrightarrow> (\<forall>u. thread_ok f u) \<and> (\<forall>q. None \<notin> set (mo_items (fn_mon f q)))"

lemma start_fine_ok: "fine_ok (fine_start oi)"
  by (simp add: fine_ok_def thread_ok_def in_queue_def fine_start_def mo_place_def mo_start_def mq_new_def)

lemma start_abs: "fn_abs (fine_start oi) = sys_start oi"
proof -
  have "(\<lambda>q. map_option (\<lambda>_. \<lparr>m_queue = []\<rparr>) (Some mq_new)) = (\<lambda>_ :: tid. Some (mq_new :: payload MessageQueue))"
    by (simp add: mq_new_def)
  then have "fn_content (fine_start oi) = (\<lambda>_. [])" "fn_outbox (fine_start oi) = (\<lambda>_. [])" "fn_loop (fine_start oi) = (\<lambda>_. AtTest)"
    by (simp_all add: fun_eq_iff fine_start_def fn_content_def fn_outbox_def has_pushed_def fn_loop_def mo_place_def mo_start_def
        mq_new_def sys_start_def initTestChain_def)
  then show ?thesis
    by (simp add: fn_abs_def sys_view_def chain_view_def) (simp add: fine_start_def sys_start_def initTestChain_def mq_new_def)
qed

text \<open>What the other threads see of a step of a thread in one monitor.\<close>

lemma thread_ok_frame:
  assumes "thread_ok f v" and "fn_at f' v = fn_at f v" and "\<And>q. fn_place f' q v = fn_place f q v"
    and "\<And>tok. wb_phase (worker (fn_sys f) v) = InRun tok \<Longrightarrow> wb_phase (worker (fn_sys f') v) = InRun tok"
    and "fn_at f v \<noteq> NoCall \<Longrightarrow> ch_outbox (sy_chain (fn_sys f')) v = ch_outbox (sy_chain (fn_sys f)) v \<and>
      sy_place (fn_sys f') v = sy_place (fn_sys f) v"
  shows "thread_ok f' v"
proof -
  have sends: "sends_to f' v m q" if "sends_to f v m q" "fn_at f v = Sending q" for m q
    using that assms(4,5) by (auto simp: sends_to_def)
  have "waits f' v \<and> ch_outbox (sy_chain (fn_sys f')) v = []"
    if "waits f v" "ch_outbox (sy_chain (fn_sys f)) v = []" "fn_at f v = Taking"
    using that assms(4,5) by (auto simp: waits_def)
  moreover have "\<exists>m. sends_to f' v m q \<and> (fn_place f' q v = Called (MqPush (Some m)) \<or> fn_place f' q v = Effected MqDone)"
    if "fn_at f v = Sending q" for q
    using assms(1,3) sends that unfolding thread_ok_def by metis
  ultimately show ?thesis using assms(1-3) by (auto simp: thread_ok_def in_queue_def)
qed

lemma other_places:
  assumes "mo_step (thread_number u) (fn_mon f q) m'" and "v \<noteq> u"
  shows "mo_place m' (thread_number v) = fn_place f q v"
  using mq_calls.others_stay [OF assms(1), of "thread_number v"] assms(2) by simp

subsection \<open>Simulation\<close>

definition matches :: "sys_action option \<Rightarrow> sys_action \<Rightarrow> bool" where
  "matches l a \<longleftrightarrow> l = Some a \<or> l = None \<and> \<not> generates a \<and> acting a \<noteq> None"

definition simulated :: "fine \<Rightarrow> sys_action option \<Rightarrow> fine \<Rightarrow> bool" where
  "simulated f l f' \<longleftrightarrow> fine_ok f' \<and>
     (l = None \<and> fn_abs f' = fn_abs f \<or> (\<exists>a. matches l a \<and> sys_step a (fn_abs f) = Inr (fn_abs f')))"

lemma abs_workers: "sys_inv (fn_abs f) \<Longrightarrow> inv_workers (fn_sys f)"
  by (simp add: sys_inv_def inv_workers_def fn_abs_def)

lemma thread_step_same:
  assumes "acting a = Some u" and "plain a" and "sys_step a s = Inr s'" and "v \<noteq> u"
  shows "worker s' v = worker s v \<and> ch_outbox (sy_chain s') v = ch_outbox (sy_chain s) v \<and> sy_place s' v = sy_place s v"
proof (cases a)
  case (Loop w t now)
  with assms have "v \<noteq> OI" by simp
  with Loop assms show ?thesis
    using chain_step_outbox [of "Tick t" "sy_chain s"]
    by (auto simp: sys_loop_def simp del: chain_step.simps split: phase.splits if_splits sum.splits)
qed (use assms in \<open>auto simp: sys_begin_def sys_test_def sys_finish_def split: phase.splits\<close>)

lemma simulated_plain:
  assumes ok: "fine_ok f" and inv: "sys_inv (fn_abs f)" and "plain a"
    and free: "\<And>u. acting a = Some u \<Longrightarrow> fn_at f u = NoCall" and step: "sys_step a (fn_sys f) = Inr s'"
  shows "simulated f (Some a) (f\<lparr>fn_sys := s'\<rparr>)"
proof -
  have "thread_ok (f\<lparr>fn_sys := s'\<rparr>) v" for v
  proof (cases "acting a = Some v")
    case True
    with free ok show ?thesis by (auto simp: fine_ok_def thread_ok_def in_queue_def)
  next
    case False
    have "thread_ok f v" using ok by (simp add: fine_ok_def)
    then show ?thesis
    proof (rule thread_ok_frame)
      show "wb_phase (worker (fn_sys (f\<lparr>fn_sys := s'\<rparr>)) v) = InRun tok" if "wb_phase (worker (fn_sys f) v) = InRun tok" for tok
        using main_step_run [OF _ step abs_workers [OF inv] that] thread_step_same [OF _ assms(3) step, of _ v] False that
        by (cases "acting a") auto
      show "ch_outbox (sy_chain (fn_sys (f\<lparr>fn_sys := s'\<rparr>))) v = ch_outbox (sy_chain (fn_sys f)) v \<and>
          sy_place (fn_sys (f\<lparr>fn_sys := s'\<rparr>)) v = sy_place (fn_sys f) v"
        using main_step_same [OF _ step] thread_step_same [OF _ assms(3) step, of _ v] False by (cases "acting a") auto
    qed simp_all
  qed
  with ok have "fine_ok (f\<lparr>fn_sys := s'\<rparr>)" by (simp add: fine_ok_def)
  moreover have "sys_step a (fn_abs f) = Inr (fn_abs (f\<lparr>fn_sys := s'\<rparr>))"
    using plain_step_abs [OF assms(3) free] step by simp
  ultimately show ?thesis by (auto simp: simulated_def matches_def)
qed

text \<open>A step of one thread in one monitor, with what it changes of the caller.\<close>

definition moved :: "tid \<Rightarrow> in_call \<Rightarrow> tid \<Rightarrow> payload monitor \<Rightarrow> system \<Rightarrow> fine \<Rightarrow> fine" where
  "moved u c q m' s f = \<lparr>fn_sys = s, fn_mon = (fn_mon f)(q := m'), fn_at = (fn_at f)(u := c)\<rparr>"

lemma moved_fields [simp]:
  "fn_sys (moved u c q m' s f) = s" "fn_mon (moved u c q m' s f) = (fn_mon f)(q := m')"
  "fn_at (moved u c q m' s f) = (fn_at f)(u := c)"
  by (simp_all add: moved_def)

lemma moved_stay: "fn_at f u = c \<Longrightarrow> moved u c q m' (fn_sys f) f = set_mon q m' f"
  by (cases f) (auto simp: moved_def fun_upd_idem)

definition same_but :: "tid \<Rightarrow> system \<Rightarrow> system \<Rightarrow> bool" where
  "same_but u s s' \<longleftrightarrow> sy_tm s' = sy_tm s \<and>
     (\<forall>v. v \<noteq> u \<longrightarrow> ch_outbox (sy_chain s') v = ch_outbox (sy_chain s) v \<and> sy_place s' v = sy_place s v)"

lemma same_but_refl [simp]: "same_but u s s"
  by (simp add: same_but_def)

lemma moved_ok:
  assumes ok: "fine_ok f" and others: "\<And>v. v \<noteq> u \<Longrightarrow> mo_place m' (thread_number v) = fn_place f q v"
    and items: "None \<notin> set (mo_items m')" and same: "same_but u (fn_sys f) s'"
    and self: "thread_ok (moved u c q m' s' f) u"
  shows "fine_ok (moved u c q m' s' f)"
proof -
  have "thread_ok (moved u c q m' s' f) v" if "v \<noteq> u" for v
  proof -
    have "thread_ok f v" using ok by (simp add: fine_ok_def)
    then show ?thesis
      by (rule thread_ok_frame) (use that others same in \<open>auto simp: same_but_def\<close>)
  qed
  with self have "thread_ok (moved u c q m' s' f) v" for v by (cases "v = u") auto
  with ok items show ?thesis by (simp add: fine_ok_def)
qed

lemma moved_abs:
  assumes others: "\<And>v. v \<noteq> u \<Longrightarrow> mo_place m' (thread_number v) = fn_place f q v" and same: "same_but u (fn_sys f) s'"
  shows "fn_abs (moved u c q m' s' f) =
    sys_view ((fn_content f)(q := popped (mo_place m' (thread_number q)) @ mo_items m'))
      ((fn_outbox f)(u := fn_outbox (moved u c q m' s' f) u)) ((fn_loop f)(u := fn_loop (moved u c q m' s' f) u)) s'"
proof -
  have "fn_content (moved u c q m' s' f) = (fn_content f)(q := popped (mo_place m' (thread_number q)) @ mo_items m')"
    by (auto simp: fn_content_def fun_eq_iff)
  moreover have "fn_outbox (moved u c q m' s' f) v = fn_outbox f v" "fn_loop (moved u c q m' s' f) v = fn_loop f v"
    if "v \<noteq> u" for v
    using that others [OF that] same by (auto simp: fn_outbox_def has_pushed_def fn_loop_def same_but_def)
  then have "fn_outbox (moved u c q m' s' f) = (fn_outbox f)(u := fn_outbox (moved u c q m' s' f) u)"
    "fn_loop (moved u c q m' s' f) = (fn_loop f)(u := fn_loop (moved u c q m' s' f) u)"
    by (simp_all add: fun_eq_iff)
  ultimately show ?thesis unfolding fn_abs_def by simp
qed

text \<open>What is seen of the queue where the step changes no element.\<close>

lemma moved_content:
  assumes "\<And>v. v \<noteq> u \<Longrightarrow> mo_place m' (thread_number v) = fn_place f q v"
    and "popped (mo_place m' (thread_number u)) = popped (fn_place f q u)" and "mo_items m' = mo_items (fn_mon f q)"
  shows "(fn_content f)(q := popped (mo_place m' (thread_number q)) @ mo_items m') = fn_content f"
  using assms by (cases "u = q") (auto simp: fn_content_def fun_eq_iff)

lemma moved_stutters:
  assumes ok: "fine_ok f" and others: "\<And>v. v \<noteq> u \<Longrightarrow> mo_place m' (thread_number v) = fn_place f q v"
    and kept: "popped (mo_place m' (thread_number u)) = popped (fn_place f q u)" "mo_items m' = mo_items (fn_mon f q)"
    and self: "thread_ok (moved u c q m' (fn_sys f) f) u"
    and seen: "fn_outbox (moved u c q m' (fn_sys f) f) u = fn_outbox f u" "fn_loop (moved u c q m' (fn_sys f) f) u = fn_loop f u"
  shows "simulated f None (moved u c q m' (fn_sys f) f)"
proof -
  have "fn_abs (moved u c q m' (fn_sys f) f) = fn_abs f"
    by (subst moved_abs [OF others]) (simp_all add: moved_content [OF others kept] seen fn_abs_def)
  moreover have "None \<notin> set (mo_items m')" using ok kept by (simp add: fine_ok_def)
  ultimately show ?thesis using moved_ok [OF ok others _ _ self] by (simp add: simulated_def)
qed


lemma place_goto [simp]:
  "mo_place (mo_goto t pc m) t' = (if t' = t then mo_call pc else mo_place m t')"
  by (simp add: mo_place_def)

lemma outside_places: "fine_ok f \<Longrightarrow> fn_at f u = NoCall \<Longrightarrow> fn_place f q u = NotCalled"
  by (simp add: fine_ok_def thread_ok_def in_queue_def)

lemma simulated_send:
  assumes ok: "fine_ok f" and at: "fn_at f u = NoCall" and sends: "sends_to f u m q"
  shows "simulated f None (set_at u (Sending q) (set_mon q (mo_goto (thread_number u) (PushEnter (Some m)) (fn_mon f q)) f))"
proof -
  let ?m = "mo_goto (thread_number u) (PushEnter (Some m)) (fn_mon f q)"
  let ?f = "moved u (Sending q) q ?m (fn_sys f) f"
  note outside = outside_places [OF ok at]
  have "sends_to ?f u m q" using sends by (simp add: sends_to_def)
  with outside have self: "thread_ok ?f u" by (auto simp: thread_ok_def in_queue_def)
  have "fn_outbox ?f u = fn_outbox f u" "fn_loop ?f u = fn_loop f u"
    using at by (simp_all add: fn_outbox_def has_pushed_def fn_loop_def)
  with outside have "simulated f None ?f" by (intro moved_stutters [OF ok _ _ _ self]) simp_all
  moreover have "?f = set_at u (Sending q) (set_mon q ?m f)" by (simp add: moved_def)
  ultimately show ?thesis by simp
qed

lemma simulated_wait:
  assumes ok: "fine_ok f" and inv: "sys_inv (fn_abs f)" and at: "fn_at f u = NoCall" and waits: "waits f u"
  shows "simulated f None (set_at u Taking (set_mon u (mo_goto (thread_number u) (PopEnter (WaitFor False)) (fn_mon f u)) f))"
proof -
  let ?m = "mo_goto (thread_number u) (PopEnter (WaitFor False)) (fn_mon f u)"
  let ?f = "moved u Taking u ?m (fn_sys f) f"
  note outside = outside_places [OF ok at]
  have "fn_loop f u = AtWait" using at waits by (simp add: fn_loop_def waits_def)
  with inv have "fn_outbox f u = []" by (auto simp: sys_inv_def inv_outbox_def fn_abs_def)
  then have "ch_outbox (sy_chain (fn_sys f)) u = []" using at by (simp add: fn_outbox_def has_pushed_def)
  with waits outside have self: "thread_ok ?f u" by (auto simp: thread_ok_def in_queue_def waits_def)
  have "fn_outbox ?f u = fn_outbox f u" "fn_loop ?f u = fn_loop f u"
    using at by (simp_all add: fn_outbox_def has_pushed_def fn_loop_def)
  with outside have "simulated f None ?f" by (intro moved_stutters [OF ok _ _ _ self]) simp_all
  moreover have "?f = set_at u Taking (set_mon u ?m f)" by (simp add: moved_def)
  ultimately show ?thesis by simp
qed

text \<open>The effect of a push is the send.\<close>

lemma flush_view:
  assumes "outbox u = (sd, m) # rest" and "messageQueuePtr sd = Some q" and "sw_queues (ch_world ch) q \<noteq> None"
  shows "chain_step (Flush u) (chain_view content outbox ch) =
    Inr (chain_view (content(q := content q @ [Some m])) (outbox(u := rest)) ch)"
  using assms
  by (auto simp: Send_def ensureQueueAvailable_def push_to_def no_hook_def mq_push_ptr_def chain_view_def fun_eq_iff
      split: option.split)

lemma simulated_push:
  assumes ok: "fine_ok f" and at: "fn_at f u = Sending q" and ex: "queue_exists f q" and sends: "sends_to f u m q"
    and others: "\<And>v. v \<noteq> u \<Longrightarrow> mo_place m' (thread_number v) = fn_place f q v"
    and before: "fn_place f q u = Called (MqPush (Some m))" and after: "mo_place m' (thread_number u) = Effected MqDone"
    and items: "mo_items m' = mo_items (fn_mon f q) @ [Some m]"
  shows "simulated f None (set_mon q m' f)"
proof -
  let ?f = "moved u (Sending q) q m' (fn_sys f) f"
  from sends obtain tok sd rest where run: "wb_phase (worker (fn_sys f) u) = InRun tok"
    and ob: "ch_outbox (sy_chain (fn_sys f)) u = (sd, m) # rest" "messageQueuePtr sd = Some q" by (auto simp: sends_to_def)
  have "sends_to ?f u m q" using sends by (simp add: sends_to_def)
  moreover have "thread_ok f u" using ok by (simp add: fine_ok_def)
  ultimately have self: "thread_ok ?f u" using at after by (auto simp: thread_ok_def in_queue_def)
  have "None \<notin> set (mo_items m')" using ok items by (simp add: fine_ok_def)
  then have ok': "fine_ok ?f" using moved_ok [OF ok others _ _ self] by simp
  have content: "(fn_content f)(q := popped (mo_place m' (thread_number q)) @ mo_items m') =
      (fn_content f)(q := fn_content f q @ [Some m])"
    using others items before after by (cases "u = q") (auto simp: fn_content_def)
  have "fn_outbox ?f u = rest" "fn_loop ?f u = fn_loop f u"
    using at after ob by (auto simp: fn_outbox_def has_pushed_def fn_loop_def)
  then have abs: "fn_abs ?f = sys_view ((fn_content f)(q := fn_content f q @ [Some m])) ((fn_outbox f)(u := rest)) (fn_loop f) (fn_sys f)"
    by (subst moved_abs [OF others]) (simp_all add: content)
  have "fn_outbox f u = (sd, m) # rest" using at before ob by (simp add: fn_outbox_def has_pushed_def)
  from flush_view [where content = "fn_content f" and outbox = "fn_outbox f" and ch = "sy_chain (fn_sys f)", OF this ob(2)] ex
  have "sys_step (SendNext u) (fn_abs f) = Inr (fn_abs ?f)"
    unfolding abs using run
    by (simp add: sys_send_def fn_abs_def queue_exists_def sys_view_def del: chain_step.simps)
  with ok' have "simulated f None ?f" by (auto simp: simulated_def matches_def intro: exI [of _ "SendNext u"])
  moreover have "?f = set_mon q m' f" using at by (rule moved_stay)
  ultimately show ?thesis by simp
qed

text \<open>A wait that gives up is a wait that found nothing.\<close>

lemma handle_nothing: "ch_outbox ch u = [] \<Longrightarrow> chain_handle u now None ch = Inr ch"
  by (cases u) (simp_all add: chain_handle_def ao_iteration_def pt_iteration_def tt_iteration_def rt_iteration_def
      pointer_cast_def fun_upd_idem)

lemma take_nothing:
  assumes "outbox u = []" and "content u = []" and "sw_queues (ch_world ch) u \<noteq> None" and "u \<noteq> OI"
  shows "chain_step (Take u now) (chain_view content outbox ch) = Inr (chain_view content outbox ch)"
proof -
  have "(\<lambda>q. map_option (\<lambda>_. \<lparr>m_queue = content q\<rparr>) (sw_queues (ch_world ch) q))(u \<mapsto> \<lparr>m_queue = []\<rparr>) =
      (\<lambda>q. map_option (\<lambda>_. \<lparr>m_queue = content q\<rparr>) (sw_queues (ch_world ch) q))"
    using assms(2,3) by (auto simp: fun_eq_iff)
  with assms show ?thesis
    by (auto simp: chain_take_def mq_pop_def handle_nothing) (simp add: chain_view_def)
qed


lemma taking_facts:
  assumes "fine_ok f" and "fn_at f u = Taking"
  obtains tok where "wb_phase (worker (fn_sys f) u) = InRun tok" and "sy_place (fn_sys f) u = AtWait" and "u \<noteq> OI"
    and "ch_outbox (sy_chain (fn_sys f)) u = []" and "fn_outbox f u = []" and "waits f u"
  using assms by (auto simp: fine_ok_def thread_ok_def waits_def fn_outbox_def has_pushed_def)

lemma simulated_give_up:
  assumes ok: "fine_ok f" and at: "fn_at f u = Taking" and ex: "queue_exists f u"
    and others: "\<And>v. v \<noteq> u \<Longrightarrow> mo_place m' (thread_number v) = fn_place f u v"
    and before: "fn_place f u u = Called MqWaitFor" and after: "mo_place m' (thread_number u) = Effected (MqPopped None)"
    and items: "mo_items m' = []" "mo_items (fn_mon f u) = []"
  shows "simulated f None (set_mon u m' f)"
proof -
  let ?f = "moved u Taking u m' (fn_sys f) f"
  obtain tok where run: "wb_phase (worker (fn_sys f) u) = InRun tok" and wait: "sy_place (fn_sys f) u = AtWait" "u \<noteq> OI"
    and ob: "ch_outbox (sy_chain (fn_sys f)) u = []" "fn_outbox f u = []" and waits: "waits f u"
    using ok at by (rule taking_facts)
  have "waits ?f u" using waits by (simp add: waits_def)
  moreover have "thread_ok f u" using ok by (simp add: fine_ok_def)
  ultimately have self: "thread_ok ?f u" using at after ob(1) by (auto simp: thread_ok_def in_queue_def)
  have "None \<notin> set (mo_items m')" using items by simp
  then have ok': "fine_ok ?f" using moved_ok [OF ok others _ _ self] by simp
  have content: "fn_content f u = []" using before items by (simp add: fn_content_def)
  then have same: "(fn_content f)(u := popped (mo_place m' (thread_number u)) @ mo_items m') = fn_content f"
    using after items by (auto simp: fun_eq_iff)
  have "fn_outbox ?f u = fn_outbox f u" "fn_loop ?f u = AtTest"
    using at after by (auto simp: fn_outbox_def has_pushed_def fn_loop_def)
  then have abs: "fn_abs ?f = sys_view (fn_content f) (fn_outbox f) ((fn_loop f)(u := AtTest)) (fn_sys f)"
    by (subst moved_abs [OF others]) (simp_all add: same)
  have "fn_loop f u = AtWait" using wait before by (simp add: fn_loop_def)
  with take_nothing [where outbox = "fn_outbox f" and content = "fn_content f", OF ob(2) content _ wait(2)] ex
  have "sys_step (Loop u (readings_at 0) 0) (fn_abs f) = Inr (fn_abs ?f)"
    unfolding abs using run wait(2)
    by (simp add: sys_loop_def fn_abs_def queue_exists_def sys_view_def del: chain_step.simps)
  with ok' wait(2) have "simulated f None ?f"
    by (auto simp: simulated_def matches_def intro: exI [of _ "Loop u (readings_at 0) 0"])
  moreover have "?f = set_mon u m' f" using at by (rule moved_stay)
  ultimately show ?thesis by simp
qed

text \<open>A step inside a call: nothing that is seen, the effect of a push, or that of a wait.\<close>

lemma simulated_inside:
  assumes ok: "fine_ok f" and inq: "in_queue f u q" and ex: "queue_exists f q"
    and step: "mo_step (thread_number u) (fn_mon f q) m'" and stays: "mo_place m' (thread_number u) \<noteq> NotCalled"
  shows "simulated f None (set_mon q m' f)"
proof -
  have tok: "thread_ok f u" using ok by (simp add: fine_ok_def)
  have others: "\<And>v. v \<noteq> u \<Longrightarrow> mo_place m' (thread_number v) = fn_place f q v" using other_places [OF step] .
  have called: "fn_place f q u \<noteq> NotCalled" using tok inq by (auto simp: thread_ok_def in_queue_def)
  let ?c = "fn_at f u"
  have stutter: "simulated f None (set_mon q m' f)"
    if kept: "popped (mo_place m' (thread_number u)) = popped (fn_place f q u)" "mo_items m' = mo_items (fn_mon f q)"
      and self: "thread_ok (moved u ?c q m' (fn_sys f) f) u"
      and seen: "fn_outbox (moved u ?c q m' (fn_sys f) f) u = fn_outbox f u" "fn_loop (moved u ?c q m' (fn_sys f) f) u = fn_loop f u"
    using moved_stutters [OF ok others kept self seen] moved_stay [of f u ?c q m'] by simp
  from mq_calls.own_step [OF step] called stays consider (same) "mo_place m' (thread_number u) = fn_place f q u" "mo_items m' = mo_items (fn_mon f q)"
    | (effect) op r where "fn_place f q u = Called op" "mo_place m' (thread_number u) = Effected r"
        "mq_atomic op (mo_items (fn_mon f q)) = Some (r, mo_items m')"
    by auto
  then show ?thesis
  proof cases
    case same
    have places: "fn_place (moved u ?c q m' (fn_sys f) f) p v = fn_place f p v" for p v
      using same(1) others by (cases "p = q"; cases "v = u") auto
    from tok have "thread_ok (moved u ?c q m' (fn_sys f) f) u"
      by (rule thread_ok_frame) (use places in simp_all)
    moreover have "fn_outbox (moved u ?c q m' (fn_sys f) f) u = fn_outbox f u"
      "fn_loop (moved u ?c q m' (fn_sys f) f) u = fn_loop f u"
      using places by (auto simp: fn_outbox_def has_pushed_def fn_loop_def)
    ultimately show ?thesis using stutter same by simp
  next
    case effect
    show ?thesis
    proof (cases "?c = Taking")
      case True
      with inq have q: "q = u" by (simp add: in_queue_def)
      with True tok effect(1) have op: "op = MqWaitFor" by (auto simp: thread_ok_def)
      show ?thesis
      proof (cases "mo_items (fn_mon f u)")
        case Nil
        with effect op q simulated_give_up [OF ok True, of m'] ex others show ?thesis by simp
      next
        case (Cons x rest)
        have "None \<notin> set (mo_items (fn_mon f u))" using ok by (simp add: fine_ok_def)
        with Cons obtain m where x: "x = Some m" by (cases x) auto
        have after: "mo_place m' (thread_number u) = Effected (MqPopped (Some m))" "mo_items m' = rest"
          using effect op q Cons x by simp_all
        let ?f = "moved u Taking u m' (fn_sys f) f"
        obtain tok1 where w: "ch_outbox (sy_chain (fn_sys f)) u = []" "waits f u" using ok True by (rule taking_facts)
        then have "waits ?f u" by (simp add: waits_def)
        with w tok True after have self: "thread_ok ?f u" by (auto simp: thread_ok_def in_queue_def)
        have "None \<notin> set (mo_items m')" using ok Cons after by (auto simp: fine_ok_def dest: spec [of _ u])
        then have ok': "fine_ok ?f" using moved_ok [OF ok _ _ _ self] others q by simp
        have "(fn_content f)(u := popped (mo_place m' (thread_number u)) @ mo_items m') = fn_content f"
          using after Cons x effect(1) op q by (auto simp: fn_content_def fun_eq_iff)
        moreover have "fn_outbox ?f u = fn_outbox f u" "fn_loop ?f u = fn_loop f u"
          using True after effect(1) q by (simp_all add: fn_outbox_def has_pushed_def fn_loop_def)
        ultimately have "fn_abs ?f = fn_abs f"
          by (subst moved_abs) (use others q in \<open>simp_all add: fn_abs_def\<close>)
        with ok' moved_stay [OF True, of u m'] q show ?thesis by (simp add: simulated_def)
      qed
    next
      case False
      with inq have at: "fn_at f u = Sending q" by (auto simp: in_queue_def)
      with tok effect(1) obtain m where "sends_to f u m q" "op = MqPush (Some m)" by (auto simp: thread_ok_def)
      with effect simulated_push [OF ok at ex _ others] show ?thesis by simp
    qed
  qed
qed


text \<open>The return of a push is not seen; that of a wait is where the message is taken.\<close>

lemma sys_view_outbox [simp]:
  "sys_view content outbox places (s\<lparr>sy_chain := set_outbox u sends (sy_chain s)\<rparr>) = sys_view content outbox places s"
  "sys_view content outbox places (set_place u p s) = sys_view content outbox places s"
  by (simp_all add: sys_view_def chain_view_def)

lemma simulated_sent:
  assumes ok: "fine_ok f" and at: "fn_at f u = Sending q" and step: "mo_step (thread_number u) (fn_mon f q) m'"
    and after: "mo_place m' (thread_number u) = NotCalled"
  shows "simulated f None (sent u (set_at u NoCall (set_mon q m' f)))"
proof -
  have tok: "thread_ok f u" using ok by (simp add: fine_ok_def)
  have others: "\<And>v. v \<noteq> u \<Longrightarrow> mo_place m' (thread_number v) = fn_place f q v" using other_places [OF step] .
  from mq_calls.own_step [OF step] tok at after have before: "fn_place f q u = Effected MqDone"
    and items: "mo_items m' = mo_items (fn_mon f q)" by (auto simp: thread_ok_def)
  let ?s = "(fn_sys f)\<lparr>sy_chain := set_outbox u (tl (ch_outbox (sy_chain (fn_sys f)) u)) (sy_chain (fn_sys f))\<rparr>"
  let ?f = "moved u NoCall q m' ?s f"
  have same: "same_but u (fn_sys f) ?s" by (simp add: same_but_def)
  have self: "thread_ok ?f u" using tok at after by (auto simp: thread_ok_def in_queue_def)
  have "None \<notin> set (mo_items m')" using ok items by (simp add: fine_ok_def)
  then have ok': "fine_ok ?f" using moved_ok [OF ok others _ same self] by simp
  have "fn_outbox ?f u = fn_outbox f u" "fn_loop ?f u = fn_loop f u"
    using at before by (auto simp: fn_outbox_def has_pushed_def fn_loop_def)
  then have "fn_abs ?f = fn_abs f"
    by (subst moved_abs [OF others same]) (use before after items moved_content [OF others] in \<open>simp_all add: fn_abs_def\<close>)
  with ok' have "simulated f None ?f" by (simp add: simulated_def)
  moreover have "?f = sent u (set_at u NoCall (set_mon q m' f))" by (simp add: moved_def sent_def)
  ultimately show ?thesis by simp
qed

lemma handle_outbox:
  assumes "chain_handle u now r ch = Inr ch'" and "v \<noteq> u"
  shows "ch_outbox ch' v = ch_outbox ch v"
  using assms by (cases u) (auto simp: chain_handle_def split: option.splits prod.splits)

lemma handle_view:
  assumes "outbox u = ch_outbox ch u"
  shows "chain_handle u now r (chain_view content outbox ch) =
    map_sum id (\<lambda>ch'. chain_view content (outbox(u := ch_outbox ch' u)) ch') (chain_handle u now r ch)"
proof -
  have same: "outbox(u := ch_outbox ch u) = outbox" using assms by auto
  show ?thesis
  proof (cases u)
    case OI
    with same show ?thesis by (simp add: chain_handle_def)
  next
    case AO
    then show ?thesis by (auto simp: chain_handle_def split: option.split prod.split) (simp add: chain_view_def)
  next
    case PT
    then show ?thesis by (simp add: chain_handle_def) (simp add: chain_view_def)
  next
    case TT
    then show ?thesis by (simp add: chain_handle_def) (simp add: chain_view_def)
  next
    case RT
    with same show ?thesis by (auto simp: chain_handle_def split: option.split) (simp_all add: chain_view_def)
  qed
qed

lemma take_view:
  assumes "content u = x # rest" and "outbox u = []" and "ch_outbox ch u = []"
    and "sw_queues (ch_world ch) u \<noteq> None" and "u \<noteq> OI"
  shows "chain_step (Take u now) (chain_view content outbox ch) =
    map_sum id (\<lambda>ch'. chain_view (content(u := rest)) (outbox(u := ch_outbox ch' u)) ch') (chain_handle u now x ch)"
proof -
  have "(chain_view content outbox ch)\<lparr>ch_world := (ch_world (chain_view content outbox ch))
      \<lparr>sw_queues := (sw_queues (ch_world (chain_view content outbox ch)))(u \<mapsto> \<lparr>m_queue = rest\<rparr>)\<rparr>\<rparr> =
      chain_view (content(u := rest)) outbox ch"
    using assms(4) by (auto simp: chain_view_def fun_eq_iff)
  then have "chain_take u now (chain_view content outbox ch) = chain_handle u now x (chain_view (content(u := rest)) outbox ch)"
    using assms(1,4) by (auto simp: chain_take_def mq_pop_def)
  with assms handle_view [where outbox = outbox and content = "content(u := rest)" and ch = ch] show ?thesis by simp
qed

lemma taken_simulates:
  assumes ok: "fine_ok f" and at: "fn_at f u = Taking" and ex: "queue_exists f u"
    and step: "mo_step (thread_number u) (fn_mon f u) m'" and after: "mo_place m' (thread_number u) = NotCalled"
    and before: "fn_place f u u = Effected (MqPopped r)"
  shows "case taken u now r (set_at u NoCall (set_mon u m' f)) of
      Inl fault \<Rightarrow> \<exists>a. matches None a \<and> sys_step a (fn_abs f) = Inl fault
    | Inr f' \<Rightarrow> simulated f None f'"
proof -
  have tok: "thread_ok f u" using ok by (simp add: fine_ok_def)
  have others: "\<And>v. v \<noteq> u \<Longrightarrow> mo_place m' (thread_number v) = fn_place f u v" using other_places [OF step] .
  from mq_calls.own_step [OF step] before after have items: "mo_items m' = mo_items (fn_mon f u)" by auto
  obtain tok1 where run: "wb_phase (worker (fn_sys f) u) = InRun tok1" and wait: "sy_place (fn_sys f) u = AtWait" "u \<noteq> OI"
    and ob: "ch_outbox (sy_chain (fn_sys f)) u = []" "fn_outbox f u = []"
    using ok at by (rule taking_facts)
  let ?ch = "sy_chain (fn_sys f)"
  have loop: "sys_step (Loop u (readings_at 0) now) (fn_abs f) =
      map_sum id (\<lambda>ch'. sys_view ((fn_content f)(u := mo_items (fn_mon f u))) ((fn_outbox f)(u := ch_outbox ch' u))
        ((fn_loop f)(u := AtTest)) (set_place u AtTest (fn_sys f)\<lparr>sy_chain := ch'\<rparr>)) (chain_handle u now r ?ch)" if "r = Some m" for m
  proof -
    have "fn_content f u = r # mo_items (fn_mon f u)" using before that by (simp add: fn_content_def)
    note take = take_view [where content = "fn_content f" and u = u and outbox = "fn_outbox f" and ch = ?ch and now = now, OF this ob(2,1) _ wait(2)]
    have "fn_loop f u = AtWait" using wait before that by (simp add: fn_loop_def)
    with take ex run wait(2) show ?thesis
      by (cases "chain_handle u now r ?ch")
        (simp_all add: sys_loop_def fn_abs_def queue_exists_def sys_view_def del: chain_step.simps)
  qed
  show ?thesis
  proof (cases "chain_handle u now r ?ch")
    case (Inl fault)
    show ?thesis
    proof (cases r)
      case None
      with Inl handle_nothing [OF ob(1)] show ?thesis by simp
    next
      case (Some m)
      with loop Inl have "sys_step (Loop u (readings_at 0) now) (fn_abs f) = Inl fault" by simp
      moreover have "matches None (Loop u (readings_at 0) now)" using wait(2) by (simp add: matches_def)
      ultimately show ?thesis using Inl by (auto simp: taken_def)
    qed
  next
    case (Inr ch)
    let ?s = "set_place u AtTest (fn_sys f)\<lparr>sy_chain := ch\<rparr>"
    let ?f = "moved u NoCall u m' ?s f"
    have same: "same_but u (fn_sys f) ?s" using handle_outbox [OF Inr] by (simp add: same_but_def)
    have self: "thread_ok ?f u" using tok at after by (auto simp: thread_ok_def in_queue_def)
    have "None \<notin> set (mo_items m')" using ok items by (simp add: fine_ok_def)
    then have ok': "fine_ok ?f" using moved_ok [OF ok others _ same self] by simp
    have "fn_outbox ?f u = ch_outbox ch u" "fn_loop ?f u = AtTest"
      by (simp_all add: fn_outbox_def has_pushed_def fn_loop_def)
    then have abs: "fn_abs ?f = sys_view ((fn_content f)(u := mo_items (fn_mon f u))) ((fn_outbox f)(u := ch_outbox ch u))
        ((fn_loop f)(u := AtTest)) ?s"
      by (subst moved_abs [OF others same]) (use after items in simp_all)
    have "simulated f None ?f"
    proof (cases r)
      case None
      with Inr handle_nothing [OF ob(1)] have ch: "ch = ?ch" by simp
      have "(fn_content f)(u := mo_items (fn_mon f u)) = fn_content f" "(fn_outbox f)(u := ch_outbox ch u) = fn_outbox f"
        "(fn_loop f)(u := AtTest) = fn_loop f"
        using before None ob ch at by (auto simp: fn_content_def fn_loop_def fun_eq_iff)
      moreover have "sys_view content outbox places ?s = sys_view content outbox places (fn_sys f)" for content outbox places
        using ch by (simp add: sys_view_def)
      ultimately have "fn_abs ?f = fn_abs f" unfolding abs by (simp add: fn_abs_def)
      with ok' show ?thesis by (simp add: simulated_def)
    next
      case (Some m)
      with loop Inr abs have "sys_step (Loop u (readings_at 0) now) (fn_abs f) = Inr (fn_abs ?f)" by simp
      with ok' wait(2) show ?thesis
        by (auto simp: simulated_def matches_def intro: exI [of _ "Loop u (readings_at 0) now"])
    qed
    moreover have "taken u now r (set_at u NoCall (set_mon u m' f)) = Inr ?f"
      using Inr by (simp add: taken_def moved_def)
    ultimately show ?thesis by simp
  qed
qed

text \<open>A queue on which a thread is about to call or in a call exists.\<close>

lemma used_queue_exists:
  assumes ok: "fine_ok f" and inv: "sys_inv (fn_abs f)"
    and uses: "fn_at f u = NoCall \<and> sends_to f u m q \<or> fn_at f u = NoCall \<and> waits f u \<and> q = u \<or> in_queue f u q"
  shows "queue_exists f q"
proof -
  have "thread_ok f u" using ok by (simp add: fine_ok_def)
  with uses have "\<exists>tok. wb_phase (worker (fn_abs f) u) = InRun tok"
    by (auto simp: thread_ok_def in_queue_def sends_to_def waits_def fn_abs_def)
  then have "body_active (wb_phase (worker (fn_abs f) u))" by auto
  from active_whole [OF inv this] have "sw_queues (ch_world (sy_chain (fn_abs f))) q \<noteq> None"
    by (simp add: chain_inv_def inv_wired_def)
  then show ?thesis by (simp add: fn_abs_def queue_exists_def)
qed

lemma fine_simulation:
  assumes ok: "fine_ok f" and inv: "sys_inv (fn_abs f)" and step: "fine_step f l r"
  shows "case r of
      Inl fault \<Rightarrow> \<exists>a. matches l a \<and> sys_step a (fn_abs f) = Inl fault
    | Inr f' \<Rightarrow> simulated f l f'"
  using step
proof (rule fine_stepE, goal_cases)
  case (1 a)
  show ?case
  proof (cases "sys_step a (fn_sys f)")
    case (Inl fault)
    with plain_step_abs [of a f] 1 show ?thesis by (auto simp: matches_def)
  next
    case (Inr s)
    with simulated_plain [OF ok inv 1(3) 1(4) Inr] 1 show ?thesis by simp
  qed
next
  case (2 u m q)
  with simulated_send [OF ok] show ?case by simp
next
  case (3 u)
  with simulated_wait [OF ok inv] show ?case by simp
next
  case (4 u q m')
  with simulated_inside [OF ok] show ?case by simp
next
  case (5 u q m')
  with simulated_sent [OF ok] show ?case by simp
next
  case (6 u m' r' now)
  from taken_simulates [OF ok 6(3-7)] show ?case unfolding 6(1,2) by simp
next
  case (7 u m q)
  with used_queue_exists [OF ok inv] show ?case by blast
qed


subsection \<open>Runs\<close>

definition loops :: "sys_action option list \<Rightarrow> nat" where
  "loops ls = length (filter (\<lambda>l. case l of None \<Rightarrow> False | Some a \<Rightarrow> generates a) ls)"

lemma loops_snoc: "loops (ls @ [l]) = loops ls + (case l of None \<Rightarrow> 0 | Some a \<Rightarrow> if generates a then 1 else 0)"
  by (simp add: loops_def split: option.split)

definition refined_by :: "Observer \<Rightarrow> sys_action option list \<Rightarrow> fine \<Rightarrow> sys_action list \<Rightarrow> bool" where
  "refined_by oi ls f as \<longleftrightarrow> AddNext False \<notin> set as \<and> sys_exec as (sys_start oi) = Inr (fn_abs f) \<and>
     length (filter generates as) = loops ls"

lemma matches_loops:
  "matches l a \<Longrightarrow> (case l of None \<Rightarrow> 0 | Some a \<Rightarrow> if generates a then 1 else 0) = (if generates a then 1 else (0 :: nat))"
  by (auto simp: matches_def)

lemma matches_added: "matches l a \<Longrightarrow> l \<noteq> Some (AddNext False) \<Longrightarrow> a \<noteq> AddNext False"
  by (auto simp: matches_def)

lemma fine_reach_refines:
  assumes "oi_new alloc_ok = Inr oi" and "fine_reach (fine_start oi) ls f" and "Some (AddNext False) \<notin> set ls"
  shows "fine_ok f \<and> (\<exists>as. refined_by oi ls f as)"
  using assms(2,3)
proof (induction rule: fine_reach.induct)
  case fine_reach_start
  have "refined_by oi [] (fine_start oi) []" by (simp add: refined_by_def start_abs loops_def)
  then show ?case using start_fine_ok by blast
next
  case (fine_reach_step ls f l f')
  then obtain as where ok: "fine_ok f" and as: "AddNext False \<notin> set as" "sys_exec as (sys_start oi) = Inr (fn_abs f)"
    "length (filter generates as) = loops ls" by (auto simp: refined_by_def)
  from fine_simulation [OF ok sys_reach_inv [OF assms(1) as(1,2)] fine_reach_step.hyps(2)]
  have sim: "simulated f l f'" by simp
  show ?case
  proof (cases "l = None \<and> fn_abs f' = fn_abs f")
    case True
    with as sim have "refined_by oi (ls @ [l]) f' as" by (simp add: refined_by_def loops_snoc)
    with sim show ?thesis by (auto simp: simulated_def)
  next
    case False
    with sim obtain a where a: "matches l a" "sys_step a (fn_abs f) = Inr (fn_abs f')" by (auto simp: simulated_def)
    from matches_added [OF a(1)] fine_reach_step.prems have "a \<noteq> AddNext False" by auto
    with as a have "refined_by oi (ls @ [l]) f' (as @ [a])"
      by (simp add: refined_by_def loops_snoc matches_loops sys_exec_append)
    with sim show ?thesis by (auto simp: simulated_def)
  qed
qed

text \<open>Inside the system each monitor behaves as on its own.\<close>

lemma fine_reach_monitor:
  "fine_reach (fine_start oi) ls f \<Longrightarrow> Some (AddNext False) \<notin> set ls \<Longrightarrow> oi_new alloc_ok = Inr oi \<Longrightarrow>
     mo_reach (fn_mon f q)"
proof (induction rule: fine_reach.induct)
  case fine_reach_start
  then show ?case by (simp add: fine_start_def reach_start)
next
  case (fine_reach_step ls f l f')
  then have reach: "mo_reach (fn_mon f q)" by simp
  have ok: "fine_ok f" using fine_reach_refines fine_reach_step by auto
  have idle: "mo_pcs (fn_mon f p) (thread_number u) = Idle" if "fn_at f u = NoCall" for u p
  proof -
    have "mo_call (mo_pcs (fn_mon f p) (thread_number u)) = NotCalled"
      using outside_places [OF ok that] by (simp add: mo_place_def)
    then show ?thesis by (cases "mo_pcs (fn_mon f p) (thread_number u)") simp_all
  qed
  have call: "mo_reach (mo_goto (thread_number u) pc (fn_mon f q))" if "fn_at f u = NoCall" "starting pc" for u pc
    using reach_env [OF reach env_call [OF idle [OF that(1)] that(2)]] .
  have goes: "mo_reach m'" if "mo_step t (fn_mon f q) m'" for t m'
    using that reach_run [OF reach] reach_env [OF reach] by (auto simp: mo_step_def)
  from fine_reach_step.hyps(2) show ?case
  proof (rule fine_stepE, goal_cases)
    case (1 a)
    then show ?case using reach by (cases "sys_step a (fn_sys f)") auto
  next
    case (6 u m' r now)
    then have "fn_mon f' = (fn_mon f)(u := m')"
      by (auto simp: taken_def split: sum.splits)
    with 6 reach goes show ?case by auto
  qed (use reach call goes in \<open>auto simp: sent_def split: if_splits\<close>)
qed

subsection \<open>Properties\<close>

text \<open>
  Property C6 (refinement): the system run over the mutexes, wait sets and notifications of its queues
  refines \<open>System\<close>, where sending and taking are single steps. Every state that the threads and the
  main thread reach stands for one that a schedule of \<open>System\<close> reaches, with as many rounds of the
  observer; every queue is in a state that \<open>MessageMonitor\<close> reaches; and so the results are those of the first
  events generated, each once and in order.
\<close>

theorem system_over_monitors:
  assumes "oi_new alloc_ok = Inr oi" and "fine_reach (fine_start oi) ls f" and "Some (AddNext False) \<notin> set ls"
  shows "(\<exists>as. AddNext False \<notin> set as \<and> sys_exec as (sys_start oi) = Inr (fn_abs f) \<and> length (filter generates as) = loops ls) \<and>
    (\<forall>q. mo_reach (fn_mon f q)) \<and>
    ch_received (sy_chain (fn_sys f)) =
      take (length (ch_received (sy_chain (fn_sys f)))) (map result_of (ch_events (sy_chain (fn_sys f))))"
proof -
  from fine_reach_refines [OF assms] obtain as where as: "AddNext False \<notin> set as"
    "sys_exec as (sys_start oi) = Inr (fn_abs f)" "length (filter generates as) = loops ls" by (auto simp: refined_by_def)
  have "sys_inv (fn_abs f)" using sys_reach_inv [OF assms(1) as(1,2)] .
  then have "chain_reported (sy_chain (fn_abs f))" using chain_inv_reported by (auto simp: sys_inv_def torn_down_def)
  then have "ch_received (sy_chain (fn_sys f)) =
      take (length (ch_received (sy_chain (fn_sys f)))) (map result_of (ch_events (sy_chain (fn_sys f))))"
    by (simp add: chain_reported_def fn_abs_def)
  with as fine_reach_monitor [OF assms(2,3,1)] show ?thesis by blast
qed

text \<open>Actions that touch no queue, while no thread is in a call.\<close>

lemma fine_reach_plain:
  "fine_reach start ls f \<Longrightarrow> list_all plain as \<Longrightarrow> \<forall>u. fn_at f u = NoCall \<Longrightarrow> sys_exec as (fn_sys f) = Inr s \<Longrightarrow>
     fine_reach start (ls @ map Some as) (f\<lparr>fn_sys := s\<rparr>)"
proof (induction as arbitrary: ls f)
  case (Cons a as)
  then obtain s1 where s1: "sys_step a (fn_sys f) = Inr s1" "sys_exec as s1 = Inr s" by (auto split: sum.splits)
  have "fine_step f (Some a) (Inr (f\<lparr>fn_sys := s1\<rparr>))"
    using fine_plain [of a f] Cons.prems(2,3) s1(1) by simp
  from Cons.IH [OF fine_reach_step [OF Cons.prems(1) this]] Cons.prems s1(2) show ?case by simp
next
  case (Nil ls f)
  then show ?case by (cases f) auto
qed

definition first_event :: "sys_action list" where
  "first_event = start_up @ [Begin OI, Test OI, Loop OI (readings_at 5) 0]"

definition first_message :: payload where
  "first_message = FileMsg (file_event 1 5)"

lemma pushing_run:
  obtains oi ls f where "oi_new (\<lambda>_. True) = Inr oi" and "fine_reach (fine_start oi) ls f" and "Some (AddNext False) \<notin> set ls"
    and "fn_place f AO OI = Effected MqDone" and "mo_items (fn_mon f AO) = [Some first_message]"
proof -
  obtain oi where new: "oi_new (\<lambda>_. True) = Inr oi" using oi_new_exists by blast
  then have demo: "demo_system = sys_start oi" by (simp add: demo_system_def)
  have "(case sys_exec first_event demo_system of
      Inr s \<Rightarrow> wb_phase (worker s OI) = InRun (CombinedToken 0) \<and> queued (ch_world (sy_chain s)) AO = [] \<and>
        sw_queues (ch_world (sy_chain s)) AO \<noteq> None \<and>
        map (\<lambda>(sd, m). (messageQueuePtr sd, m)) (take 1 (ch_outbox (sy_chain s) OI)) = [(Some AO, first_message)] | _ \<Rightarrow> False)"
    by code_simp
  then obtain s where s: "sys_exec first_event (sys_start oi) = Inr s" and run: "wb_phase (worker s OI) = InRun (CombinedToken 0)"
    and ex: "sw_queues (ch_world (sy_chain s)) AO \<noteq> None"
    and ob: "map (\<lambda>(sd, m). (messageQueuePtr sd, m)) (take 1 (ch_outbox (sy_chain s) OI)) = [(Some AO, first_message)]"
    by (auto simp: demo split: sum.splits)
  let ?reach = "fine_reach (fine_start oi)" and ?ls = "map Some first_event :: sys_action option list"
  let ?f = "\<lambda>m c. \<lparr>fn_sys = s, fn_mon = (\<lambda>_. mo_start)(AO := m), fn_at = (\<lambda>_. NoCall)(OI := c)\<rparr>"
  let ?m1 = "mo_goto 0 (PushEnter (Some first_message)) mo_start"
  let ?m2 = "mo_goto 0 (PushIn (Some first_message)) ?m1\<lparr>mo_lock := Some 0\<rparr>"
  let ?m3 = "mo_goto 0 PushLeave ?m2\<lparr>mo_object := mq_push_ptr (Some first_message) (mo_object ?m2),
    mo_pushed := mo_pushed ?m2 @ [Some first_message]\<rparr>"
  have number [simp]: "thread_number OI = 0" by (simp add: thread_number_def)
  have "list_all plain first_event" by code_simp
  with fine_reach_plain [OF fine_reach_start, of first_event "fine_start oi" s] s
  have "?reach ?ls (?f mo_start NoCall)" by (simp add: fine_start_def fun_upd_idem)
  moreover have "sends_to (?f mo_start NoCall) OI first_message AO"
    using run ob by (cases "ch_outbox (sy_chain s) OI") (auto simp: sends_to_def)
  then have "fine_step (?f mo_start NoCall) None (Inr (?f ?m1 (Sending AO)))"
    using fine_send [of "?f mo_start NoCall" OI first_message AO] ex by (simp add: queue_exists_def)
  ultimately have "?reach (?ls @ [None]) (?f ?m1 (Sending AO))" by (rule fine_reach_step)
  moreover have "mo_step 0 ?m1 ?m2"
    using run_lock [of ?m1 0 "PushIn (Some first_message)"] by (simp add: mo_step_def mo_start_def)
  then have "fine_step (?f ?m1 (Sending AO)) None (Inr (?f ?m2 (Sending AO)))"
    using fine_inside [of "?f ?m1 (Sending AO)" OI AO ?m2] ex by (simp add: in_queue_def queue_exists_def mo_place_def)
  ultimately have "?reach ((?ls @ [None]) @ [None]) (?f ?m2 (Sending AO))" by (rule fine_reach_step)
  moreover have "mo_step 0 ?m2 ?m3"
    using run_push [of ?m2 0 "Some first_message"] by (simp add: mo_step_def)
  then have "fine_step (?f ?m2 (Sending AO)) None (Inr (?f ?m3 (Sending AO)))"
    using fine_inside [of "?f ?m2 (Sending AO)" OI AO ?m3] ex by (simp add: in_queue_def queue_exists_def mo_place_def)
  ultimately have "?reach (((?ls @ [None]) @ [None]) @ [None]) (?f ?m3 (Sending AO))" by (rule fine_reach_step)
  then show ?thesis
    by (rule that [OF new]) (simp_all add: first_event_def start_up_def mo_place_def mo_start_def mq_push_ptr_def mq_new_def)
qed

theorem system_over_monitors_witness:
  "\<exists>oi f as. oi_new (\<lambda>_. True) = Inr oi \<and> fn_place f AO OI = Effected MqDone \<and>
     mo_items (fn_mon f AO) = [Some first_message] \<and> sys_exec as (sys_start oi) = Inr (fn_abs f)"
proof -
  obtain oi ls f where run: "oi_new (\<lambda>_. True) = Inr oi" "fine_reach (fine_start oi) ls f" "Some (AddNext False) \<notin> set ls"
    and f: "fn_place f AO OI = Effected MqDone" "mo_items (fn_mon f AO) = [Some first_message]" by (rule pushing_run)
  from system_over_monitors [OF run] f run(1) show ?thesis by blast
qed

text \<open>
  Further property (safety): in the system over the monitors no step faults either: no call is begun or
  continued on a queue that is gone, and no counter overflows while the observer goes round fewer than
  2 to the 31 times.
\<close>

theorem monitors_never_fault:
  assumes "oi_new alloc_ok = Inr oi" and "fine_reach (fine_start oi) ls f" and "Some (AddNext False) \<notin> set (ls @ [l])"
    and "int (loops (ls @ [l])) \<le> int_max" and "fine_step f l r"
  shows "\<exists>f'. r = Inr f'"
proof (cases r)
  case (Inl fault)
  from fine_reach_refines [OF assms(1,2)] assms(3) obtain as where ok: "fine_ok f" and as: "AddNext False \<notin> set as"
    "sys_exec as (sys_start oi) = Inr (fn_abs f)" "length (filter generates as) = loops ls" by (auto simp: refined_by_def)
  from fine_simulation [OF ok sys_reach_inv [OF assms(1) as(1,2)] assms(5)] Inl
  obtain a where a: "matches l a" "sys_step a (fn_abs f) = Inl fault" by auto
  have "a \<noteq> AddNext False" using matches_added [OF a(1)] assms(3) by auto
  moreover have "int (length (filter generates (as @ [a]))) \<le> int_max"
    using assms(4) as(3) matches_loops [OF a(1)] by (auto simp: loops_snoc split: if_splits)
  moreover have "ch_events (sy_chain (sys_start oi)) = []" by (simp add: sys_start_def initTestChain_def)
  ultimately obtain s where "sys_exec (as @ [a]) (sys_start oi) = Inr s"
    using sys_exec_total [OF sys_start_inv [OF assms(1)], of "as @ [a]"] as(1) by auto
  with as(2) a(2) show ?thesis by (simp add: sys_exec_append)
qed simp

theorem monitors_never_fault_witness:
  "\<exists>oi f'. oi_new (\<lambda>_. True) = Inr oi \<and>
     map_sum id (\<lambda>s. fine_start oi\<lparr>fn_sys := s\<rparr>) (sys_step (AddNext True) (fn_sys (fine_start oi))) = Inr f'"
proof -
  obtain oi where new: "oi_new (\<lambda>_. True) = Inr oi" using oi_new_exists by blast
  have "fine_step (fine_start oi) (Some (AddNext True))
      (map_sum id (\<lambda>s. fine_start oi\<lparr>fn_sys := s\<rparr>) (sys_step (AddNext True) (fn_sys (fine_start oi))))"
    by (rule fine_plain) simp_all
  moreover have "int (loops ([] @ [Some (AddNext True)])) \<le> int_max" by (simp add: loops_def int_max_def)
  ultimately show ?thesis using monitors_never_fault [OF new fine_reach_start, of "Some (AddNext True)"] new by auto
qed

end
