(* ===== verification/ProgramCalls.thy ===== *)
theory ProgramCalls
  imports Program SystemCalls
begin

text \<open>
  \<open>Program\<close> over the monitors of its queues: the threads of the chain take the steps of \<open>SystemCalls\<close>, the
  main thread and the thread of the manager those of \<open>Program\<close>. The runs are those in which all threads could
  be created during the set-up. The theorems carry what \<open>Program\<close> says of its reachable states over to the
  single steps of the queues, and add what only these can show: when \<open>main\<close> has returned, nobody is left inside
  a queue.
\<close>

record program_calls =
  pl_prog :: program
  pl_mon :: "tid \<Rightarrow> payload monitor"
  pl_at :: "tid \<Rightarrow> in_call"

definition fine_of :: "program_calls \<Rightarrow> fine" where
  "fine_of x = \<lparr>fn_sys = pg_sys (pl_prog x), fn_mon = pl_mon x, fn_at = pl_at x\<rparr>"

definition with_fine :: "program_calls \<Rightarrow> fine \<Rightarrow> program_calls" where
  "with_fine x f = \<lparr>pl_prog = (pl_prog x)\<lparr>pg_sys := fn_sys f\<rparr>, pl_mon = fn_mon f, pl_at = fn_at f\<rparr>"

definition calls_start :: "bool \<Rightarrow> Observer \<Rightarrow> program_calls" where
  "calls_start spawn_self oi = \<lparr>pl_prog = prog_start spawn_self oi, pl_mon = \<lambda>_. mo_start, pl_at = \<lambda>_. NoCall\<rparr>"

fun by_chain :: "prog_action \<Rightarrow> bool" where
  "by_chain (Thread _) = True"
| "by_chain _ = False"

inductive calls_step :: "bool \<Rightarrow> program_calls \<Rightarrow> prog_action option \<Rightarrow> chain_fault + program_calls \<Rightarrow> bool" for background where
  calls_in_queue: "fine_step (fine_of x) None r \<Longrightarrow> calls_step background x None (map_sum id (with_fine x) r)"
| calls_thread: "fine_step (fine_of x) (Some a) r \<Longrightarrow> of_thread a \<Longrightarrow>
    calls_step background x (Some (Thread a)) (map_sum id (with_fine x) r)"
| calls_main: "\<not> by_chain a \<Longrightarrow> setup_step a (pl_prog x) \<Longrightarrow>
    calls_step background x (Some a) (map_sum id (\<lambda>p. x\<lparr>pl_prog := p\<rparr>) (prog_step background a (pl_prog x)))"

inductive_cases calls_stepE: "calls_step background x l r"

inductive calls_reach :: "bool \<Rightarrow> program_calls \<Rightarrow> prog_action option list \<Rightarrow> program_calls \<Rightarrow> bool" for background start where
  calls_reach_start: "calls_reach background start [] start"
| calls_reach_step: "calls_reach background start ls x \<Longrightarrow> calls_step background x l (Inr x') \<Longrightarrow>
    calls_reach background start (ls @ [l]) x'"

definition calls_abs :: "program_calls \<Rightarrow> program" where
  "calls_abs x = (pl_prog x)\<lparr>pg_sys := fn_abs (fine_of x)\<rparr>"

lemma fine_of_with [simp]: "fine_of (with_fine x f) = f"
  by (simp add: fine_of_def with_fine_def)

lemma fine_of_fields [simp]:
  "fn_sys (fine_of x) = pg_sys (pl_prog x)" "fn_mon (fine_of x) = pl_mon x" "fn_at (fine_of x) = pl_at x"
  by (simp_all add: fine_of_def)

lemma calls_abs_with: "calls_abs (with_fine x f) = (calls_abs x)\<lparr>pg_sys := fn_abs f\<rparr>"
  by (simp add: calls_abs_def) (simp add: with_fine_def)

lemma calls_abs_fields [simp]:
  "pg_pc (calls_abs x) = pg_pc (pl_prog x)" "pg_sys (calls_abs x) = fn_abs (fine_of x)"
  "pg_daemon (calls_abs x) = pg_daemon (pl_prog x)" "pg_self (calls_abs x) = pg_self (pl_prog x)"
  by (simp_all add: calls_abs_def)

lemma setup_step_abs: "setup_step a (calls_abs x) = setup_step a (pl_prog x)"
  by (cases a) (simp_all add: setup_step_def fn_abs_def)

subsection \<open>The main thread\<close>

lemma acting_of_thread: "acting a = None \<longleftrightarrow> \<not> of_thread a"
  by (cases a) simp_all

lemma main_continues_view:
  "main_continues ok (sys_view content outbox places s) = sys_view content outbox places (main_continues ok s)"
  using main_step_view [of "AddNext ok" content outbox places s] main_step_view [of JoinNext content outbox places s]
    main_step_view [of "RestartNext ok" content outbox places s]
  by (simp add: main_continues_def split: main_place.split)

lemma stop_requested_view:
  "stop_requested (sys_view content outbox places s) = sys_view content outbox places (stop_requested s)"
  by (simp add: stop_requested_def sys_view_def)

lemma dispatch_view:
  "prog_dispatch c d (sys_view content outbox places s) =
     map_sum id (map_prod id (sys_view content outbox places)) (prog_dispatch c d s)"
proof -
  note calls = main_step_view [of CallStop content outbox places s] main_step_view [of CallTerminate content outbox places s]
    main_step_view [of CallRestart content outbox places s]
  have command: "map_sum id (Pair d) (sys_call_command cmd (sys_view content outbox places s)) =
      map_sum id (map_prod id (sys_view content outbox places)) (map_sum id (Pair d) (sys_call_command cmd s))" for cmd
    using main_step_view [of "CallCommand cmd" content outbox places s] by (cases "sys_call_command cmd s") simp_all
  show ?thesis using calls command by (cases c) (simp_all add: prog_dispatch_def)
qed

lemma view_view [simp]: "view (p\<lparr>pg_sys := sys_view content outbox places (pg_sys p)\<rparr>) = view p"
  by (simp add: view_def)

lemma prog_main_view:
  "prog_main background sigs arr key ok (p\<lparr>pg_sys := sys_view content outbox places (pg_sys p)\<rparr>) =
     map_sum id (\<lambda>p'. p'\<lparr>pg_sys := sys_view content outbox places (pg_sys p')\<rparr>) (prog_main background sigs arr key ok p)"
proof (cases "sy_main (pg_sys p) = MainIdle")
  case False
  then show ?thesis by (simp add: prog_main_def main_continues_view)
next
  case idle: True
  show ?thesis
  proof (cases "pg_pc p")
    case Starting
    with idle show ?thesis by (auto simp: prog_main_def split: option.split prod.split)
  next
    case InLoop
    show ?thesis
    proof (cases "isRunning arr (deliver sigs (pg_daemon p)) (view p)")
      case None
      with idle InLoop show ?thesis by (simp add: prog_main_def)
    next
      case (Some x)
      obtain b d w where x: "x = (b, d, w)" by (cases x) auto
      show ?thesis
        using idle InLoop Some x dispatch_view [of "HandleConsole key" d content outbox places "pg_sys p"]
        by (cases "prog_dispatch (HandleConsole key) d (pg_sys p)") (auto simp: prog_main_def)
    qed
  next
    case Closing
    with idle show ?thesis by (auto simp: prog_main_def split: option.split prod.split)
  next
    case (Destroying code)
    have "sys_call_stop True (sys_view content outbox places (pg_sys p)) = sys_view content outbox places (sys_call_stop True (pg_sys p))"
      using main_step_view [of CallTerminate content outbox places "pg_sys p"] by simp
    with idle Destroying show ?thesis by (simp add: prog_main_def)
  qed (use idle in \<open>simp_all add: prog_main_def stop_requested_view\<close>)
qed

text \<open>What the main thread does to the system leaves the calls of the threads as they are.\<close>

lemma moves_fine:
  assumes ok: "fine_ok f" and inv: "sys_inv (fn_abs f)" and moves: "sys_moves (fn_sys f) adds restarts s'"
  shows "fine_ok (f\<lparr>fn_sys := s'\<rparr>) \<and> fn_abs (f\<lparr>fn_sys := s'\<rparr>) = sys_view (fn_content f) (fn_outbox f) (fn_loop f) s'"
proof -
  have abs: "fn_abs (f\<lparr>fn_sys := s'\<rparr>) = sys_view (fn_content f) (fn_outbox f) (fn_loop f) s'"
    if "ch_outbox (sy_chain s') = ch_outbox (sy_chain (fn_sys f))" "sy_place s' = sy_place (fn_sys f)"
    by (rule fn_abs_update) (use that in \<open>auto simp: fn_outbox_def has_pushed_def fn_loop_def fun_eq_iff\<close>)
  from moves consider (same) "s' = fn_sys f" | (asked) "s' = stop_requested (fn_sys f)"
    | (step) b where "sys_step b (fn_sys f) = Inr s'" "\<not> of_thread b" by (auto simp: sys_moves_def)
  then show ?thesis
  proof cases
    case same
    then have "f\<lparr>fn_sys := s'\<rparr> = f" by (cases f) simp
    with ok same show ?thesis by (simp add: fn_abs_def)
  next
    case asked
    then have kept: "ch_outbox (sy_chain s') = ch_outbox (sy_chain (fn_sys f))" "sy_place s' = sy_place (fn_sys f)"
      "tm_workers (sy_tm s') = tm_workers (sy_tm (fn_sys f))" by (simp_all add: stop_requested_def)
    have "thread_ok (f\<lparr>fn_sys := s'\<rparr>) v" for v
    proof -
      have "thread_ok f v" using ok by (simp add: fine_ok_def)
      then show ?thesis by (rule thread_ok_frame) (use kept in simp_all)
    qed
    with ok abs [OF kept(1,2)] show ?thesis by (simp add: fine_ok_def)
  next
    case step
    then have "acting b = None" "plain b" by (cases b; simp)+
    with simulated_plain [OF ok inv, of b s'] step abs main_step_same [OF _ step(1)] show ?thesis
      by (simp add: simulated_def)
  qed
qed

subsection \<open>Simulation\<close>

definition prog_matches :: "prog_action option \<Rightarrow> prog_action \<Rightarrow> bool" where
  "prog_matches l b \<longleftrightarrow> l = Some b \<or> l = None \<and> (\<exists>a. b = Thread a \<and> of_thread a \<and> \<not> generates a)"

definition calls_simulated :: "bool \<Rightarrow> program_calls \<Rightarrow> prog_action option \<Rightarrow> program_calls \<Rightarrow> bool" where
  "calls_simulated background x l x' \<longleftrightarrow> fine_ok (fine_of x') \<and>
     (l = None \<and> calls_abs x' = calls_abs x \<or>
      (\<exists>b. prog_matches l b \<and> setup_step b (calls_abs x) \<and> prog_step background b (calls_abs x) = Inr (calls_abs x')))"

lemma chain_step_simulated:
  assumes ok: "fine_ok (fine_of x)" and inv: "sys_inv (fn_abs (fine_of x))" and step: "fine_step (fine_of x) l r"
    and l: "\<And>a. l = Some a \<Longrightarrow> of_thread a"
  shows "case r of
      Inl fault \<Rightarrow> \<exists>b. prog_matches (map_option Thread l) b \<and> setup_step b (calls_abs x) \<and>
        prog_step background b (calls_abs x) = Inl fault
    | Inr f \<Rightarrow> calls_simulated background x (map_option Thread l) (with_fine x f)"
proof -
  have thread: "prog_matches (map_option Thread l) (Thread a)" "of_thread a" if "matches l a" for a
    using that l acting_of_thread [of a] by (auto simp: matches_def prog_matches_def)
  show ?thesis
  proof (cases r)
    case (Inl fault)
    with fine_simulation [OF ok inv step] obtain a where "matches l a" "sys_step a (fn_abs (fine_of x)) = Inl fault" by auto
    with Inl thread [of a] show ?thesis by (auto simp: setup_step_def intro: exI [of _ "Thread a"])
  next
    case (Inr f)
    with fine_simulation [OF ok inv step] have sim: "simulated (fine_of x) l f" by simp
    show ?thesis
    proof (cases "l = None \<and> fn_abs f = fn_abs (fine_of x)")
      case True
      then have "calls_abs (with_fine x f) = (calls_abs x)\<lparr>pg_sys := fn_abs (fine_of x)\<rparr>"
        by (simp add: calls_abs_with)
      also have "\<dots> = calls_abs x" by (simp add: calls_abs_def)
      finally have "calls_abs (with_fine x f) = calls_abs x" .
      with True sim Inr show ?thesis by (simp add: calls_simulated_def simulated_def)
    next
      case False
      with sim obtain a where a: "matches l a" "sys_step a (fn_abs (fine_of x)) = Inr (fn_abs f)" by (auto simp: simulated_def)
      then have "prog_step background (Thread a) (calls_abs x) = Inr (calls_abs (with_fine x f))"
        using thread(2) [OF a(1)] by (simp add: calls_abs_with)
      moreover have "setup_step (Thread a) (calls_abs x)" by (simp add: setup_step_def)
      ultimately show ?thesis using sim thread(1) [OF a(1)] Inr
        by (auto simp: calls_simulated_def simulated_def)
    qed
  qed
qed

lemma main_step_simulated:
  assumes ok: "fine_ok (fine_of x)" and inv: "prog_inv spawn_self (calls_abs x)" and a: "\<not> by_chain a"
    and created: "setup_step a (pl_prog x)"
  shows "case prog_step background a (pl_prog x) of
      Inl fault \<Rightarrow> prog_step background a (calls_abs x) = Inl fault
    | Inr p \<Rightarrow> calls_simulated background x (Some a) (x\<lparr>pl_prog := p\<rparr>)"
proof -
  let ?f = "fine_of x"
  let ?view = "sys_view (fn_content ?f) (fn_outbox ?f) (fn_loop ?f)"
  have abs: "calls_abs x = (pl_prog x)\<lparr>pg_sys := ?view (pg_sys (pl_prog x))\<rparr>"
    by (simp add: calls_abs_def fn_abs_def)
  have sinv: "sys_inv (fn_abs ?f)" and d: "handlers_ok (pg_daemon (pl_prog x))" using inv by (simp_all add: prog_inv_def)
  have made: "setup_step a (calls_abs x)" using created by (simp add: setup_step_abs)
  have upd: "fine_of (x\<lparr>pl_prog := p\<rparr>) = ?f\<lparr>fn_sys := pg_sys p\<rparr>" for p by (simp add: fine_of_def)
  show ?thesis
  proof (cases a)
    case (Main sigs arr key spawn_ok)
    show ?thesis
    proof (cases "prog_main background sigs arr key spawn_ok (pl_prog x)")
      case (Inl fault)
      with Main abs prog_main_view [where p = "pl_prog x" and sigs = sigs and arr = arr and key = key and ok = spawn_ok] show ?thesis by simp
    next
      case (Inr p)
      from moves_fine [OF ok sinv, of _ _ "pg_sys p"] main_moves [OF d Inr]
      have moved: "fine_ok (fine_of (x\<lparr>pl_prog := p\<rparr>))" "fn_abs (fine_of (x\<lparr>pl_prog := p\<rparr>)) = ?view (pg_sys p)"
        unfolding upd by auto
      then have "calls_abs (x\<lparr>pl_prog := p\<rparr>) = p\<lparr>pg_sys := ?view (pg_sys p)\<rparr>" by (simp add: calls_abs_def)
      with Main Inr abs moved(1) made prog_main_view [where p = "pl_prog x" and sigs = sigs and arr = arr and key = key and ok = spawn_ok]
      show ?thesis by (auto simp: calls_simulated_def prog_matches_def)
    qed
  next
    case SelfProgress
    let ?p = "(pl_prog x)\<lparr>pg_self := wb_settle (tm_sources (sy_tm (pg_sys (pl_prog x)))) (pg_self (pl_prog x))\<rparr>"
    have same: "fine_of (x\<lparr>pl_prog := ?p\<rparr>) = ?f" by (simp add: fine_of_def)
    moreover have "calls_abs (x\<lparr>pl_prog := ?p\<rparr>) = ?p\<lparr>pg_sys := fn_abs ?f\<rparr>" unfolding calls_abs_def same by simp
    moreover have "fine_ok (fine_of (x\<lparr>pl_prog := ?p\<rparr>))" unfolding same by (rule ok)
    ultimately have "calls_simulated background x (Some a) (x\<lparr>pl_prog := ?p\<rparr>)"
      using SelfProgress abs unfolding calls_simulated_def prog_matches_def setup_step_def by (simp add: fn_abs_def)
    with SelfProgress show ?thesis by simp
  qed (use a in simp)
qed


lemma calls_simulation:
  assumes ok: "fine_ok (fine_of x)" and inv: "prog_inv spawn_self (calls_abs x)" and step: "calls_step background x l r"
  shows "case r of
      Inl fault \<Rightarrow> \<exists>b. prog_matches l b \<and> setup_step b (calls_abs x) \<and> prog_step background b (calls_abs x) = Inl fault
    | Inr x' \<Rightarrow> calls_simulated background x l x'"
proof -
  have sinv: "sys_inv (fn_abs (fine_of x))" using inv by (simp add: prog_inv_def)
  have thread: "setup_step (Thread a) p" for a p by (simp add: setup_step_def)
  from step show ?thesis
  proof (rule calls_stepE, goal_cases)
    case (1 r')
    from chain_step_simulated [OF ok sinv 1(3)] 1 show ?thesis
      by (cases r') (auto simp: prog_matches_def thread)
  next
    case (2 a r')
    from chain_step_simulated [OF ok sinv 2(3)] 2 show ?thesis
      by (cases r') (auto simp: prog_matches_def thread)
  next
    case (3 a)
    have "setup_step a (calls_abs x)" using 3(4) by (simp add: setup_step_abs)
    with main_step_simulated [OF ok inv 3(3,4), of background] 3(1,2) show ?thesis
      by (cases "prog_step background a (pl_prog x)") (auto simp: prog_matches_def simp del: prog_step.simps)
  qed
qed

subsection \<open>Runs\<close>

lemma prog_exec_snoc:
  "prog_exec background (as @ [b]) p = (case prog_exec background as p of Inl fault \<Rightarrow> Inl fault | Inr p' \<Rightarrow> prog_step background b p')"
  by (induction as arbitrary: p) (auto simp del: prog_step.simps split: sum.splits)

lemma setup_ok_snoc:
  "prog_exec background as p = Inr p1 \<Longrightarrow> setup_ok background as p \<Longrightarrow> setup_step b p1 \<Longrightarrow> setup_ok background (as @ [b]) p"
proof (induction as arbitrary: p)
  case Nil
  then show ?case by (auto simp: setup_step_def simp del: prog_step.simps split: prog_action.splits sum.splits)
next
  case (Cons a as)
  then obtain p2 where p2: "prog_step background a p = Inr p2" "prog_exec background as p2 = Inr p1"
    by (auto simp del: prog_step.simps split: sum.splits)
  with Cons.IH [of p2] Cons.prems show ?case by (simp del: prog_step.simps)
qed

definition prog_loops :: "prog_action option list \<Rightarrow> nat" where
  "prog_loops ls = length (filter (\<lambda>l. case l of None \<Rightarrow> False | Some a \<Rightarrow> prog_generates a) ls)"

definition prog_refined_by :: "bool \<Rightarrow> bool \<Rightarrow> Observer \<Rightarrow> prog_action option list \<Rightarrow> program_calls \<Rightarrow> prog_action list \<Rightarrow> bool" where
  "prog_refined_by spawn_self background oi ls x as \<longleftrightarrow> prog_reach spawn_self background oi as (calls_abs x) \<and>
     length (filter prog_generates as) = prog_loops ls"

lemma prog_matches_loops:
  "prog_matches l b \<Longrightarrow> prog_loops (ls @ [l]) = prog_loops ls + (if prog_generates b then 1 else 0)"
  by (auto simp: prog_matches_def prog_loops_def)

lemma calls_start_abs: "fine_of (calls_start spawn_self oi) = fine_start oi" "calls_abs (calls_start spawn_self oi) = prog_start spawn_self oi"
proof -
  show start: "fine_of (calls_start spawn_self oi) = fine_start oi"
    by (simp add: fine_of_def calls_start_def fine_start_def prog_start_def)
  show "calls_abs (calls_start spawn_self oi) = prog_start spawn_self oi"
    unfolding calls_abs_def start start_abs by (simp add: calls_start_def prog_start_def)
qed

lemma calls_reach_refines:
  assumes "oi_new alloc_ok = Inr oi" and "calls_reach background (calls_start spawn_self oi) ls x"
  shows "fine_ok (fine_of x) \<and> (\<exists>as. prog_refined_by spawn_self background oi ls x as)"
  using assms(2)
proof (induction rule: calls_reach.induct)
  case calls_reach_start
  have "prog_refined_by spawn_self background oi [] (calls_start spawn_self oi) []"
    by (simp add: prog_refined_by_def prog_reach_def calls_start_abs prog_loops_def)
  then show ?case using start_fine_ok calls_start_abs(1) by metis
next
  case (calls_reach_step ls x l x')
  then obtain as where ok: "fine_ok (fine_of x)" and reach: "prog_reach spawn_self background oi as (calls_abs x)"
    and count: "length (filter prog_generates as) = prog_loops ls" by (auto simp: prog_refined_by_def)
  from calls_simulation [OF ok reach_inv [OF assms(1) reach] calls_reach_step.hyps(2)]
  have sim: "calls_simulated background x l x'" by simp
  show ?case
  proof (cases "l = None \<and> calls_abs x' = calls_abs x")
    case True
    with reach count have "prog_refined_by spawn_self background oi (ls @ [l]) x' as"
      by (simp add: prog_refined_by_def prog_loops_def)
    with sim show ?thesis by (auto simp: calls_simulated_def)
  next
    case False
    with sim obtain b where b: "prog_matches l b" "setup_step b (calls_abs x)"
      "prog_step background b (calls_abs x) = Inr (calls_abs x')" by (auto simp: calls_simulated_def)
    with reach have "prog_reach spawn_self background oi (as @ [b]) (calls_abs x')"
      by (simp add: prog_reach_def prog_exec_snoc setup_ok_snoc del: prog_step.simps)
    with count prog_matches_loops [OF b(1)] have "prog_refined_by spawn_self background oi (ls @ [l]) x' (as @ [b])"
      by (simp add: prog_refined_by_def)
    with sim show ?thesis by (auto simp: calls_simulated_def)
  qed
qed

text \<open>A thread that is not in \<open>run\<close> is in no call.\<close>

lemma ended_outside:
  assumes "fine_ok f" and "\<not> body_active (wb_phase (worker (fn_sys f) u))"
  shows "fn_at f u = NoCall \<and> (\<forall>q. fn_place f q u = NotCalled)"
proof -
  have tok: "thread_ok f u" using assms(1) by (simp add: fine_ok_def)
  with assms(2) have "fn_at f u = NoCall"
    by (cases "fn_at f u") (auto simp: thread_ok_def sends_to_def waits_def)
  with tok show ?thesis by (simp add: thread_ok_def in_queue_def)
qed

text \<open>Actions that touch no queue, while no thread is in a call.\<close>

fun prog_plain :: "prog_action \<Rightarrow> bool" where
  "prog_plain (Thread a) = (plain a \<and> of_thread a)"
| "prog_plain _ = True"

lemma calls_step_plain:
  assumes "prog_plain a" and "\<forall>u. pl_at x u = NoCall" and "setup_step a (pl_prog x)"
    and "prog_step background a (pl_prog x) = Inr p"
  shows "calls_step background x (Some a) (Inr (x\<lparr>pl_prog := p\<rparr>))"
proof (cases "by_chain a")
  case True
  then obtain b where a: "a = Thread b" by (cases a) auto
  with assms have b: "fine_step (fine_of x) (Some b) (map_sum id (\<lambda>s. (fine_of x)\<lparr>fn_sys := s\<rparr>) (sys_step b (fn_sys (fine_of x))))"
    by (intro fine_plain) auto
  have set: "with_fine x ((fine_of x)\<lparr>fn_sys := s\<rparr>) = x\<lparr>pl_prog := (pl_prog x)\<lparr>pg_sys := s\<rparr>\<rparr>" for s
    by (cases x) (simp add: with_fine_def)
  from calls_thread [OF b, of background] a assms(1,4) show ?thesis
    by (cases "sys_step b (pg_sys (pl_prog x))") (auto simp: set)
next
  case False
  with calls_main [OF this assms(3), of background] assms(4) show ?thesis by simp
qed

lemma calls_reach_plain:
  "calls_reach background start ls x \<Longrightarrow> list_all prog_plain as \<Longrightarrow> \<forall>u. pl_at x u = NoCall \<Longrightarrow>
     setup_ok background as (pl_prog x) \<Longrightarrow> prog_exec background as (pl_prog x) = Inr p \<Longrightarrow>
     calls_reach background start (ls @ map Some as) (x\<lparr>pl_prog := p\<rparr>)"
proof (induction as arbitrary: ls x)
  case (Cons a as)
  then obtain p1 where p1: "prog_step background a (pl_prog x) = Inr p1" "prog_exec background as p1 = Inr p"
    by (auto simp del: prog_step.simps split: sum.splits)
  with Cons.prems have a: "setup_step a (pl_prog x)" "setup_ok background as p1"
    by (auto simp: setup_step_def simp del: prog_step.simps)
  have "calls_step background x (Some a) (Inr (x\<lparr>pl_prog := p1\<rparr>))"
    using calls_step_plain [of a x background p1] Cons.prems(2,3) a(1) p1(1) by simp
  from Cons.IH [OF calls_reach_step [OF Cons.prems(1) this]] Cons.prems p1(2) a(2) show ?case by simp
next
  case (Nil ls x)
  then show ?case by (cases x) auto
qed

definition refused_program :: "prog_action list" where
  "refused_program = main_steps 9 @ map Thread [Begin OI, Begin AO, Begin PT, Begin TT, Begin RT, Test OI, Finish OI,
     Test AO, Finish AO, Test PT, Finish PT, Test TT, Finish TT, Test RT, Finish RT] @ main_steps 9"

subsection \<open>Properties\<close>

text \<open>
  Property C17 (refinement, safety): the whole program run over the single steps of its queues refines
  \<open>Program\<close>: every state that the main thread, the manager's thread and the five threads reach stands for
  a state that a schedule of \<open>Program\<close> reaches, at the same place of \<open>main\<close> and with as many rounds of the
  observer. When \<open>main\<close> has returned, no thread is left inside a queue: none holds its mutex, waits in it or
  owes a notification.
\<close>

theorem program_over_monitors:
  assumes "oi_new alloc_ok = Inr oi" and "calls_reach background (calls_start spawn_self oi) ls x"
  shows "(\<exists>as. prog_reach spawn_self background oi as (calls_abs x) \<and> length (filter prog_generates as) = prog_loops ls) \<and>
    pg_pc (calls_abs x) = pg_pc (pl_prog x) \<and>
    (pg_pc (pl_prog x) = Ended code \<longrightarrow>
       (\<forall>u q. pl_at x u = NoCall \<and> mo_pcs (pl_mon x q) (thread_number u) = Idle))"
proof -
  from calls_reach_refines [OF assms] obtain as where ok: "fine_ok (fine_of x)"
    and reach: "prog_reach spawn_self background oi as (calls_abs x)"
    and count: "length (filter prog_generates as) = prog_loops ls" by (auto simp: prog_refined_by_def)
  have inv: "prog_inv spawn_self (calls_abs x)" using reach_inv [OF assms(1) reach] .
  have "pl_at x u = NoCall \<and> mo_pcs (pl_mon x q) (thread_number u) = Idle" if "pg_pc (pl_prog x) = Ended code" for u q
  proof -
    have "\<not> body_active (wb_phase (worker (pg_sys (calls_abs x)) u))"
      using inv that by (auto simp: prog_inv_def pc_ok_def sys_inv_def inv_workers_def)
    then have "\<not> body_active (wb_phase (worker (fn_sys (fine_of x)) u))" by (simp add: fn_abs_def)
    from ended_outside [OF ok this] have "pl_at x u = NoCall" and "mo_call (mo_pcs (pl_mon x q) (thread_number u)) = NotCalled"
      by (simp_all add: mo_place_def)
    then show ?thesis by (cases "mo_pcs (pl_mon x q) (thread_number u)") simp_all
  qed
  with reach count show ?thesis by auto
qed

theorem program_over_monitors_witness:
  "\<exists>oi as p. oi_new (\<lambda>_. True) = Inr oi \<and> prog_reach False False oi as p \<and> pg_pc p = Ended 1"
proof -
  obtain oi where new: "oi_new (\<lambda>_. True) = Inr oi" using oi_new_exists by blast
  then have demo: "demo_program False = prog_start False oi" by (simp add: demo_program_def)
  have "setup_ok False refused_program (demo_program False)" and plain: "list_all prog_plain refused_program"
    and "(case prog_exec False refused_program (demo_program False) of Inr p \<Rightarrow> pg_pc p = Ended 1 | _ \<Rightarrow> False)" by code_simp+
  then obtain p where set: "setup_ok False refused_program (prog_start False oi)"
    and p: "prog_exec False refused_program (prog_start False oi) = Inr p" "pg_pc p = Ended 1"
    by (auto simp: demo simp del: prog_exec.simps setup_ok.simps split: sum.splits)
  let ?x = "(calls_start False oi)\<lparr>pl_prog := p\<rparr>"
  have "calls_reach False (calls_start False oi) ([] @ map Some refused_program) ?x"
    by (rule calls_reach_plain [OF calls_reach_start plain]) (simp_all add: calls_start_def set p(1))
  from program_over_monitors [OF new this, of 1] p(2) new show ?thesis by force
qed

text \<open>
  Further property (safety): nor does the program fault over the single steps of its queues, while the
  observer goes round fewer than 2 to the 31 times: no thread begins or continues a call on a queue that
  the main thread has destroyed.
\<close>

theorem program_calls_never_fault:
  assumes "oi_new alloc_ok = Inr oi" and "calls_reach background (calls_start spawn_self oi) ls x"
    and "int (prog_loops (ls @ [l])) \<le> int_max" and "calls_step background x l r"
  shows "\<exists>x'. r = Inr x'"
proof (cases r)
  case (Inl fault)
  from calls_reach_refines [OF assms(1,2)] obtain as where ok: "fine_ok (fine_of x)"
    and reach: "prog_reach spawn_self background oi as (calls_abs x)"
    and count: "length (filter prog_generates as) = prog_loops ls" by (auto simp: prog_refined_by_def)
  from calls_simulation [OF ok reach_inv [OF assms(1) reach] assms(4)] Inl
  obtain b where b: "prog_matches l b" "setup_step b (calls_abs x)" "prog_step background b (calls_abs x) = Inl fault" by auto
  have setup_ok: "setup_ok background (as @ [b]) (prog_start spawn_self oi)"
    using reach setup_ok_snoc b(2) by (simp add: prog_reach_def)
  moreover have "int (length (filter prog_generates (as @ [b]))) \<le> int_max"
    using assms(3) count prog_matches_loops [OF b(1), of ls] by (auto split: if_splits)
  moreover have "ch_events (sy_chain (pg_sys (prog_start spawn_self oi))) = []"
    by (simp add: prog_start_def sys_start_def initTestChain_def)
  ultimately obtain p where "prog_exec background (as @ [b]) (prog_start spawn_self oi) = Inr p"
    using prog_exec_total [OF start_prog_inv [OF assms(1), of spawn_self] setup_ok] by auto
  with reach b(3) show ?thesis by (simp add: prog_reach_def prog_exec_snoc del: prog_step.simps)
qed simp

theorem program_calls_never_fault_witness:
  "\<exists>oi x. oi_new (\<lambda>_. True) = Inr oi \<and>
     map_sum id (\<lambda>p. (calls_start True oi)\<lparr>pl_prog := p\<rparr>) (prog_step False SelfProgress (pl_prog (calls_start True oi))) = Inr x"
proof -
  obtain oi where new: "oi_new (\<lambda>_. True) = Inr oi" using oi_new_exists by blast
  have "calls_step False (calls_start True oi) (Some SelfProgress)
      (map_sum id (\<lambda>p. (calls_start True oi)\<lparr>pl_prog := p\<rparr>) (prog_step False SelfProgress (pl_prog (calls_start True oi))))"
    by (rule calls_main) (simp_all add: setup_step_def)
  moreover have "int (prog_loops ([] @ [Some SelfProgress])) \<le> int_max" by (simp add: prog_loops_def int_max_def)
  ultimately show ?thesis using program_calls_never_fault [OF new calls_reach_start, of "Some SelfProgress"] new by blast
qed

end
